(* ===== verification/Prelude.thy ===== *)
theory Prelude
  imports Main "HOL-Library.Monad_Syntax" "HOL-Library.Word" "HOL-Library.Signed_Division"
begin

text \<open>
  What the component theories share: the result monad of code that may fail an assertion, the
  reading of a non-negative integer as a bit vector of a given width, and the simplification
  sets of the development.

  A C++ function that can run into a failing \<^verbatim>\<open>assert\<close> returns an \<^typ>\<open>'a option\<close>: \<^term>\<open>None\<close> is
  the abort, and the sequencing of calls is \<^const>\<open>Option.bind\<close> (written with \<^verbatim>\<open>do\<close>).
\<close>

unbundle bit_operations_syntax

named_theorems width_simps "widths of the results of the expression constructors"
named_theorems eval_simps "values of the results of the expression constructors"

section \<open>Assertions\<close>

definition require :: "bool \<Rightarrow> unit option" where
  "require b = (if b then Some () else None)"

lemma require_True [simp]: "require True = Some ()"
  by (simp add: require_def)

lemma require_False [simp]: "require False = None"
  by (simp add: require_def)

lemma require_eq_Some [simp]: "require b = Some u \<longleftrightarrow> b"
  by (cases u) (simp add: require_def)

lemma require_bind_eq_Some [simp]: "(require b \<bind> f = Some x) \<longleftrightarrow> b \<and> f () = Some x"
  by (simp add: require_def)

lemmas option_bind_simps = Option.bind_eq_Some_conv

section \<open>Integers as bit vectors of a width\<close>

text \<open>
  A bit vector of width \<^term>\<open>w\<close> is an integer in the range of \<^term>\<open>bv w\<close>; its two's
  complement reading is \<^term>\<open>sbv w\<close>.
\<close>

definition bv :: "nat \<Rightarrow> int \<Rightarrow> bool" where
  "bv w a \<longleftrightarrow> 0 \<le> a \<and> a < 2 ^ w"

definition sbv :: "nat \<Rightarrow> int \<Rightarrow> int" where
  "sbv w a = signed_take_bit (w - 1) a"

lemma bv_take_bit [simp]: "bv w (take_bit w a)"
  by (simp add: bv_def)

lemma take_bit_bv: "bv w a \<Longrightarrow> take_bit w a = a"
  by (simp add: bv_def take_bit_int_eq_self_iff)

lemma bv_iff_take_bit: "bv w a \<longleftrightarrow> take_bit w a = a"
  by (simp add: bv_def take_bit_int_eq_self_iff)

lemma bv_bitD: "bv w a \<Longrightarrow> bit a j \<Longrightarrow> j < w"
  by (metis bit_take_bit_iff bv_iff_take_bit)

lemma bvI_bit: "(\<And>j. bit a j \<Longrightarrow> j < w) \<Longrightarrow> bv w a"
  by (auto simp: bv_iff_take_bit bit_take_bit_iff intro!: bit_eqI)

lemma bv_nonneg: "bv w a \<Longrightarrow> 0 \<le> a"
  by (simp add: bv_def)

lemma bv_mono: "bv v a \<Longrightarrow> v \<le> w \<Longrightarrow> bv w a"
  by (auto simp: bv_def intro: order.strict_trans2 [OF _ power_increasing])

lemma bv_0 [simp]: "bv w 0"
  by (simp add: bv_def)

lemma bv_1 [simp]: "0 < w \<Longrightarrow> bv w 1"
  by (simp add: bv_def)

lemma bv_of_bool [simp]: "bv (Suc 0) (of_bool b)"
  by (simp add: bv_def)

lemma bv_Suc_0_iff: "bv (Suc 0) a \<longleftrightarrow> a = 0 \<or> a = 1"
  by (auto simp: bv_def)

lemma bv_and [simp]: "bv w a \<Longrightarrow> bv w b \<Longrightarrow> bv w (a AND b)"
  by (simp add: bv_iff_take_bit)

lemma bv_or [simp]: "bv w a \<Longrightarrow> bv w b \<Longrightarrow> bv w (a OR b)"
  by (simp add: bv_iff_take_bit)

lemma bv_xor [simp]: "bv w a \<Longrightarrow> bv w b \<Longrightarrow> bv w (a XOR b)"
  by (simp add: bv_iff_take_bit)

lemma bv_drop_bit [simp]: "bv w a \<Longrightarrow> bv w (drop_bit n a)"
proof -
  assume "bv w a"
  then have "drop_bit n a \<le> a" "0 \<le> drop_bit n a"
    using zdiv_mono2 [of a 1 "2 ^ n"] by (auto simp: bv_def drop_bit_eq_div pos_imp_zdiv_nonneg_iff)
  with \<open>bv w a\<close> show ?thesis by (auto simp: bv_def)
qed

lemma sbv_take_bit: "0 < w \<Longrightarrow> take_bit w (sbv w a) = take_bit w a"
  by (simp add: sbv_def take_bit_signed_take_bit)

lemma sbv_inject: "0 < w \<Longrightarrow> bv w a \<Longrightarrow> bv w b \<Longrightarrow> sbv w a = sbv w b \<longleftrightarrow> a = b"
  by (metis bv_iff_take_bit sbv_take_bit)

end
