(* ===== verification/APInt.thy ===== *)
theory APInt
  imports Prelude
begin

text \<open>
  The interface to \<^verbatim>\<open>llvm::APInt\<close>, the fixed-width integer that a \<^verbatim>\<open>ConstantExpr\<close> holds
  (\<^verbatim>\<open>src/klee/include/klee/Expr.h\<close>). LLVM is not part of the repository: its operations are
  the fields of the record \<^verbatim>\<open>apint_ops\<close>, which every definition that uses them takes as an
  argument, and what LLVM documents of them is the locale \<^verbatim>\<open>apint_laws\<close>. The reference
  arithmetic \<^verbatim>\<open>apint_ref\<close> shows that the laws can hold.

  An APInt is known by its bit width and its unsigned value.
\<close>

datatype apint = APInt (getBitWidth: nat) (apValue: int)

definition ap_wf :: "apint \<Rightarrow> bool" where
  "ap_wf x \<longleftrightarrow> 0 < getBitWidth x \<and> bv (getBitWidth x) (apValue x)"

lemma ap_wf_pos: "ap_wf x \<Longrightarrow> 0 < getBitWidth x"
  by (simp add: ap_wf_def)

lemma ap_wf_bv: "ap_wf x \<Longrightarrow> bv (getBitWidth x) (apValue x)"
  by (simp add: ap_wf_def)

text \<open>The two's complement reading.\<close>

definition ap_signed :: "apint \<Rightarrow> int" where
  "ap_signed x = sbv (getBitWidth x) (apValue x)"

record apint_ops =
  ap_of :: "nat \<Rightarrow> 64 word \<Rightarrow> apint"
  ap_add :: "apint \<Rightarrow> apint \<Rightarrow> apint"
  ap_sub :: "apint \<Rightarrow> apint \<Rightarrow> apint"
  ap_mul :: "apint \<Rightarrow> apint \<Rightarrow> apint"
  ap_udiv :: "apint \<Rightarrow> apint \<Rightarrow> apint"
  ap_sdiv :: "apint \<Rightarrow> apint \<Rightarrow> apint"
  ap_urem :: "apint \<Rightarrow> apint \<Rightarrow> apint"
  ap_srem :: "apint \<Rightarrow> apint \<Rightarrow> apint"
  ap_and :: "apint \<Rightarrow> apint \<Rightarrow> apint"
  ap_or :: "apint \<Rightarrow> apint \<Rightarrow> apint"
  ap_xor :: "apint \<Rightarrow> apint \<Rightarrow> apint"
  ap_shl :: "apint \<Rightarrow> apint \<Rightarrow> apint"
  ap_lshr :: "apint \<Rightarrow> apint \<Rightarrow> apint"
  ap_ashr :: "apint \<Rightarrow> apint \<Rightarrow> apint"
  ap_neg :: "apint \<Rightarrow> apint"
  ap_not :: "apint \<Rightarrow> apint"
  ap_shl_by :: "apint \<Rightarrow> nat \<Rightarrow> apint"
  ap_ashr_by :: "apint \<Rightarrow> nat \<Rightarrow> apint"
  ap_zextOrTrunc :: "apint \<Rightarrow> nat \<Rightarrow> apint"
  ap_sextOrTrunc :: "apint \<Rightarrow> nat \<Rightarrow> apint"
  ap_ult :: "apint \<Rightarrow> apint \<Rightarrow> bool"
  ap_slt :: "apint \<Rightarrow> apint \<Rightarrow> bool"
  ap_hash :: "apint \<Rightarrow> 32 word"

text \<open>
  \<^verbatim>\<open>ult\<close>, \<^verbatim>\<open>slt\<close> and \<^verbatim>\<open>==\<close> are the primitive comparisons of APInt; LLVM documents the others as
  their combinations (\<^verbatim>\<open>ule(x) = ult(x) || *this == x\<close>, \<^verbatim>\<open>ugt(x) = !ule(x)\<close> and so on).
  APInt's own \<^verbatim>\<open>==\<close> on equal widths is equality of the two values.
\<close>

definition ap_ule :: "('r) apint_ops_scheme \<Rightarrow> apint \<Rightarrow> apint \<Rightarrow> bool" where
  "ap_ule R x y \<longleftrightarrow> ap_ult R x y \<or> x = y"

definition ap_ugt :: "('r) apint_ops_scheme \<Rightarrow> apint \<Rightarrow> apint \<Rightarrow> bool" where
  "ap_ugt R x y \<longleftrightarrow> \<not> ap_ule R x y"

definition ap_uge :: "('r) apint_ops_scheme \<Rightarrow> apint \<Rightarrow> apint \<Rightarrow> bool" where
  "ap_uge R x y \<longleftrightarrow> \<not> ap_ult R x y"

definition ap_sle :: "('r) apint_ops_scheme \<Rightarrow> apint \<Rightarrow> apint \<Rightarrow> bool" where
  "ap_sle R x y \<longleftrightarrow> ap_slt R x y \<or> x = y"

definition ap_sgt :: "('r) apint_ops_scheme \<Rightarrow> apint \<Rightarrow> apint \<Rightarrow> bool" where
  "ap_sgt R x y \<longleftrightarrow> \<not> ap_sle R x y"

definition ap_sge :: "('r) apint_ops_scheme \<Rightarrow> apint \<Rightarrow> apint \<Rightarrow> bool" where
  "ap_sge R x y \<longleftrightarrow> \<not> ap_slt R x y"

definition ap_same :: "apint \<Rightarrow> apint \<Rightarrow> bool" where
  "ap_same x y \<longleftrightarrow> ap_wf x \<and> ap_wf y \<and> getBitWidth x = getBitWidth y"

section \<open>What LLVM documents\<close>

locale apint_laws =
  fixes R :: "('r) apint_ops_scheme"
  assumes of_law: "0 < w \<Longrightarrow> ap_of R w v = APInt w (take_bit w (uint v))"
    and add_law: "ap_same x y \<Longrightarrow>
      ap_add R x y = APInt (getBitWidth x) (take_bit (getBitWidth x) (apValue x + apValue y))"
    and sub_law: "ap_same x y \<Longrightarrow>
      ap_sub R x y = APInt (getBitWidth x) (take_bit (getBitWidth x) (apValue x - apValue y))"
    and mul_law: "ap_same x y \<Longrightarrow>
      ap_mul R x y = APInt (getBitWidth x) (take_bit (getBitWidth x) (apValue x * apValue y))"
    and udiv_law: "ap_same x y \<Longrightarrow> apValue y \<noteq> 0 \<Longrightarrow>
      ap_udiv R x y = APInt (getBitWidth x) (apValue x div apValue y)"
    and sdiv_law: "ap_same x y \<Longrightarrow> apValue y \<noteq> 0 \<Longrightarrow>
      ap_sdiv R x y = APInt (getBitWidth x) (take_bit (getBitWidth x) (ap_signed x sdiv ap_signed y))"
    and urem_law: "ap_same x y \<Longrightarrow> apValue y \<noteq> 0 \<Longrightarrow>
      ap_urem R x y = APInt (getBitWidth x) (apValue x mod apValue y)"
    and srem_law: "ap_same x y \<Longrightarrow> apValue y \<noteq> 0 \<Longrightarrow>
      ap_srem R x y = APInt (getBitWidth x) (take_bit (getBitWidth x) (ap_signed x smod ap_signed y))"
    and and_law: "ap_same x y \<Longrightarrow> ap_and R x y = APInt (getBitWidth x) (apValue x AND apValue y)"
    and or_law: "ap_same x y \<Longrightarrow> ap_or R x y = APInt (getBitWidth x) (apValue x OR apValue y)"
    and xor_law: "ap_same x y \<Longrightarrow> ap_xor R x y = APInt (getBitWidth x) (apValue x XOR apValue y)"
    and shl_law: "ap_same x y \<Longrightarrow>
      ap_shl R x y = APInt (getBitWidth x)
        (if int (getBitWidth x) \<le> apValue y then 0
         else take_bit (getBitWidth x) (push_bit (nat (apValue y)) (apValue x)))"
    and lshr_law: "ap_same x y \<Longrightarrow>
      ap_lshr R x y = APInt (getBitWidth x)
        (if int (getBitWidth x) \<le> apValue y then 0 else drop_bit (nat (apValue y)) (apValue x))"
    and ashr_law: "ap_same x y \<Longrightarrow>
      ap_ashr R x y = APInt (getBitWidth x)
        (take_bit (getBitWidth x)
          (drop_bit (nat (min (int (getBitWidth x)) (apValue y))) (ap_signed x)))"
    and neg_law: "ap_wf x \<Longrightarrow> ap_neg R x = APInt (getBitWidth x) (take_bit (getBitWidth x) (- apValue x))"
    and not_law: "ap_wf x \<Longrightarrow> ap_not R x = APInt (getBitWidth x) (take_bit (getBitWidth x) (NOT (apValue x)))"
    and shl_by_law: "ap_wf x \<Longrightarrow> n \<le> getBitWidth x \<Longrightarrow>
      ap_shl_by R x n = APInt (getBitWidth x) (take_bit (getBitWidth x) (push_bit n (apValue x)))"
    and ashr_by_law: "ap_wf x \<Longrightarrow> n \<le> getBitWidth x \<Longrightarrow>
      ap_ashr_by R x n = APInt (getBitWidth x) (take_bit (getBitWidth x) (drop_bit n (ap_signed x)))"
    and zextOrTrunc_law: "ap_wf x \<Longrightarrow> 0 < w \<Longrightarrow> ap_zextOrTrunc R x w = APInt w (take_bit w (apValue x))"
    and sextOrTrunc_law: "ap_wf x \<Longrightarrow> 0 < w \<Longrightarrow> ap_sextOrTrunc R x w = APInt w (take_bit w (ap_signed x))"
    and ult_law: "ap_same x y \<Longrightarrow> ap_ult R x y \<longleftrightarrow> apValue x < apValue y"
    and slt_law: "ap_same x y \<Longrightarrow> ap_slt R x y \<longleftrightarrow> ap_signed x < ap_signed y"
begin

lemmas ap_arith_laws = add_law sub_law mul_law neg_law
lemmas ap_div_laws = udiv_law sdiv_law urem_law srem_law
lemmas ap_bit_laws = and_law or_law xor_law not_law shl_law lshr_law ashr_law shl_by_law ashr_by_law
lemmas ap_ext_laws = of_law zextOrTrunc_law sextOrTrunc_law
lemmas ap_laws = ap_arith_laws ap_div_laws ap_bit_laws ap_ext_laws ult_law slt_law

end

section \<open>The reference arithmetic\<close>

definition apint_ref :: apint_ops where
  "apint_ref = \<lparr>
     ap_of = (\<lambda>w v. APInt w (take_bit w (uint v))),
     ap_add = (\<lambda>x y. APInt (getBitWidth x) (take_bit (getBitWidth x) (apValue x + apValue y))),
     ap_sub = (\<lambda>x y. APInt (getBitWidth x) (take_bit (getBitWidth x) (apValue x - apValue y))),
     ap_mul = (\<lambda>x y. APInt (getBitWidth x) (take_bit (getBitWidth x) (apValue x * apValue y))),
     ap_udiv = (\<lambda>x y. APInt (getBitWidth x) (apValue x div apValue y)),
     ap_sdiv = (\<lambda>x y. APInt (getBitWidth x) (take_bit (getBitWidth x) (ap_signed x sdiv ap_signed y))),
     ap_urem = (\<lambda>x y. APInt (getBitWidth x) (apValue x mod apValue y)),
     ap_srem = (\<lambda>x y. APInt (getBitWidth x) (take_bit (getBitWidth x) (ap_signed x smod ap_signed y))),
     ap_and = (\<lambda>x y. APInt (getBitWidth x) (apValue x AND apValue y)),
     ap_or = (\<lambda>x y. APInt (getBitWidth x) (apValue x OR apValue y)),
     ap_xor = (\<lambda>x y. APInt (getBitWidth x) (apValue x XOR apValue y)),
     ap_shl = (\<lambda>x y. APInt (getBitWidth x)
        (if int (getBitWidth x) \<le> apValue y then 0
         else take_bit (getBitWidth x) (push_bit (nat (apValue y)) (apValue x)))),
     ap_lshr = (\<lambda>x y. APInt (getBitWidth x)
        (if int (getBitWidth x) \<le> apValue y then 0 else drop_bit (nat (apValue y)) (apValue x))),
     ap_ashr = (\<lambda>x y. APInt (getBitWidth x)
        (take_bit (getBitWidth x)
          (drop_bit (nat (min (int (getBitWidth x)) (apValue y))) (ap_signed x)))),
     ap_neg = (\<lambda>x. APInt (getBitWidth x) (take_bit (getBitWidth x) (- apValue x))),
     ap_not = (\<lambda>x. APInt (getBitWidth x) (take_bit (getBitWidth x) (NOT (apValue x)))),
     ap_shl_by = (\<lambda>x n. APInt (getBitWidth x) (take_bit (getBitWidth x) (push_bit n (apValue x)))),
     ap_ashr_by = (\<lambda>x n. APInt (getBitWidth x) (take_bit (getBitWidth x) (drop_bit n (ap_signed x)))),
     ap_zextOrTrunc = (\<lambda>x w. APInt w (take_bit w (apValue x))),
     ap_sextOrTrunc = (\<lambda>x w. APInt w (take_bit w (ap_signed x))),
     ap_ult = (\<lambda>x y. apValue x < apValue y),
     ap_slt = (\<lambda>x y. ap_signed x < ap_signed y),
     ap_hash = (\<lambda>x. word_of_int (apValue x)) \<rparr>"

interpretation apref: apint_laws apint_ref
  by unfold_locales (simp_all add: apint_ref_def)

end
