(* ===== verification/ExprCore.thy ===== *)
theory ExprCore
  imports APInt
begin

text \<open>
  KLEE's symbolic expressions: the classes of \<^verbatim>\<open>src/klee/include/klee/Expr.h\<close>, their widths, kinds
  and kids, the predicates on constants, and the meaning of an expression under an assignment of
  bytes to arrays. The nodes are the constructors of one datatype. The classes that the macros
  \<^verbatim>\<open>ARITHMETIC_EXPR_CLASS\<close>, \<^verbatim>\<open>COMPARISON_EXPR_CLASS\<close> and \<^verbatim>\<open>CAST_EXPR_CLASS\<close> stamp out differ in
  their kind alone, so \<^verbatim>\<open>BinaryExpr\<close> and \<^verbatim>\<open>CastExpr\<close> carry the kind as a field.
\<close>

section \<open>Kinds and widths\<close>

type_synonym width = nat

abbreviation Bool :: width where "Bool \<equiv> 1"
abbreviation Int8 :: width where "Int8 \<equiv> 8"
abbreviation Int16 :: width where "Int16 \<equiv> 16"
abbreviation Int32 :: width where "Int32 \<equiv> 32"
abbreviation Int64 :: width where "Int64 \<equiv> 64"

datatype ckind = ZExt | SExt

datatype bkind =
  Add | Sub | Mul | UDiv | SDiv | URem | SRem | And | Or | Xor | Shl | LShr | AShr
  | Eq | Ne | Ult | Ule | Ugt | Uge | Slt | Sle | Sgt | Sge

datatype kind =
  Constant | NotOptimized | Read | Select | Concat | Extract | CastKind ckind | NotKind | BinaryKind bkind

text \<open>The numbers the enumeration \<^verbatim>\<open>Expr::Kind\<close> gives; \<^verbatim>\<open>Not\<close> stands between \<^verbatim>\<open>SRem\<close> and \<^verbatim>\<open>And\<close>.\<close>

fun bkind_number :: "bkind \<Rightarrow> nat" where
  "bkind_number Add = 9" | "bkind_number Sub = 10" | "bkind_number Mul = 11"
| "bkind_number UDiv = 12" | "bkind_number SDiv = 13" | "bkind_number URem = 14"
| "bkind_number SRem = 15" | "bkind_number And = 17" | "bkind_number Or = 18"
| "bkind_number Xor = 19" | "bkind_number Shl = 20" | "bkind_number LShr = 21"
| "bkind_number AShr = 22" | "bkind_number Eq = 23" | "bkind_number Ne = 24"
| "bkind_number Ult = 25" | "bkind_number Ule = 26" | "bkind_number Ugt = 27"
| "bkind_number Uge = 28" | "bkind_number Slt = 29" | "bkind_number Sle = 30"
| "bkind_number Sgt = 31" | "bkind_number Sge = 32"

fun kind_number :: "kind \<Rightarrow> nat" where
  "kind_number Constant = 0" | "kind_number NotOptimized = 1" | "kind_number Read = 3"
| "kind_number Select = 4" | "kind_number Concat = 5" | "kind_number Extract = 6"
| "kind_number (CastKind ZExt) = 7" | "kind_number (CastKind SExt) = 8"
| "kind_number NotKind = 16" | "kind_number (BinaryKind k) = bkind_number k"

definition is_cmp :: "bkind \<Rightarrow> bool" where
  "is_cmp k \<longleftrightarrow> bkind_number Eq \<le> bkind_number k \<and> bkind_number k \<le> bkind_number Sge"

lemma is_cmp_simps [simp]:
  "\<not> is_cmp Add" "\<not> is_cmp Sub" "\<not> is_cmp Mul" "\<not> is_cmp UDiv" "\<not> is_cmp SDiv" "\<not> is_cmp URem"
  "\<not> is_cmp SRem" "\<not> is_cmp And" "\<not> is_cmp Or" "\<not> is_cmp Xor" "\<not> is_cmp Shl" "\<not> is_cmp LShr"
  "\<not> is_cmp AShr" "is_cmp Eq" "is_cmp Ne" "is_cmp Ult" "is_cmp Ule" "is_cmp Ugt" "is_cmp Uge"
  "is_cmp Slt" "is_cmp Sle" "is_cmp Sgt" "is_cmp Sge"
  by (simp_all add: is_cmp_def)

section \<open>Arrays, update lists and expressions\<close>

text \<open>
  An \<^verbatim>\<open>Array\<close> object is compared by its address, so the record has a field for it. An update list
  is its root array and the chain of its update nodes, the most recent one first.
\<close>

record klee_array =
  arr_addr :: nat
  arr_name :: string
  arr_size :: nat
  constantValues :: "apint list"

definition isSymbolicArray :: "klee_array \<Rightarrow> bool" where
  "isSymbolicArray a \<longleftrightarrow> constantValues a = []"

definition isConstantArray :: "klee_array \<Rightarrow> bool" where
  "isConstantArray a \<longleftrightarrow> \<not> isSymbolicArray a"

datatype expr =
    ConstantExpr apint
  | NotOptimizedExpr expr
  | ReadExpr klee_array update_node expr
  | SelectExpr expr expr expr
  | ConcatExpr expr expr
  | ExtractExpr expr nat width
  | NotExpr expr
  | CastExpr ckind expr width
  | BinaryExpr bkind expr expr
and update_node =
    NoUpdate
  | UpdateNode expr expr update_node

abbreviation "ZExtExpr \<equiv> CastExpr ZExt"
abbreviation "SExtExpr \<equiv> CastExpr SExt"
abbreviation "AddExpr \<equiv> BinaryExpr Add"
abbreviation "SubExpr \<equiv> BinaryExpr Sub"
abbreviation "MulExpr \<equiv> BinaryExpr Mul"
abbreviation "UDivExpr \<equiv> BinaryExpr UDiv"
abbreviation "SDivExpr \<equiv> BinaryExpr SDiv"
abbreviation "URemExpr \<equiv> BinaryExpr URem"
abbreviation "SRemExpr \<equiv> BinaryExpr SRem"
abbreviation "AndExpr \<equiv> BinaryExpr And"
abbreviation "OrExpr \<equiv> BinaryExpr Or"
abbreviation "XorExpr \<equiv> BinaryExpr Xor"
abbreviation "ShlExpr \<equiv> BinaryExpr Shl"
abbreviation "LShrExpr \<equiv> BinaryExpr LShr"
abbreviation "AShrExpr \<equiv> BinaryExpr AShr"
abbreviation "EqExpr \<equiv> BinaryExpr Eq"
abbreviation "NeExpr \<equiv> BinaryExpr Ne"
abbreviation "UltExpr \<equiv> BinaryExpr Ult"
abbreviation "UleExpr \<equiv> BinaryExpr Ule"
abbreviation "SltExpr \<equiv> BinaryExpr Slt"
abbreviation "SleExpr \<equiv> BinaryExpr Sle"

text \<open>\<^verbatim>\<open>UpdateList::getSize\<close>: each node caches one more than the size of its tail.\<close>

primrec update_size :: "update_node \<Rightarrow> nat" where
  "update_size NoUpdate = 0"
| "update_size (UpdateNode i v n) = 1 + update_size n"

primrec getKind :: "expr \<Rightarrow> kind" where
  "getKind (ConstantExpr c) = Constant"
| "getKind (NotOptimizedExpr e) = NotOptimized"
| "getKind (ReadExpr a u i) = Read"
| "getKind (SelectExpr c t f) = Select"
| "getKind (ConcatExpr l r) = Concat"
| "getKind (ExtractExpr e off w) = Extract"
| "getKind (NotExpr e) = NotKind"
| "getKind (CastExpr k e w) = CastKind k"
| "getKind (BinaryExpr k l r) = BinaryKind k"

primrec getWidth :: "expr \<Rightarrow> width" where
  "getWidth (ConstantExpr c) = getBitWidth c"
| "getWidth (NotOptimizedExpr e) = getWidth e"
| "getWidth (ReadExpr a u i) = Int8"
| "getWidth (SelectExpr c t f) = getWidth t"
| "getWidth (ConcatExpr l r) = getWidth l + getWidth r"
| "getWidth (ExtractExpr e off w) = w"
| "getWidth (NotExpr e) = getWidth e"
| "getWidth (CastExpr k e w) = w"
| "getWidth (BinaryExpr k l r) = (if is_cmp k then Bool else getWidth l)"

primrec kids :: "expr \<Rightarrow> expr list" where
  "kids (ConstantExpr c) = []"
| "kids (NotOptimizedExpr e) = [e]"
| "kids (ReadExpr a u i) = [i]"
| "kids (SelectExpr c t f) = [c, t, f]"
| "kids (ConcatExpr l r) = [l, r]"
| "kids (ExtractExpr e off w) = [e]"
| "kids (NotExpr e) = [e]"
| "kids (CastExpr k e w) = [e]"
| "kids (BinaryExpr k l r) = [l, r]"

definition getNumKids :: "expr \<Rightarrow> nat" where
  "getNumKids e = length (kids e)"

text \<open>The \<^verbatim>\<open>classof\<close> tests that dispatch on the kind's number.\<close>

definition BinaryExpr_classof :: "expr \<Rightarrow> bool" where
  "BinaryExpr_classof e \<longleftrightarrow>
     kind_number (BinaryKind Add) \<le> kind_number (getKind e)
     \<and> kind_number (getKind e) \<le> kind_number (BinaryKind Sge)"

definition CmpExpr_classof :: "expr \<Rightarrow> bool" where
  "CmpExpr_classof e \<longleftrightarrow>
     kind_number (BinaryKind Eq) \<le> kind_number (getKind e)
     \<and> kind_number (getKind e) \<le> kind_number (BinaryKind Sge)"

definition CastExpr_classof :: "expr \<Rightarrow> bool" where
  "CastExpr_classof e \<longleftrightarrow>
     kind_number (CastKind ZExt) \<le> kind_number (getKind e)
     \<and> kind_number (getKind e) \<le> kind_number (CastKind SExt)"

text \<open>
  \<^verbatim>\<open>Not\<close> is numbered between the first and the last binary kind, so \<^verbatim>\<open>BinaryExpr::classof\<close> accepts a
  node that has one kid.
\<close>

lemma not_is_binary: "BinaryExpr_classof (NotExpr e) \<and> getNumKids (NotExpr e) = 1"
  by (simp add: BinaryExpr_classof_def getNumKids_def)

fun is_constant :: "expr \<Rightarrow> bool" where
  "is_constant (ConstantExpr c) = True"
| "is_constant e = False"

lemma is_constant_iff: "is_constant e \<longleftrightarrow> (\<exists>c. e = ConstantExpr c)"
  by (cases e) auto

text \<open>\<^verbatim>\<open>dyn_cast<C>(e)\<close> for the classes the code tests for: the fields, or nothing.\<close>

fun dyn_cast_Constant :: "expr \<Rightarrow> apint option" where
  "dyn_cast_Constant (ConstantExpr c) = Some c"
| "dyn_cast_Constant _ = None"

fun dyn_cast_Select :: "expr \<Rightarrow> (expr \<times> expr \<times> expr) option" where
  "dyn_cast_Select (SelectExpr c t f) = Some (c, t, f)"
| "dyn_cast_Select _ = None"

fun dyn_cast_Extract :: "expr \<Rightarrow> (expr \<times> nat \<times> width) option" where
  "dyn_cast_Extract (ExtractExpr e off w) = Some (e, off, w)"
| "dyn_cast_Extract _ = None"

fun dyn_cast_Binary :: "bkind \<Rightarrow> expr \<Rightarrow> (expr \<times> expr) option" where
  "dyn_cast_Binary k (BinaryExpr k' l r) = (if k = k' then Some (l, r) else None)"
| "dyn_cast_Binary k _ = None"

lemma dyn_cast_simps [simp]:
  "dyn_cast_Constant e = Some c \<longleftrightarrow> e = ConstantExpr c"
  "dyn_cast_Select e = Some s \<longleftrightarrow> e = SelectExpr (fst s) (fst (snd s)) (snd (snd s))"
  "dyn_cast_Extract e = Some x \<longleftrightarrow> e = ExtractExpr (fst x) (fst (snd x)) (snd (snd x))"
  "dyn_cast_Binary k e = Some b \<longleftrightarrow> e = BinaryExpr k (fst b) (snd b)"
  by (cases e; auto)+

section \<open>Predicates on constants\<close>

text \<open>
  \<^verbatim>\<open>bits64::truncateToNBits\<close> and \<^verbatim>\<open>maxValueOfNBits\<close> shift an all-ones word right by \<^verbatim>\<open>64 - N\<close>: a
  shift by 64 or more is undefined in C++, so \<^verbatim>\<open>N\<close> must be from 1 to 64 (0 is special-cased by
  \<^verbatim>\<open>maxValueOfNBits\<close> alone).
\<close>

definition truncateToNBits :: "64 word \<Rightarrow> nat \<Rightarrow> 64 word option" where
  "truncateToNBits x N =
     (if 0 < N \<and> N \<le> 64 then Some (x AND drop_bit (64 - N) (- 1)) else None)"

definition maxValueOfNBits :: "nat \<Rightarrow> 64 word option" where
  "maxValueOfNBits N =
     (if N = 0 then Some 0 else if N \<le> 64 then Some (drop_bit (64 - N) (- 1)) else None)"

text \<open>\<^verbatim>\<open>APInt::getZExtValue\<close> yields the value as a \<^verbatim>\<open>uint64_t\<close>, for at most 64 active bits.\<close>

definition ap_getZExtValue :: "apint \<Rightarrow> 64 word option" where
  "ap_getZExtValue c = (if apValue c < 2 ^ 64 then Some (word_of_int (apValue c)) else None)"

definition ConstantExpr_getZExtValue :: "apint \<Rightarrow> nat \<Rightarrow> 64 word option" where
  "ConstantExpr_getZExtValue c bits = do { require (getBitWidth c \<le> bits); ap_getZExtValue c }"

definition ConstantExpr_isZero :: "apint \<Rightarrow> bool option" where
  "ConstantExpr_isZero c = do { v \<leftarrow> ConstantExpr_getZExtValue c 64; Some (v = 0) }"

definition ConstantExpr_isOne :: "apint \<Rightarrow> bool option" where
  "ConstantExpr_isOne c = do { v \<leftarrow> ConstantExpr_getZExtValue c 64; Some (v = 1) }"

definition ConstantExpr_isTrue :: "apint \<Rightarrow> bool option" where
  "ConstantExpr_isTrue c = do { v \<leftarrow> ConstantExpr_getZExtValue c 1; Some (v = 1) }"

definition ConstantExpr_isFalse :: "apint \<Rightarrow> bool option" where
  "ConstantExpr_isFalse c = do { v \<leftarrow> ConstantExpr_getZExtValue c 1; Some (v = 0) }"

definition ConstantExpr_isAllOnes :: "apint \<Rightarrow> bool option" where
  "ConstantExpr_isAllOnes c =
     do { v \<leftarrow> ConstantExpr_getZExtValue c (getBitWidth c);
          m \<leftarrow> maxValueOfNBits (getBitWidth c);
          Some (v = m) }"

fun Expr_isZero :: "expr \<Rightarrow> bool option" where
  "Expr_isZero (ConstantExpr c) = ConstantExpr_isZero c"
| "Expr_isZero e = Some False"

fun Expr_isTrue :: "expr \<Rightarrow> bool option" where
  "Expr_isTrue e =
     do { require (getWidth e = Bool);
          case e of ConstantExpr c \<Rightarrow> ConstantExpr_isTrue c | _ \<Rightarrow> Some False }"

fun Expr_isFalse :: "expr \<Rightarrow> bool option" where
  "Expr_isFalse e =
     do { require (getWidth e = Bool);
          case e of ConstantExpr c \<Rightarrow> ConstantExpr_isFalse c | _ \<Rightarrow> Some False }"

fun isIsZeroOf :: "expr \<Rightarrow> expr \<Rightarrow> bool option" where
  "isIsZeroOf (BinaryExpr Eq l r) e = do { z \<leftarrow> Expr_isZero l; Some (z \<and> r = e) }"
| "isIsZeroOf _ e = Some False"

definition isNegationOf :: "expr \<Rightarrow> expr \<Rightarrow> bool option" where
  "isNegationOf this e =
     do { b \<leftarrow> isIsZeroOf this e; if b then Some True else isIsZeroOf e this }"

text \<open>\<^verbatim>\<open>SelectExpr::isConstantCases\<close> and \<^verbatim>\<open>hasConstantCases\<close>; both are methods of a select.\<close>

fun isConstantCases :: "expr \<Rightarrow> bool" where
  "isConstantCases (SelectExpr c t f) =
     ((case t of SelectExpr _ _ _ \<Rightarrow> isConstantCases t | _ \<Rightarrow> is_constant t)
      \<and> (case f of SelectExpr _ _ _ \<Rightarrow> isConstantCases f | _ \<Rightarrow> is_constant f))"
| "isConstantCases _ = False"

fun hasConstantCases :: "expr \<Rightarrow> bool" where
  "hasConstantCases (SelectExpr c t f) =
     (is_constant t \<or> is_constant f \<or> hasConstantCases t \<or> hasConstantCases f)"
| "hasConstantCases _ = False"

section \<open>Well-typed expressions\<close>

text \<open>
  What the assertions of the constructors and of \<^verbatim>\<open>create\<close> ask of an expression: operands of equal
  width, a boolean condition, an extract within its operand, 32-bit indices and 8-bit values.
\<close>

definition array_ok :: "klee_array \<Rightarrow> bool" where
  "array_ok a \<longleftrightarrow>
     arr_size a < 2 ^ 32 \<and> (constantValues a = [] \<or> length (constantValues a) = arr_size a)
     \<and> (\<forall>c \<in> set (constantValues a). ap_wf c \<and> getBitWidth c = Int8)"

primrec wt :: "expr \<Rightarrow> bool" and wt_updates :: "update_node \<Rightarrow> bool" where
  "wt (ConstantExpr c) = ap_wf c"
| "wt (NotOptimizedExpr e) = wt e"
| "wt (ReadExpr a u i) = (array_ok a \<and> wt_updates u \<and> wt i \<and> getWidth i = Int32)"
| "wt (SelectExpr c t f) = (wt c \<and> getWidth c = Bool \<and> wt t \<and> wt f \<and> getWidth t = getWidth f)"
| "wt (ConcatExpr l r) = (wt l \<and> wt r)"
| "wt (ExtractExpr e off w) = (wt e \<and> 0 < w \<and> off + w \<le> getWidth e)"
| "wt (NotExpr e) = wt e"
| "wt (CastExpr k e w) = (wt e \<and> getWidth e \<le> w)"
| "wt (BinaryExpr k l r) = (wt l \<and> wt r \<and> getWidth l = getWidth r)"
| "wt_updates NoUpdate = True"
| "wt_updates (UpdateNode i v n) =
     (wt i \<and> getWidth i = Int32 \<and> wt v \<and> getWidth v = Int8 \<and> wt_updates n)"

text \<open>No subexpression is wider than 64 bits, the limit of \<^verbatim>\<open>ConstantExpr::getZExtValue\<close>.\<close>

primrec narrow :: "expr \<Rightarrow> bool" and narrow_updates :: "update_node \<Rightarrow> bool" where
  "narrow (ConstantExpr c) = (getBitWidth c \<le> 64)"
| "narrow (NotOptimizedExpr e) = narrow e"
| "narrow (ReadExpr a u i) = (narrow_updates u \<and> narrow i)"
| "narrow (SelectExpr c t f) = (narrow c \<and> narrow t \<and> narrow f)"
| "narrow (ConcatExpr l r) = (narrow l \<and> narrow r \<and> getWidth l + getWidth r \<le> 64)"
| "narrow (ExtractExpr e off w) = (narrow e \<and> w \<le> 64)"
| "narrow (NotExpr e) = narrow e"
| "narrow (CastExpr k e w) = (narrow e \<and> w \<le> 64)"
| "narrow (BinaryExpr k l r) = (narrow l \<and> narrow r)"
| "narrow_updates NoUpdate = True"
| "narrow_updates (UpdateNode i v n) = (narrow i \<and> narrow v \<and> narrow_updates n)"

lemma wt_width_pos [simp]: "wt e \<Longrightarrow> 0 < getWidth e"
  by (induction e rule: expr.induct [where ?P2.0 = "\<lambda>_. True"]) (auto simp: ap_wf_def)

lemma narrow_width: "narrow e \<Longrightarrow> getWidth e \<le> 64"
  by (induction e rule: expr.induct [where ?P2.0 = "\<lambda>_. True"]) auto

section \<open>The meaning of an expression\<close>

text \<open>
  An assignment gives every array its initial bytes. A constant array has the values it was
  built with; a read past its end is not constrained and yields what the assignment says.
\<close>

type_synonym assignment = "klee_array \<Rightarrow> nat \<Rightarrow> int"

definition initial_value :: "assignment \<Rightarrow> klee_array \<Rightarrow> int \<Rightarrow> int" where
  "initial_value \<sigma> a i =
     (if isConstantArray a \<and> nat i < arr_size a then apValue (constantValues a ! nat i)
      else take_bit Int8 (\<sigma> a (nat i)))"

fun eval_binary :: "bkind \<Rightarrow> width \<Rightarrow> int \<Rightarrow> int \<Rightarrow> int" where
  "eval_binary Add w a b = take_bit w (a + b)"
| "eval_binary Sub w a b = take_bit w (a - b)"
| "eval_binary Mul w a b = take_bit w (a * b)"
| "eval_binary UDiv w a b = a div b"
| "eval_binary SDiv w a b = take_bit w (sbv w a sdiv sbv w b)"
| "eval_binary URem w a b = a mod b"
| "eval_binary SRem w a b = take_bit w (sbv w a smod sbv w b)"
| "eval_binary And w a b = a AND b"
| "eval_binary Or w a b = a OR b"
| "eval_binary Xor w a b = a XOR b"
| "eval_binary Shl w a b = (if int w \<le> b then 0 else take_bit w (push_bit (nat b) a))"
| "eval_binary LShr w a b = (if int w \<le> b then 0 else drop_bit (nat b) a)"
| "eval_binary AShr w a b = take_bit w (drop_bit (nat (min (int w) b)) (sbv w a))"
| "eval_binary Eq w a b = of_bool (a = b)"
| "eval_binary Ne w a b = of_bool (a \<noteq> b)"
| "eval_binary Ult w a b = of_bool (a < b)"
| "eval_binary Ule w a b = of_bool (a \<le> b)"
| "eval_binary Ugt w a b = of_bool (b < a)"
| "eval_binary Uge w a b = of_bool (b \<le> a)"
| "eval_binary Slt w a b = of_bool (sbv w a < sbv w b)"
| "eval_binary Sle w a b = of_bool (sbv w a \<le> sbv w b)"
| "eval_binary Sgt w a b = of_bool (sbv w b < sbv w a)"
| "eval_binary Sge w a b = of_bool (sbv w b \<le> sbv w a)"

primrec eval :: "assignment \<Rightarrow> expr \<Rightarrow> int"
  and eval_updates :: "assignment \<Rightarrow> update_node \<Rightarrow> klee_array \<Rightarrow> int \<Rightarrow> int" where
  "eval \<sigma> (ConstantExpr c) = apValue c"
| "eval \<sigma> (NotOptimizedExpr e) = eval \<sigma> e"
| "eval \<sigma> (ReadExpr a u i) = eval_updates \<sigma> u a (eval \<sigma> i)"
| "eval \<sigma> (SelectExpr c t f) = (if eval \<sigma> c \<noteq> 0 then eval \<sigma> t else eval \<sigma> f)"
| "eval \<sigma> (ConcatExpr l r) = push_bit (getWidth r) (eval \<sigma> l) OR eval \<sigma> r"
| "eval \<sigma> (ExtractExpr e off w) = take_bit w (drop_bit off (eval \<sigma> e))"
| "eval \<sigma> (NotExpr e) = take_bit (getWidth e) (NOT (eval \<sigma> e))"
| "eval \<sigma> (CastExpr k e w) =
     (case k of ZExt \<Rightarrow> take_bit w (eval \<sigma> e) | SExt \<Rightarrow> take_bit w (sbv (getWidth e) (eval \<sigma> e)))"
| "eval \<sigma> (BinaryExpr k l r) = eval_binary k (getWidth l) (eval \<sigma> l) (eval \<sigma> r)"
| "eval_updates \<sigma> NoUpdate a i = initial_value \<sigma> a i"
| "eval_updates \<sigma> (UpdateNode ix v n) a i =
     (if eval \<sigma> ix = i then eval \<sigma> v else eval_updates \<sigma> n a i)"

text \<open>
  A constant array is only ever read inside its bounds: what KLEE's bounds checks establish, and
  what \<^verbatim>\<open>TryConstArrayOpt\<close> relies on.
\<close>

primrec in_bounds :: "assignment \<Rightarrow> expr \<Rightarrow> bool"
  and in_bounds_updates :: "assignment \<Rightarrow> update_node \<Rightarrow> bool" where
  "in_bounds \<sigma> (ConstantExpr c) = True"
| "in_bounds \<sigma> (NotOptimizedExpr e) = in_bounds \<sigma> e"
| "in_bounds \<sigma> (ReadExpr a u i) =
     (in_bounds_updates \<sigma> u \<and> in_bounds \<sigma> i
      \<and> (isConstantArray a \<longrightarrow> nat (eval \<sigma> i) < arr_size a))"
| "in_bounds \<sigma> (SelectExpr c t f) = (in_bounds \<sigma> c \<and> in_bounds \<sigma> t \<and> in_bounds \<sigma> f)"
| "in_bounds \<sigma> (ConcatExpr l r) = (in_bounds \<sigma> l \<and> in_bounds \<sigma> r)"
| "in_bounds \<sigma> (ExtractExpr e off w) = in_bounds \<sigma> e"
| "in_bounds \<sigma> (NotExpr e) = in_bounds \<sigma> e"
| "in_bounds \<sigma> (CastExpr k e w) = in_bounds \<sigma> e"
| "in_bounds \<sigma> (BinaryExpr k l r) = (in_bounds \<sigma> l \<and> in_bounds \<sigma> r)"
| "in_bounds_updates \<sigma> NoUpdate = True"
| "in_bounds_updates \<sigma> (UpdateNode i v n) =
     (in_bounds \<sigma> i \<and> in_bounds \<sigma> v \<and> in_bounds_updates \<sigma> n)"

lemma initial_value_bv: "array_ok a \<Longrightarrow> bv Int8 (initial_value \<sigma> a i)"
  unfolding initial_value_def isConstantArray_def isSymbolicArray_def array_ok_def ap_wf_def
  by (auto dest!: bspec [OF _ nth_mem [of "nat i"]])

lemma bv_div: "bv w a \<Longrightarrow> 0 \<le> b \<Longrightarrow> bv w (a div b)"
  using zdiv_mono2 [of a 1 b]
  by (cases "b = 0") (auto simp: bv_def pos_imp_zdiv_nonneg_iff)

lemma bv_mod: "bv w a \<Longrightarrow> 0 \<le> b \<Longrightarrow> bv w (a mod b)"
  using zmod_le_nonneg_dividend [of a b]
  by (cases "b = 0") (auto simp: bv_def)

lemma eval_binary_bv:
  assumes "bv w a" "bv w b"
  shows "bv (if is_cmp k then Bool else w) (eval_binary k w a b)"
  using assms by (cases k) (simp_all add: bv_div bv_mod bv_nonneg)

lemma bv_concat:
  assumes "bv v a" "bv w b"
  shows "bv (v + w) (push_bit w a OR b)"
proof -
  have "take_bit (v + w) (push_bit w a OR b) = push_bit w a OR b"
    using assms [unfolded bv_iff_take_bit] bv_mono [OF assms(2), of "v + w", unfolded bv_iff_take_bit]
    by (simp add: take_bit_push_bit)
  then show ?thesis by (simp add: bv_iff_take_bit)
qed

lemma eval_bv_all:
  shows eval_bv: "wt e \<Longrightarrow> bv (getWidth e) (eval \<sigma> e)"
    and eval_updates_bv: "wt_updates u \<Longrightarrow> array_ok a \<Longrightarrow> bv Int8 (eval_updates \<sigma> u a i)"
proof (induction e and u arbitrary: and a i)
  case (BinaryExpr k l r)
  then show ?case using eval_binary_bv [of "getWidth l" _ _ k] by simp
qed (auto simp: ap_wf_def initial_value_bv bv_concat split: ckind.splits)

lemma eval_nonneg [simp]: "wt e \<Longrightarrow> 0 \<le> eval \<sigma> e"
  using eval_bv bv_nonneg by blast

lemma eval_take_bit [simp]: "wt e \<Longrightarrow> take_bit (getWidth e) (eval \<sigma> e) = eval \<sigma> e"
  by (simp add: eval_bv take_bit_bv)

lemma eval_Bool_cases:
  assumes "wt e" "getWidth e = Bool"
  obtains "eval \<sigma> e = 0" | "eval \<sigma> e = 1"
  using eval_bv [OF assms(1), of \<sigma>] assms(2) by (auto simp: bv_Suc_0_iff)

end
