(* ===== verification/ExprConst.thy ===== *)
theory ExprConst
  imports ExprCore
begin

text \<open>
  Operations on constants: the methods of \<^verbatim>\<open>ConstantExpr\<close> in \<^verbatim>\<open>src/klee/lib/Expr/Expr.cpp\<close>, each
  the APInt operation the source calls, and their values.

  The surroundings of the expression library are one record: the APInt operations, whether two
  \<^verbatim>\<open>Expr*\<close> or two \<^verbatim>\<open>UpdateNode*\<close> point to one object (\<^verbatim>\<open>XorExpr_create\<close>, \<^verbatim>\<open>Expr::compare\<close> and
  \<^verbatim>\<open>UpdateList::compare\<close> compare pointers), and the command line option \<^verbatim>\<open>-const-array-opt\<close>.
\<close>

record klee_rt = apint_ops +
  same_object :: "expr \<Rightarrow> expr \<Rightarrow> bool"
  same_node :: "update_node \<Rightarrow> update_node \<Rightarrow> bool"
  ConstArrayOpt :: bool

locale klee_rt_laws = apint_laws R for R :: klee_rt +
  assumes same_object_eq: "same_object R a b \<Longrightarrow> a = b"
    and same_node_eq: "same_node R m n \<Longrightarrow> m = n"

definition klee_rt_ref :: klee_rt where
  "klee_rt_ref = apint_ops.extend apint_ref \<lparr> same_object = (\<lambda>a b. a = b), same_node = (\<lambda>m n. m = n), ConstArrayOpt = True \<rparr>"

section \<open>The operations\<close>

definition ConstantExpr_alloc :: "klee_rt \<Rightarrow> 64 word \<Rightarrow> width \<Rightarrow> apint" where
  "ConstantExpr_alloc R v w = ap_of R w v"

definition ConstantExpr_create :: "klee_rt \<Rightarrow> 64 word \<Rightarrow> width \<Rightarrow> apint option" where
  "ConstantExpr_create R v w =
     do { t \<leftarrow> truncateToNBits v w; require (v = t); Some (ConstantExpr_alloc R v w) }"

definition ConstantExpr_Concat :: "klee_rt \<Rightarrow> apint \<Rightarrow> apint \<Rightarrow> apint" where
  "ConstantExpr_Concat R this RHS =
     (let W = getBitWidth this + getBitWidth RHS;
          Tmp = ap_zextOrTrunc R this W;
          Tmp = ap_shl_by R Tmp (getBitWidth RHS)
      in ap_or R Tmp (ap_zextOrTrunc R RHS W))"

definition ConstantExpr_Extract :: "klee_rt \<Rightarrow> apint \<Rightarrow> nat \<Rightarrow> width \<Rightarrow> apint" where
  "ConstantExpr_Extract R this Offset W = ap_zextOrTrunc R (ap_ashr_by R this Offset) W"

definition ConstantExpr_ZExt :: "klee_rt \<Rightarrow> apint \<Rightarrow> width \<Rightarrow> apint" where
  "ConstantExpr_ZExt R this W = ap_zextOrTrunc R this W"

definition ConstantExpr_SExt :: "klee_rt \<Rightarrow> apint \<Rightarrow> width \<Rightarrow> apint" where
  "ConstantExpr_SExt R this W = ap_sextOrTrunc R this W"

definition ConstantExpr_Neg :: "klee_rt \<Rightarrow> apint \<Rightarrow> apint" where
  "ConstantExpr_Neg R this = ap_neg R this"

definition ConstantExpr_Not :: "klee_rt \<Rightarrow> apint \<Rightarrow> apint" where
  "ConstantExpr_Not R this = ap_not R this"

text \<open>
  The binary methods \<^verbatim>\<open>Add\<close> to \<^verbatim>\<open>Sge\<close>, indexed by their kind as the \<^verbatim>\<open>BCREATE\<close> and \<^verbatim>\<open>CMPCREATE\<close> macros
  select them by name.
\<close>

fun ConstantExpr_binop :: "klee_rt \<Rightarrow> bkind \<Rightarrow> apint \<Rightarrow> apint \<Rightarrow> apint" where
  "ConstantExpr_binop R Add this RHS = ap_add R this RHS"
| "ConstantExpr_binop R Sub this RHS = ap_sub R this RHS"
| "ConstantExpr_binop R Mul this RHS = ap_mul R this RHS"
| "ConstantExpr_binop R UDiv this RHS = ap_udiv R this RHS"
| "ConstantExpr_binop R SDiv this RHS = ap_sdiv R this RHS"
| "ConstantExpr_binop R URem this RHS = ap_urem R this RHS"
| "ConstantExpr_binop R SRem this RHS = ap_srem R this RHS"
| "ConstantExpr_binop R And this RHS = ap_and R this RHS"
| "ConstantExpr_binop R Or this RHS = ap_or R this RHS"
| "ConstantExpr_binop R Xor this RHS = ap_xor R this RHS"
| "ConstantExpr_binop R Shl this RHS = ap_shl R this RHS"
| "ConstantExpr_binop R LShr this RHS = ap_lshr R this RHS"
| "ConstantExpr_binop R AShr this RHS = ap_ashr R this RHS"
| "ConstantExpr_binop R Eq this RHS = ConstantExpr_alloc R (of_bool (this = RHS)) Bool"
| "ConstantExpr_binop R Ne this RHS = ConstantExpr_alloc R (of_bool (this \<noteq> RHS)) Bool"
| "ConstantExpr_binop R Ult this RHS = ConstantExpr_alloc R (of_bool (ap_ult R this RHS)) Bool"
| "ConstantExpr_binop R Ule this RHS = ConstantExpr_alloc R (of_bool (ap_ule R this RHS)) Bool"
| "ConstantExpr_binop R Ugt this RHS = ConstantExpr_alloc R (of_bool (ap_ugt R this RHS)) Bool"
| "ConstantExpr_binop R Uge this RHS = ConstantExpr_alloc R (of_bool (ap_uge R this RHS)) Bool"
| "ConstantExpr_binop R Slt this RHS = ConstantExpr_alloc R (of_bool (ap_slt R this RHS)) Bool"
| "ConstantExpr_binop R Sle this RHS = ConstantExpr_alloc R (of_bool (ap_sle R this RHS)) Bool"
| "ConstantExpr_binop R Sgt this RHS = ConstantExpr_alloc R (of_bool (ap_sgt R this RHS)) Bool"
| "ConstantExpr_binop R Sge this RHS = ConstantExpr_alloc R (of_bool (ap_sge R this RHS)) Bool"

section \<open>Constants in memory\<close>

text \<open>
  \<^verbatim>\<open>fromMemory\<close> and \<^verbatim>\<open>toMemory\<close> read and write a host integer at an address. The host is
  little-endian (x86), so the integer is its bytes from the least significant one on. Only the
  widths of the \<^verbatim>\<open>switch\<close> are served; a boolean takes a byte.
\<close>

definition bytes_of_width :: "width \<Rightarrow> nat option" where
  "bytes_of_width w =
     (if w = Bool then Some 1 else if w = Int8 then Some 1 else if w = Int16 then Some 2
      else if w = Int32 then Some 4 else if w = Int64 then Some 8 else None)"

primrec load_le :: "8 word list \<Rightarrow> 64 word" where
  "load_le [] = 0"
| "load_le (b # bs) = ucast b OR push_bit 8 (load_le bs)"

primrec store_le :: "nat \<Rightarrow> 64 word \<Rightarrow> 8 word list" where
  "store_le 0 v = []"
| "store_le (Suc n) v = ucast v # store_le n (drop_bit 8 v)"

definition ConstantExpr_fromMemory :: "klee_rt \<Rightarrow> 8 word list \<Rightarrow> width \<Rightarrow> apint option" where
  "ConstantExpr_fromMemory R mem w =
     do { n \<leftarrow> bytes_of_width w; require (n \<le> length mem);
          ConstantExpr_create R (load_le (take n mem)) w }"

definition ConstantExpr_toMemory :: "apint \<Rightarrow> 8 word list \<Rightarrow> 8 word list option" where
  "ConstantExpr_toMemory this mem =
     do { n \<leftarrow> bytes_of_width (getBitWidth this); require (n \<le> length mem);
          v \<leftarrow> ConstantExpr_getZExtValue this (getBitWidth this);
          Some (store_le n v @ drop n mem) }"

section \<open>What the predicates on constants say\<close>

lemma getZExtValue_Some:
  assumes "ap_wf c" "ConstantExpr_getZExtValue c n = Some v"
  shows "getBitWidth c \<le> n" "uint v = apValue c"
  using assms
  by (auto simp: ConstantExpr_getZExtValue_def ap_getZExtValue_def ap_wf_def bv_def uint_word_of_int
      take_bit_int_eq_self option_bind_simps split: if_splits)

lemma getZExtValue_Bool:
  "ap_wf c \<Longrightarrow> ConstantExpr_getZExtValue c Bool = Some v \<Longrightarrow> getBitWidth c = Bool"
  using getZExtValue_Some(1) [of c Bool v] ap_wf_pos [of c] by simp

lemma getZExtValue_narrow:
  assumes "ap_wf c" "getBitWidth c \<le> 64" "getBitWidth c \<le> n"
  shows "\<exists>v. ConstantExpr_getZExtValue c n = Some v"
  using bv_mono [of "getBitWidth c" "apValue c" 64] assms
  by (simp add: ConstantExpr_getZExtValue_def ap_getZExtValue_def ap_wf_def bv_def)

lemma drop_bit_minus_1: "w \<le> 64 \<Longrightarrow> drop_bit (64 - w) (- 1 :: 64 word) = mask w"
  by (rule bit_word_eqI) (auto simp: bit_simps)

lemma truncateToNBits_eq:
  "truncateToNBits x N = (if 0 < N \<and> N \<le> 64 then Some (take_bit N x) else None)"
  by (simp add: truncateToNBits_def drop_bit_minus_1 take_bit_eq_mask)

lemma maxValueOfNBits_eq: "maxValueOfNBits N = (if N \<le> 64 then Some (mask N) else None)"
  by (simp add: maxValueOfNBits_def drop_bit_minus_1)

lemma uint_mask_64: "w \<le> 64 \<Longrightarrow> uint (mask w :: 64 word) = 2 ^ w - 1"
  by (simp add: uint_mask_eq min_absorb1) (simp add: mask_eq_exp_minus_1)

lemma ConstantExpr_isZero_iff:
  "ap_wf c \<Longrightarrow> ConstantExpr_isZero c = Some b \<Longrightarrow> b \<longleftrightarrow> apValue c = 0"
  by (auto dest: getZExtValue_Some simp: ConstantExpr_isZero_def option_bind_simps uint_0_iff)

lemma ConstantExpr_isOne_iff:
  "ap_wf c \<Longrightarrow> ConstantExpr_isOne c = Some b \<Longrightarrow> b \<longleftrightarrow> apValue c = 1"
  by (auto dest: getZExtValue_Some simp: ConstantExpr_isOne_def option_bind_simps word_uint_eq_iff)

lemma ConstantExpr_isTrue_iff:
  assumes "ap_wf c" "ConstantExpr_isTrue c = Some b"
  shows "getBitWidth c = Bool" "b \<longleftrightarrow> apValue c = 1"
  using assms by (auto dest: getZExtValue_Some getZExtValue_Bool [simplified] simp: ConstantExpr_isTrue_def option_bind_simps word_uint_eq_iff)

lemma ConstantExpr_isFalse_iff:
  assumes "ap_wf c" "ConstantExpr_isFalse c = Some b"
  shows "getBitWidth c = Bool" "b \<longleftrightarrow> apValue c = 0"
  using assms by (auto dest: getZExtValue_Some getZExtValue_Bool [simplified] simp: ConstantExpr_isFalse_def option_bind_simps word_uint_eq_iff)

lemma ConstantExpr_isAllOnes_iff:
  assumes "ap_wf c" "ConstantExpr_isAllOnes c = Some b"
  shows "b \<longleftrightarrow> apValue c = 2 ^ getBitWidth c - 1"
  using assms by (auto dest: getZExtValue_Some simp: ConstantExpr_isAllOnes_def maxValueOfNBits_eq option_bind_simps word_uint_eq_iff
      uint_mask_64 split: if_splits)

lemma constant_predicates_narrow:
  assumes "ap_wf c" "getBitWidth c \<le> 64"
  shows "\<exists>b. ConstantExpr_isZero c = Some b" "\<exists>b. ConstantExpr_isOne c = Some b"
    "\<exists>b. ConstantExpr_isAllOnes c = Some b"
    "getBitWidth c = Bool \<Longrightarrow> \<exists>b. ConstantExpr_isTrue c = Some b"
    "getBitWidth c = Bool \<Longrightarrow> \<exists>b. ConstantExpr_isFalse c = Some b"
  using getZExtValue_narrow [OF assms, of 64] getZExtValue_narrow [OF assms, of "getBitWidth c"] assms
  by (auto simp: ConstantExpr_isZero_def ConstantExpr_isOne_def ConstantExpr_isAllOnes_def
      ConstantExpr_isTrue_def ConstantExpr_isFalse_def maxValueOfNBits_eq)

section \<open>What the operations compute\<close>

lemma klee_rt_ref_laws: "klee_rt_laws klee_rt_ref"
  by unfold_locales (simp_all add: klee_rt_ref_def apint_ops.defs apint_ref_def)

interpretation rtref: klee_rt_laws klee_rt_ref
  by (rule klee_rt_ref_laws)

context klee_rt_laws
begin

lemma alloc_simp: "0 < w \<Longrightarrow> ConstantExpr_alloc R v w = APInt w (take_bit w (uint v))"
  by (simp add: ConstantExpr_alloc_def of_law)

lemma alloc_Bool: "ConstantExpr_alloc R (of_bool b) Bool = APInt Bool (of_bool b)"
  by (simp add: alloc_simp)

lemma alloc_0: "0 < w \<Longrightarrow> ConstantExpr_alloc R 0 w = APInt w 0"
  by (simp add: alloc_simp)

lemma alloc_1: "0 < w \<Longrightarrow> ConstantExpr_alloc R 1 w = APInt w 1"
  by (simp add: alloc_simp)

lemma create_0: "ConstantExpr_create R 0 w = (if 0 < w \<and> w \<le> 64 then Some (APInt w 0) else None)"
  by (simp add: ConstantExpr_create_def truncateToNBits_eq alloc_0)

lemma create_1: "ConstantExpr_create R 1 w = (if 0 < w \<and> w \<le> 64 then Some (APInt w 1) else None)"
  by (simp add: ConstantExpr_create_def truncateToNBits_eq alloc_1)

lemma ConstantExpr_binop_eq:
  assumes "ap_same x y" "k \<in> {UDiv, SDiv, URem, SRem} \<Longrightarrow> apValue y \<noteq> 0"
  shows "ConstantExpr_binop R k x y =
    APInt (if is_cmp k then Bool else getBitWidth x)
      (eval_binary k (getBitWidth x) (apValue x) (apValue y))"
proof -
  have eq: "x = y \<longleftrightarrow> apValue x = apValue y"
    using assms(1) by (auto simp: ap_same_def intro: apint.expand)
  have seq: "sbv (getBitWidth x) (apValue x) = sbv (getBitWidth x) (apValue y) \<longleftrightarrow> apValue x = apValue y"
    "sbv (getBitWidth x) (apValue y) = sbv (getBitWidth x) (apValue x) \<longleftrightarrow> apValue x = apValue y"
    using assms(1) by (auto simp: ap_same_def ap_wf_def sbv_inject)
  show ?thesis
  proof (cases "k \<in> {UDiv, SDiv, URem, SRem}")
    case True
    with assms show ?thesis by (auto simp: ap_div_laws ap_signed_def ap_same_def)
  next
    case False
    have "getBitWidth y = getBitWidth x" using assms(1) by (simp add: ap_same_def)
    with False assms(1) show ?thesis
      by (cases k) (simp_all add: ap_arith_laws ap_bit_laws alloc_simp ap_ule_def ap_ugt_def ap_uge_def
          ap_sle_def ap_sgt_def ap_sge_def ult_law slt_law eq seq ap_signed_def order_le_less not_less)
  qed
qed

lemma ConstantExpr_Concat_eq:
  assumes "ap_wf x" "ap_wf y"
  shows "ConstantExpr_Concat R x y =
    APInt (getBitWidth x + getBitWidth y) (push_bit (getBitWidth y) (apValue x) OR apValue y)"
proof -
  let ?W = "getBitWidth x + getBitWidth y"
  have bvs: "bv ?W (apValue x)" "bv ?W (apValue y)" "bv ?W (push_bit (getBitWidth y) (apValue x))"
    using bv_mono [OF ap_wf_bv [OF assms(1)], of ?W] bv_mono [OF ap_wf_bv [OF assms(2)], of ?W]
      bv_concat [OF ap_wf_bv [OF assms(1)] bv_0, of "getBitWidth y"] by simp_all
  have "ap_wf (APInt ?W (apValue x))" "ap_wf (APInt ?W (apValue y))"
    using assms bvs by (simp_all add: ap_wf_def)
  with assms bvs show ?thesis
    by (simp add: ConstantExpr_Concat_def ap_ext_laws shl_by_law or_law ap_same_def ap_wf_def
        take_bit_bv add_pos_pos)
qed

lemma ConstantExpr_Extract_eq:
  assumes "ap_wf x" "0 < w" "off + w \<le> getBitWidth x"
  shows "ConstantExpr_Extract R x off w = APInt w (take_bit w (drop_bit off (apValue x)))"
proof -
  let ?n = "getBitWidth x"
  have "take_bit w (take_bit ?n (drop_bit off (ap_signed x))) = take_bit w (drop_bit off (apValue x))"
    using assms by (intro bit_eqI) (auto simp: ap_signed_def sbv_def bit_simps)
  moreover have "ap_wf (APInt ?n (take_bit ?n (drop_bit off (ap_signed x))))"
    using assms by (simp add: ap_wf_def)
  ultimately show ?thesis
    using assms by (simp add: ConstantExpr_Extract_def ashr_by_law zextOrTrunc_law)
qed

lemma ConstantExpr_ZExt_eq:
  "ap_wf x \<Longrightarrow> 0 < w \<Longrightarrow> ConstantExpr_ZExt R x w = APInt w (take_bit w (apValue x))"
  by (simp add: ConstantExpr_ZExt_def zextOrTrunc_law)

lemma ConstantExpr_SExt_eq:
  "ap_wf x \<Longrightarrow> 0 < w \<Longrightarrow>
    ConstantExpr_SExt R x w = APInt w (take_bit w (sbv (getBitWidth x) (apValue x)))"
  by (simp add: ConstantExpr_SExt_def sextOrTrunc_law ap_signed_def)

lemma ConstantExpr_Not_eq:
  "ap_wf x \<Longrightarrow> ConstantExpr_Not R x = APInt (getBitWidth x) (take_bit (getBitWidth x) (NOT (apValue x)))"
  by (simp add: ConstantExpr_Not_def not_law)

lemma ConstantExpr_Neg_Sub:
  "ap_wf x \<Longrightarrow> ConstantExpr_Neg R x =
     ConstantExpr_binop R Sub (ConstantExpr_alloc R 0 (getBitWidth x)) x"
  by (simp add: ConstantExpr_Neg_def neg_law sub_law ap_same_def alloc_0 ap_wf_def)

end

section \<open>Round trip through memory\<close>

lemma load_store_le: "load_le (store_le n v) = take_bit (8 * n) v"
proof (induction n arbitrary: v)
  case (Suc n)
  have "ucast (ucast v :: 8 word) OR push_bit 8 (take_bit (8 * n) (drop_bit 8 v)) = take_bit (8 * Suc n) v"
    by (rule bit_word_eqI) (auto simp: bit_simps)
  with Suc show ?case by simp
qed simp

lemma length_store_le [simp]: "length (store_le n v) = n"
  by (induction n arbitrary: v) simp_all

lemma bytes_of_width_Some:
  "bytes_of_width w = Some n \<Longrightarrow> 0 < w \<and> w \<le> 8 * n \<and> w \<le> 64"
  by (auto simp: bytes_of_width_def split: if_splits)

text \<open>
  C25. Constants survive memory: for a constant of a supported width and a buffer with room for it
  \<^verbatim>\<open>toMemory\<close> succeeds, writes just the bytes of the width, and \<^verbatim>\<open>fromMemory\<close> at that width reads the
  same constant back.
\<close>

theorem fromMemory_toMemory:
  assumes rt: "klee_rt_laws R" and c: "ap_wf c" and n: "bytes_of_width (getBitWidth c) = Some n" "n \<le> length mem"
  shows "\<exists>mem'. ConstantExpr_toMemory c mem = Some mem' \<and> ConstantExpr_fromMemory R mem' (getBitWidth c) = Some c
    \<and> length mem' = length mem \<and> drop n mem' = drop n mem"
proof -
  note b = bytes_of_width_Some [OF n(1)]
  obtain v where v: "ConstantExpr_getZExtValue c (getBitWidth c) = Some v"
    using getZExtValue_narrow [OF c, of "getBitWidth c"] b by auto
  then have mem': "ConstantExpr_toMemory c mem = Some (store_le n v @ drop n mem)"
    using n by (simp add: ConstantExpr_toMemory_def)
  have uv: "uint v = apValue c" by (rule getZExtValue_Some [OF c v])
  have "take_bit (getBitWidth c) v = v" "take_bit (8 * n) v = v"
    using ap_wf_bv [OF c] bv_mono [OF ap_wf_bv [OF c], of "8 * n"] b
    by (simp_all add: word_uint_eq_iff unsigned_take_bit_eq uv bv_iff_take_bit)
  then show ?thesis
    using b n uv ap_wf_bv [OF c] klee_rt_laws.alloc_simp [OF rt, of "getBitWidth c" v]
    by (simp add: ConstantExpr_fromMemory_def mem' load_store_le ConstantExpr_create_def
        truncateToNBits_eq take_bit_bv)
qed

theorem fromMemory_toMemory_witness:
  "\<exists>mem'. ConstantExpr_toMemory (APInt 16 4660) [0, 0, 7] = Some mem'
    \<and> ConstantExpr_fromMemory klee_rt_ref mem' 16 = Some (APInt 16 4660)
    \<and> length mem' = length [0, 0, 7 :: 8 word] \<and> drop 2 mem' = drop 2 [0, 0, 7]"
  using fromMemory_toMemory [OF klee_rt_ref_laws, of "APInt 16 4660" 2 "[0, 0, 7]"]
  by (simp add: ap_wf_def bv_def bytes_of_width_def)

end
