(* ===== verification/ExprOrder.thy ===== *)
theory ExprOrder
  imports ExprConst
begin

text \<open>
  The order on expressions: the cached hash values (\<^verbatim>\<open>computeHash\<close>), \<^verbatim>\<open>Expr::compare\<close> with the
  \<^verbatim>\<open>compareContents\<close> methods (\<^verbatim>\<open>src/klee/lib/Expr/Expr.cpp\<close>, \<^verbatim>\<open>src/klee/include/klee/Expr.h\<close>), and
  \<^verbatim>\<open>UpdateNode::compare\<close>, \<^verbatim>\<open>UpdateList::compare\<close> and the hashes of update lists
  (\<^verbatim>\<open>src/klee/lib/Expr/Updates.cpp\<close>). \<^verbatim>\<open>operator==\<close> and \<^verbatim>\<open>operator<\<close> of \<^verbatim>\<open>ref<Expr>\<close> are these.
\<close>

section \<open>Hashes\<close>

abbreviation MAGIC_HASH_CONSTANT :: "32 word" where "MAGIC_HASH_CONSTANT \<equiv> 39"

text \<open>The loop of \<^verbatim>\<open>Expr::computeHash\<close> over the hashes of the kids.\<close>

definition hash_kids :: "kind \<Rightarrow> 32 word list \<Rightarrow> 32 word" where
  "hash_kids k hs =
     foldl (\<lambda>res h. push_bit 1 res XOR (h * MAGIC_HASH_CONSTANT))
       (of_nat (kind_number k) * MAGIC_HASH_CONSTANT) hs"

text \<open>
  \<^verbatim>\<open>UpdateList::hash\<close>: the name of the root, then the hash of the head; \<^verbatim>\<open>char\<close> is signed on x86.
\<close>

definition hash_name :: "string \<Rightarrow> 32 word" where
  "hash_name s = foldl (\<lambda>res c. res * MAGIC_HASH_CONSTANT + word_of_int (sbv 8 (of_char c))) 0 s"

primrec computeHash :: "klee_rt \<Rightarrow> expr \<Rightarrow> 32 word"
  and UpdateNode_hash :: "klee_rt \<Rightarrow> update_node \<Rightarrow> 32 word" where
  "computeHash R (ConstantExpr c) = ap_hash R c XOR (of_nat (getBitWidth c) * MAGIC_HASH_CONSTANT)"
| "computeHash R (NotOptimizedExpr e) = hash_kids NotOptimized [computeHash R e]"
| "computeHash R (ReadExpr a u i) =
     computeHash R i * MAGIC_HASH_CONSTANT XOR (hash_name (arr_name a) XOR UpdateNode_hash R u)"
| "computeHash R (SelectExpr c t f) = hash_kids Select [computeHash R c, computeHash R t, computeHash R f]"
| "computeHash R (ConcatExpr l r) = hash_kids Concat [computeHash R l, computeHash R r]"
| "computeHash R (ExtractExpr e off w) =
     (of_nat off * MAGIC_HASH_CONSTANT XOR of_nat w * MAGIC_HASH_CONSTANT) XOR computeHash R e * MAGIC_HASH_CONSTANT"
| "computeHash R (NotExpr e) = computeHash R e * MAGIC_HASH_CONSTANT * of_nat (kind_number NotKind)"
| "computeHash R (CastExpr k e w) =
     of_nat w * MAGIC_HASH_CONSTANT XOR computeHash R e * MAGIC_HASH_CONSTANT"
| "computeHash R (BinaryExpr k l r) = hash_kids (BinaryKind k) [computeHash R l, computeHash R r]"
| "UpdateNode_hash R NoUpdate = 0"
| "UpdateNode_hash R (UpdateNode i v n) = (computeHash R i XOR computeHash R v) XOR UpdateNode_hash R n"

section \<open>Comparison\<close>

text \<open>A comparison is negative, zero or positive; \<^verbatim>\<open>if (int res = a) return res; return b\<close>.\<close>

definition or_else :: "int \<Rightarrow> int \<Rightarrow> int" where
  "or_else a b = (if a \<noteq> 0 then a else b)"

definition cmp :: "'a :: linorder \<Rightarrow> 'a \<Rightarrow> int" where
  "cmp a b = (if a \<noteq> b then (if a < b then - 1 else 1) else 0)"

text \<open>\<^verbatim>\<open>if (a != b) return a < b ? -1 : 1\<close> for references, whose operators call \<^verbatim>\<open>compare\<close>.\<close>

definition cmp_sign :: "int \<Rightarrow> int" where
  "cmp_sign c = (if c \<noteq> 0 then (if c < 0 then - 1 else 1) else 0)"

text \<open>\<^verbatim>\<open>std::string::operator<\<close>: lexicographic in the unsigned characters.\<close>

fun name_less :: "string \<Rightarrow> string \<Rightarrow> bool" where
  "name_less [] ys = (ys \<noteq> [])"
| "name_less (x # xs) [] = False"
| "name_less (x # xs) (y # ys) =
     ((of_char x :: nat) < of_char y \<or> x = y \<and> name_less xs ys)"

definition cmp_name :: "string \<Rightarrow> string \<Rightarrow> int" where
  "cmp_name a b = (if a \<noteq> b then (if name_less a b then - 1 else 1) else 0)"

definition cmp_constant :: "klee_rt \<Rightarrow> apint \<Rightarrow> apint \<Rightarrow> int" where
  "cmp_constant R a b =
     or_else (cmp (getBitWidth a) (getBitWidth b))
       (if a = b then 0 else if ap_ult R a b then - 1 else 1)"

definition cmp_root :: "klee_array \<Rightarrow> klee_array \<Rightarrow> int" where
  "cmp_root a b = or_else (cmp_name (arr_name a) (arr_name b)) (cmp (arr_addr a) (arr_addr b))"

text \<open>
  \<^verbatim>\<open>compareContents\<close> and the loop over the kids are one function of two nodes of one kind. The two
  update lists have the same length when their nodes are compared; where one ends before the other,
  an assertion fails in the source.
\<close>

function (sequential) compare :: "klee_rt \<Rightarrow> expr \<Rightarrow> expr \<Rightarrow> int"
  and compare_same_kind :: "klee_rt \<Rightarrow> expr \<Rightarrow> expr \<Rightarrow> int"
  and compare_nodes :: "klee_rt \<Rightarrow> update_node \<Rightarrow> update_node \<Rightarrow> int" where
  "compare R a b =
     (if same_object R a b then 0
      else or_else (cmp (kind_number (getKind a)) (kind_number (getKind b)))
             (or_else (cmp (computeHash R a) (computeHash R b)) (compare_same_kind R a b)))"
| "compare_same_kind R a b =
     (case a of
        ConstantExpr c \<Rightarrow> (case b of ConstantExpr d \<Rightarrow> cmp_constant R c d | _ \<Rightarrow> 0)
      | NotOptimizedExpr e \<Rightarrow> (case b of NotOptimizedExpr e' \<Rightarrow> compare R e e' | _ \<Rightarrow> 0)
      | ReadExpr root u i \<Rightarrow> (case b of ReadExpr root' u' i' \<Rightarrow>
            or_else (or_else (cmp_root root root')
              (or_else (cmp (update_size u) (update_size u')) (compare_nodes R u u')))
              (compare R i i') | _ \<Rightarrow> 0)
      | SelectExpr c t f \<Rightarrow> (case b of SelectExpr c' t' f' \<Rightarrow>
            or_else (compare R c c') (or_else (compare R t t') (compare R f f')) | _ \<Rightarrow> 0)
      | ConcatExpr l r \<Rightarrow> (case b of ConcatExpr l' r' \<Rightarrow>
            or_else (compare R l l') (compare R r r') | _ \<Rightarrow> 0)
      | ExtractExpr e off w \<Rightarrow> (case b of ExtractExpr e' off' w' \<Rightarrow>
            or_else (or_else (cmp off off') (cmp w w')) (compare R e e') | _ \<Rightarrow> 0)
      | NotExpr e \<Rightarrow> (case b of NotExpr e' \<Rightarrow>
            or_else (cmp_sign (compare R e e')) (compare R e e') | _ \<Rightarrow> 0)
      | CastExpr k e w \<Rightarrow> (case b of CastExpr k' e' w' \<Rightarrow>
            or_else (cmp w w') (compare R e e') | _ \<Rightarrow> 0)
      | BinaryExpr k l r \<Rightarrow> (case b of BinaryExpr k' l' r' \<Rightarrow>
            or_else (compare R l l') (compare R r r') | _ \<Rightarrow> 0))"
| "compare_nodes R m n =
     (case m of
        NoUpdate \<Rightarrow> 0
      | UpdateNode i v m' \<Rightarrow>
          (case n of
             NoUpdate \<Rightarrow> 0
           | UpdateNode j w n' \<Rightarrow>
               if same_node R m n then 0
               else or_else (or_else (compare R i j) (compare R v w)) (compare_nodes R m' n')))"
  by pat_completeness auto
termination
  by (relation "measures [\<lambda>x. case x of Inl (R, a, b) \<Rightarrow> size a | Inr (Inl (R, a, b)) \<Rightarrow> size a | Inr (Inr (R, a, b)) \<Rightarrow> size a,
      \<lambda>x. case x of Inl _ \<Rightarrow> 1 | Inr _ \<Rightarrow> 0]") auto

declare compare.simps [simp del] compare_same_kind.simps [simp del] compare_nodes.simps [simp del]

section \<open>A total order\<close>

primrec arrays_of :: "expr \<Rightarrow> klee_array set"
  and arrays_of_updates :: "update_node \<Rightarrow> klee_array set" where
  "arrays_of (ConstantExpr c) = {}"
| "arrays_of (NotOptimizedExpr e) = arrays_of e"
| "arrays_of (ReadExpr a u i) = insert a (arrays_of_updates u \<union> arrays_of i)"
| "arrays_of (SelectExpr c t f) = arrays_of c \<union> arrays_of t \<union> arrays_of f"
| "arrays_of (ConcatExpr l r) = arrays_of l \<union> arrays_of r"
| "arrays_of (ExtractExpr e off w) = arrays_of e"
| "arrays_of (NotExpr e) = arrays_of e"
| "arrays_of (CastExpr k e w) = arrays_of e"
| "arrays_of (BinaryExpr k l r) = arrays_of l \<union> arrays_of r"
| "arrays_of_updates NoUpdate = {}"
| "arrays_of_updates (UpdateNode i v n) = arrays_of i \<union> arrays_of v \<union> arrays_of_updates n"

lemma or_else_simps [simp]:
  "or_else x y = 0 \<longleftrightarrow> x = 0 \<and> y = 0"
  "or_else x y < 0 \<longleftrightarrow> x < 0 \<or> x = 0 \<and> y < 0"
  "or_else 0 y = y"
  by (auto simp: or_else_def)

lemma cmp_sign_simps [simp]: "cmp_sign p = 0 \<longleftrightarrow> p = 0" "cmp_sign p < 0 \<longleftrightarrow> p < 0" "cmp_sign 0 = 0"
  by (auto simp: cmp_sign_def)

lemma cmp_simps [simp]:
  "cmp a b = 0 \<longleftrightarrow> a = b" "cmp a b < 0 \<longleftrightarrow> a < b" "cmp a a = 0"
  by (auto simp: cmp_def)

lemma bkind_number_inj [simp]: "bkind_number k = bkind_number k' \<longleftrightarrow> k = k'"
  by (cases k; cases k') simp_all

lemma kind_number_inj [simp]: "kind_number k = kind_number k' \<longleftrightarrow> k = k'"
proof
  assume "kind_number k = kind_number k'"
  moreover have "9 \<le> bkind_number b" "bkind_number b \<noteq> 16" for b by (cases b; simp)+
  ultimately show "k = k'"
    by (cases k rule: kind_number.cases; cases k' rule: kind_number.cases) (auto, (metis numeral_le_iff semiring_norm)+)
qed simp

lemma name_less_irrefl [simp]: "\<not> name_less x x"
  by (induction x) auto

lemma name_less_trans: "name_less x y \<Longrightarrow> name_less y z \<Longrightarrow> name_less x z"
proof (induction x y arbitrary: z rule: name_less.induct)
  case (3 x xs y ys)
  then show ?case by (cases z) (auto simp: of_char_eq_iff)
qed (auto elim: name_less.elims)

lemma name_less_total: "x \<noteq> y \<Longrightarrow> name_less x y \<or> name_less y x"
  by (induction x y rule: name_less.induct) (auto simp: nat_neq_iff)

lemma cmp_name_simps [simp]:
  "cmp_name x y = 0 \<longleftrightarrow> x = y" "cmp_name x y < 0 \<longleftrightarrow> name_less x y" "cmp_name x x = 0"
  using name_less_total [of x y] by (auto simp: cmp_name_def)

lemma cmp_root_eq:
  "inj_on arr_addr U \<Longrightarrow> a \<in> U \<Longrightarrow> b \<in> U \<Longrightarrow> cmp_root a b = 0 \<longleftrightarrow> a = b"
  by (auto simp: cmp_root_def dest: inj_onD)

text \<open>
  Transitivity of a comparison, for the values it has on the three pairs; it passes through
  \<^verbatim>\<open>or_else\<close>.
\<close>

definition transitive :: "int \<Rightarrow> int \<Rightarrow> int \<Rightarrow> bool" where
  "transitive p q r \<longleftrightarrow>
     (p \<le> 0 \<and> q \<le> 0 \<longrightarrow> (if p = 0 \<and> q = 0 then r = 0 else r < 0))"

lemma transitive_or_else:
  assumes "transitive p q r" "p = 0 \<Longrightarrow> q = 0 \<Longrightarrow> transitive p' q' r'"
  shows "transitive (or_else p p') (or_else q q') (or_else r r')"
  using assms by (auto simp: transitive_def or_else_def split: if_splits)

lemma transitive_cmp: "transitive (cmp a b) (cmp b c) (cmp a c)"
  by (auto simp: transitive_def cmp_def)

lemma transitive_cmp_root: "transitive (cmp_root a b) (cmp_root b c) (cmp_root a c)"
proof -
  have "transitive (cmp_name x y) (cmp_name y z) (cmp_name x z)" for x y z
    using name_less_total [of x z] by (auto simp: transitive_def cmp_name_def dest: name_less_trans)
  then show ?thesis by (simp add: cmp_root_def transitive_or_else transitive_cmp)
qed

lemma transitive_sign: "transitive p q r \<Longrightarrow> transitive (cmp_sign p) (cmp_sign q) (cmp_sign r)"
  by (auto simp: transitive_def cmp_sign_def)

text \<open>Swapping the arguments negates a comparison.\<close>

lemma swap_or_else: "p' = - p \<Longrightarrow> (p = 0 \<Longrightarrow> q' = - q) \<Longrightarrow> or_else p' q' = - or_else p q"
  by (auto simp: or_else_def)

lemma swap_cmp: "cmp b a = - cmp a b"
  by (auto simp: cmp_def)

lemma swap_cmp_root: "cmp_root b a = - cmp_root a b"
proof -
  have "cmp_name y x = - cmp_name x y" for x y
    using name_less_total [of x y] name_less_trans [of x y x] by (auto simp: cmp_name_def)
  then show ?thesis unfolding cmp_root_def by (intro swap_or_else swap_cmp)
qed

lemma swap_sign: "p' = - p \<Longrightarrow> cmp_sign p' = - cmp_sign p"
  by (auto simp: cmp_sign_def)

lemmas swap_intros = swap_or_else swap_cmp swap_cmp_root swap_sign
lemmas transitive_intros = transitive_or_else transitive_cmp transitive_cmp_root transitive_sign

lemma expr_same_kind:
  assumes "getKind a = getKind b"
  obtains c d where "a = ConstantExpr c" "b = ConstantExpr d"
  | x y where "a = NotOptimizedExpr x" "b = NotOptimizedExpr y"
  | r u i r' u' i' where "a = ReadExpr r u i" "b = ReadExpr r' u' i'"
  | c t f c' t' f' where "a = SelectExpr c t f" "b = SelectExpr c' t' f'"
  | l r l' r' where "a = ConcatExpr l r" "b = ConcatExpr l' r'"
  | x off w x' off' w' where "a = ExtractExpr x off w" "b = ExtractExpr x' off' w'"
  | x y where "a = NotExpr x" "b = NotExpr y"
  | k x w x' w' where "a = CastExpr k x w" "b = CastExpr k x' w'"
  | k l r l' r' where "a = BinaryExpr k l r" "b = BinaryExpr k l' r'"
  using assms by (cases a; cases b) simp_all

declare kind_number.simps [simp del]

context klee_rt_laws
begin

lemma compare_refl: "compare R a a = 0" "compare_nodes R m m = 0"
proof (induction a and m)
qed (subst compare.simps compare_nodes.simps; simp add: compare_same_kind.simps cmp_constant_def cmp_root_def)+

text \<open>So the test for one object is only a shortcut.\<close>

lemma compare_eq:
  "compare R a b =
     or_else (cmp (kind_number (getKind a)) (kind_number (getKind b)))
       (or_else (cmp (computeHash R a) (computeHash R b)) (compare_same_kind R a b))"
proof (cases "same_object R a b")
  case True
  then have "a = b" by (rule same_object_eq)
  moreover have "compare_same_kind R a a = 0"
    using compare_refl(1) [of a] by (subst (asm) compare.simps) (cases a; auto simp: compare_same_kind.simps cmp_constant_def cmp_root_def compare_refl)
  ultimately show ?thesis using compare_refl(1) [of a] by simp
qed (simp add: compare.simps)

lemma compare_nodes_eq:
  "compare_nodes R (UpdateNode i v m) (UpdateNode j w n) =
     or_else (or_else (compare R i j) (compare R v w)) (compare_nodes R m n)"
proof (cases "same_node R (UpdateNode i v m) (UpdateNode j w n)")
  case True
  then have "UpdateNode i v m = UpdateNode j w n" by (rule same_node_eq)
  then show ?thesis by (simp add: compare_refl)
qed (simp add: compare_nodes.simps)

lemma compare_zero:
  assumes "inj_on arr_addr U"
  shows "wt a \<Longrightarrow> wt b \<Longrightarrow> arrays_of a \<subseteq> U \<Longrightarrow> arrays_of b \<subseteq> U \<Longrightarrow> compare R a b = 0 \<longleftrightarrow> a = b"
    "wt_updates m \<Longrightarrow> wt_updates n \<Longrightarrow> arrays_of_updates m \<subseteq> U \<Longrightarrow> arrays_of_updates n \<subseteq> U \<Longrightarrow>
       update_size m = update_size n \<Longrightarrow> compare_nodes R m n = 0 \<longleftrightarrow> m = n"
proof (induction a and m arbitrary: b and n)
  case (ConstantExpr c)
  show ?case by (cases b) (auto simp: compare_eq compare_same_kind.simps cmp_constant_def)
next
  case (NotOptimizedExpr x)
  then show ?case by (cases b) (auto simp: compare_eq compare_same_kind.simps)
next
  case (ReadExpr r u i)
  then show ?case by (cases b) (auto simp: compare_eq compare_same_kind.simps cmp_root_eq [OF assms])
next
  case (SelectExpr c t f)
  then show ?case by (cases b) (auto simp: compare_eq compare_same_kind.simps)
next
  case (ConcatExpr l r)
  then show ?case by (cases b) (auto simp: compare_eq compare_same_kind.simps)
next
  case (ExtractExpr x off w)
  then show ?case by (cases b) (auto simp: compare_eq compare_same_kind.simps)
next
  case (NotExpr x)
  then show ?case by (cases b) (auto simp: compare_eq compare_same_kind.simps)
next
  case (CastExpr k x w)
  then show ?case by (cases b) (auto simp: compare_eq compare_same_kind.simps)
next
  case (BinaryExpr k l r)
  then show ?case by (cases b) (auto simp: compare_eq compare_same_kind.simps)
next
  case NoUpdate
  then show ?case by (cases n) (auto simp: compare_nodes.simps)
next
  case (UpdateNode i v m)
  then show ?case by (cases n) (auto simp: compare_nodes_eq)
qed

lemma cmp_constant_swap:
  assumes "ap_wf a" "ap_wf b"
  shows "cmp_constant R b a = - cmp_constant R a b"
  using assms ult_law [of a b] ult_law [of b a]
  by (cases "a = b") (auto simp: cmp_constant_def cmp_def or_else_def ap_same_def intro: apint.expand)

lemma transitive_cmp_constant:
  assumes "ap_wf a" "ap_wf b" "ap_wf c"
  shows "transitive (cmp_constant R a b) (cmp_constant R b c) (cmp_constant R a c)"
proof -
  have *: "(if x = y then 0 else if ap_ult R x y then - 1 else 1) = cmp (apValue x) (apValue y)"
    if "ap_wf x" "ap_wf y" "getBitWidth x = getBitWidth y" for x y
    using that ult_law [of x y] by (cases "apValue x = apValue y") (auto simp: cmp_def ap_same_def apint.expand)
  show ?thesis unfolding cmp_constant_def
    by (rule transitive_or_else [OF transitive_cmp]) (use assms in \<open>simp add: * transitive_cmp\<close>)
qed

lemma compare_transitive_step:
  assumes "getKind b = getKind a \<Longrightarrow> getKind c = getKind a \<Longrightarrow>
    transitive (compare_same_kind R a b) (compare_same_kind R b c) (compare_same_kind R a c)"
  shows "transitive (compare R a b) (compare R b c) (compare R a c)"
  unfolding compare_eq
proof (intro transitive_or_else transitive_cmp)
  assume "cmp (kind_number (getKind a)) (kind_number (getKind b)) = 0"
    "cmp (kind_number (getKind b)) (kind_number (getKind c)) = 0"
  then have "getKind b = getKind a" "getKind c = getKind a" by simp_all
  then show "transitive (compare_same_kind R a b) (compare_same_kind R b c) (compare_same_kind R a c)"
    by (rule assms)
qed

lemma compare_transitive:
  "wt a \<Longrightarrow> wt b \<Longrightarrow> wt c \<Longrightarrow> transitive (compare R a b) (compare R b c) (compare R a c)"
  "wt_updates m \<Longrightarrow> wt_updates n \<Longrightarrow> wt_updates k \<Longrightarrow> update_size m = update_size n \<Longrightarrow> update_size n = update_size k \<Longrightarrow>
     transitive (compare_nodes R m n) (compare_nodes R n k) (compare_nodes R m k)"
proof (induction a and m arbitrary: b c and n k)
  case (ConstantExpr x)
  then show ?case
    by (intro compare_transitive_step; cases b; cases c)
      (auto simp: compare_same_kind.simps intro!: transitive_intros transitive_cmp_constant)
next
  case (NotOptimizedExpr x)
  then show ?case
    by (intro compare_transitive_step; cases b; cases c)
      (auto simp: compare_same_kind.simps intro!: transitive_intros)
next
  case (ReadExpr r u i)
  then show ?case
    by (intro compare_transitive_step; cases b; cases c)
      (auto simp: compare_same_kind.simps intro!: transitive_intros)
next
  case (SelectExpr x y z)
  then show ?case
    by (intro compare_transitive_step; cases b; cases c)
      (auto simp: compare_same_kind.simps intro!: transitive_intros)
next
  case (ConcatExpr l r)
  then show ?case
    by (intro compare_transitive_step; cases b; cases c)
      (auto simp: compare_same_kind.simps intro!: transitive_intros)
next
  case (ExtractExpr x off w)
  then show ?case
    by (intro compare_transitive_step; cases b; cases c)
      (auto simp: compare_same_kind.simps intro!: transitive_intros)
next
  case (NotExpr x)
  then show ?case
    by (intro compare_transitive_step; cases b; cases c)
      (auto simp: compare_same_kind.simps intro!: transitive_intros)
next
  case (CastExpr q x w)
  then show ?case
    by (intro compare_transitive_step; cases b; cases c)
      (auto simp: compare_same_kind.simps intro!: transitive_intros)
next
  case (BinaryExpr q l r)
  then show ?case
    by (intro compare_transitive_step; cases b; cases c)
      (auto simp: compare_same_kind.simps intro!: transitive_intros)
next
  case NoUpdate
  then show ?case by (cases n; cases k) (simp_all add: compare_nodes.simps transitive_def)
next
  case (UpdateNode i v m)
  then show ?case by (cases n; cases k) (auto simp: compare_nodes_eq intro!: transitive_intros)
qed

lemma compare_swap_step:
  assumes "getKind b = getKind a \<Longrightarrow> compare_same_kind R b a = - compare_same_kind R a b"
  shows "compare R b a = - compare R a b"
  unfolding compare_eq
proof (intro swap_or_else swap_cmp)
  assume "cmp (kind_number (getKind a)) (kind_number (getKind b)) = 0"
  then have "getKind b = getKind a" by simp
  then show "compare_same_kind R b a = - compare_same_kind R a b" by (rule assms)
qed

lemma compare_swap:
  "wt a \<Longrightarrow> wt b \<Longrightarrow> compare R b a = - compare R a b"
  "wt_updates m \<Longrightarrow> wt_updates n \<Longrightarrow> compare_nodes R n m = - compare_nodes R m n"
proof (induction a and m arbitrary: b and n)
  case (ConstantExpr x)
  then show ?case
    by (intro compare_swap_step; cases b) (auto simp: compare_same_kind.simps intro!: swap_intros cmp_constant_swap)
next
  case (NotOptimizedExpr x)
  then show ?case
    by (intro compare_swap_step; cases b) (auto simp: compare_same_kind.simps intro!: swap_intros)
next
  case (ReadExpr r u i)
  then show ?case
    by (intro compare_swap_step; cases b) (auto simp: compare_same_kind.simps intro!: swap_intros)
next
  case (SelectExpr x y z)
  then show ?case
    by (intro compare_swap_step; cases b) (auto simp: compare_same_kind.simps intro!: swap_intros)
next
  case (ConcatExpr l r)
  then show ?case
    by (intro compare_swap_step; cases b) (auto simp: compare_same_kind.simps intro!: swap_intros)
next
  case (ExtractExpr x off w)
  then show ?case
    by (intro compare_swap_step; cases b) (auto simp: compare_same_kind.simps intro!: swap_intros)
next
  case (NotExpr x)
  then show ?case
    by (intro compare_swap_step; cases b) (auto simp: compare_same_kind.simps intro!: swap_intros)
next
  case (CastExpr q x w)
  then show ?case
    by (intro compare_swap_step; cases b) (auto simp: compare_same_kind.simps intro!: swap_intros)
next
  case (BinaryExpr q l r)
  then show ?case
    by (intro compare_swap_step; cases b) (auto simp: compare_same_kind.simps intro!: swap_intros)
next
  case NoUpdate
  then show ?case by (cases n) (simp_all add: compare_nodes.simps)
next
  case (UpdateNode i v m)
  note IH = UpdateNode.IH and p = UpdateNode.prems
  show ?case
  proof (cases n)
    case (UpdateNode j w n')
    with IH p show ?thesis unfolding UpdateNode compare_nodes_eq by (intro swap_intros) auto
  qed (simp add: compare_nodes.simps)
qed

end

section \<open>Properties\<close>

text \<open>
  C21. \<^verbatim>\<open>Expr::compare\<close> is a total order on well-typed expressions in which no two arrays have one
  address: it is zero exactly on equal expressions, although it looks at the hash values first and
  stops early at shared objects; swapping the arguments negates it; and it is transitive.
\<close>

theorem compare_total_order:
  assumes "klee_rt_laws R" "wt a" "wt b" "wt c" "inj_on arr_addr (arrays_of a \<union> arrays_of b \<union> arrays_of c)"
  shows "(compare R a b = 0 \<longleftrightarrow> a = b) \<and> compare R b a = - compare R a b
    \<and> (compare R a b < 0 \<and> compare R b c < 0 \<longrightarrow> compare R a c < 0)"
proof (intro conjI)
  show "compare R a b = 0 \<longleftrightarrow> a = b"
    by (rule klee_rt_laws.compare_zero(1) [OF assms(1,5,2,3)]) auto
  show "compare R b a = - compare R a b"
    by (rule klee_rt_laws.compare_swap(1) [OF assms(1-3)])
  show "compare R a b < 0 \<and> compare R b c < 0 \<longrightarrow> compare R a c < 0"
    using klee_rt_laws.compare_transitive(1) [OF assms(1-4)] by (auto simp: transitive_def)
qed

theorem compare_total_order_witness:
  "(compare klee_rt_ref (ConstantExpr (APInt 8 1)) (ConstantExpr (APInt 8 2)) = 0 \<longleftrightarrow> False)
    \<and> compare klee_rt_ref (ConstantExpr (APInt 8 2)) (ConstantExpr (APInt 8 1))
        = - compare klee_rt_ref (ConstantExpr (APInt 8 1)) (ConstantExpr (APInt 8 2))"
  using compare_total_order [OF klee_rt_ref_laws, of "ConstantExpr (APInt 8 1)" "ConstantExpr (APInt 8 2)" "ConstantExpr (APInt 8 3)"]
  by (simp add: ap_wf_def bv_def)

end
