(* ===== verification/ExprBits.thy ===== *)
theory ExprBits
  imports ExprConst
begin

text \<open>
  The simplifying constructors that rearrange bits: \<^verbatim>\<open>create\<close> of \<^verbatim>\<open>NotOptimizedExpr\<close>, \<^verbatim>\<open>NotExpr\<close>,
  \<^verbatim>\<open>ConcatExpr\<close>, \<^verbatim>\<open>ExtractExpr\<close>, \<^verbatim>\<open>ZExtExpr\<close> and \<^verbatim>\<open>SExtExpr\<close> (\<^verbatim>\<open>src/klee/lib/Expr/Expr.cpp\<close>). The last four
  call one another; their termination rests on a bound of the size of what they return.
\<close>

definition NotOptimizedExpr_create :: "expr \<Rightarrow> expr" where
  "NotOptimizedExpr_create src = NotOptimizedExpr src"

definition NotExpr_create :: "klee_rt \<Rightarrow> expr \<Rightarrow> expr" where
  "NotExpr_create R e =
     (case e of ConstantExpr CE \<Rightarrow> ConstantExpr (ConstantExpr_Not R CE) | _ \<Rightarrow> NotExpr e)"

text \<open>The size that bounds the results: an extract counts twice its operand.\<close>

fun bits_size :: "expr \<Rightarrow> nat" where
  "bits_size (ConcatExpr l r) = bits_size l + bits_size r + 1"
| "bits_size (ExtractExpr e off w) = 2 * bits_size e"
| "bits_size (CastExpr k e w) = bits_size e + 1"
| "bits_size _ = 1"

lemma bits_size_pos [simp]: "0 < bits_size e"
  by (induction e rule: bits_size.induct) auto

lemma bits_size_ge_1 [simp]: "Suc 0 \<le> bits_size e"
  using bits_size_pos [of e] by linarith

text \<open>
  In \<^verbatim>\<open>ExtractExpr::create\<close> the two branches after the \<^verbatim>\<open>SExtExpr\<close> test (\<^verbatim>\<open>Extract(ZExt)\<close> and
  \<^verbatim>\<open>Extract(SExt)\<close>) test for a class that an earlier branch of the same chain already took, so
  they have no counterpart here. The width of the left part of an extract that straddles a concat
  is computed in unsigned arithmetic, \<^verbatim>\<open>w - wr + off\<close>, whose value is \<^term>\<open>w + off - wr\<close>.
\<close>

function ExtractExpr_create :: "klee_rt \<Rightarrow> expr \<Rightarrow> nat \<Rightarrow> width \<Rightarrow> expr option"
  and ConcatExpr_create :: "klee_rt \<Rightarrow> expr \<Rightarrow> expr \<Rightarrow> expr option"
  and ZExtExpr_create :: "klee_rt \<Rightarrow> expr \<Rightarrow> width \<Rightarrow> expr option"
  and SExtExpr_create :: "klee_rt \<Rightarrow> expr \<Rightarrow> width \<Rightarrow> expr option" where
  "ExtractExpr_create R e off w =
     do { require (0 < w \<and> off + w \<le> getWidth e);
          if w = getWidth e then Some e
          else case e of
            ConstantExpr CE \<Rightarrow> Some (ConstantExpr (ConstantExpr_Extract R CE off w))
          | CastExpr ZExt x zew \<Rightarrow>
              if getWidth x = w \<and> off = 0 then Some x
              else if w \<le> zew \<and> getWidth x \<le> w \<and> off = 0 then ZExtExpr_create R x w
              else Some (ExtractExpr e off w)
          | ConcatExpr l r \<Rightarrow>
              if getWidth r \<le> off then ExtractExpr_create R l (off - getWidth r) w
              else if off + w \<le> getWidth r then ExtractExpr_create R r off w
              else do { a \<leftarrow> ExtractExpr_create R l 0 (w + off - getWidth r);
                        b \<leftarrow> ExtractExpr_create R r off (getWidth r - off);
                        ConcatExpr_create R a b }
          | CastExpr SExt x sew \<Rightarrow>
              if off = 0 \<and> w = Int8 \<and> getWidth x = Int8 then Some x
              else Some (ExtractExpr e off w)
          | _ \<Rightarrow> Some (ExtractExpr e off w) }"
| "ConcatExpr_create R l r =
     (let w = getWidth l + getWidth r in
      case dyn_cast_Constant l of
        Some lCE \<Rightarrow>
          (case dyn_cast_Constant r of
             Some rCE \<Rightarrow> Some (ConstantExpr (ConstantExpr_Concat R lCE rCE))
           | None \<Rightarrow>
               do { z \<leftarrow> ConstantExpr_isZero lCE;
                    if z then ZExtExpr_create R r w else Some (ConcatExpr l r) })
      | None \<Rightarrow>
          (case dyn_cast_Extract l of
             Some (el, ol, wl) \<Rightarrow>
               (case dyn_cast_Extract r of
                  Some (er, off_r, wr) \<Rightarrow>
                    if el = er \<and> off_r + wr = ol then ExtractExpr_create R el off_r w
                    else Some (ConcatExpr l r)
                | None \<Rightarrow> Some (ConcatExpr l r))
           | None \<Rightarrow> Some (ConcatExpr l r)))"
| "ZExtExpr_create R e w =
     (if w = getWidth e then Some e
      else if w < getWidth e then ExtractExpr_create R e 0 w
      else case e of
        ConstantExpr CE \<Rightarrow> Some (ConstantExpr (ConstantExpr_ZExt R CE w))
      | CastExpr ZExt x zw \<Rightarrow> if zw < w then Some (ZExtExpr x w) else Some (ZExtExpr e w)
      | _ \<Rightarrow> Some (ZExtExpr e w))"
| "SExtExpr_create R e w =
     (if w = getWidth e then Some e
      else if w < getWidth e then ExtractExpr_create R e 0 w
      else case e of
        ConstantExpr CE \<Rightarrow> Some (ConstantExpr (ConstantExpr_SExt R CE w))
      | _ \<Rightarrow> Some (SExtExpr e w))"
  by pat_completeness auto

abbreviation "bits_dom \<equiv> ExtractExpr_create_ConcatExpr_create_ZExtExpr_create_SExtExpr_create_dom"

lemma bits_size_bound:
  "bits_dom (Inl (Inl (R, e, off, w))) \<Longrightarrow> ExtractExpr_create R e off w = Some a \<Longrightarrow>
     bits_size a \<le> 2 * bits_size e"
  "bits_dom (Inl (Inr (R, l, r))) \<Longrightarrow> ConcatExpr_create R l r = Some b \<Longrightarrow>
     bits_size b \<le> bits_size l + bits_size r + 1"
  "bits_dom (Inr (Inl (R, e, w))) \<Longrightarrow> ZExtExpr_create R e w = Some c \<Longrightarrow>
     bits_size c \<le> (if w < getWidth e then 2 * bits_size e else bits_size e + 1)"
  "bits_dom (Inr (Inr (R, e, w))) \<Longrightarrow> True"
proof (induction R e off w and R l r and R e w and R e w arbitrary: a and b and c
    rule: ExtractExpr_create_ConcatExpr_create_ZExtExpr_create_SExtExpr_create.pinduct)
  case (1 R e off w)
  note eq = "1.prems" [unfolded ExtractExpr_create.psimps [OF "1.hyps"], simplified]
  show ?case
  proof (cases "w = getWidth e")
    case True
    with eq show ?thesis by simp
  next
    case False
    note eq = eq and IH = "1.IH" [OF _ False]
    show ?thesis
    proof (cases e)
      case (ConcatExpr l r)
      consider "getWidth r \<le> off" | "\<not> getWidth r \<le> off" "off + w \<le> getWidth r"
        | "\<not> getWidth r \<le> off" "\<not> off + w \<le> getWidth r" by blast
      then show ?thesis
      proof cases
        case 1
        with eq False ConcatExpr show ?thesis using IH(1) [OF _ ConcatExpr] by fastforce
      next
        case 2
        with eq False ConcatExpr show ?thesis using IH(2) [OF _ ConcatExpr] by fastforce
      next
        case 3
        with eq False ConcatExpr obtain x y where
          "ExtractExpr_create R l 0 (w + off - getWidth r) = Some x"
          "ExtractExpr_create R r off (getWidth r - off) = Some y" "ConcatExpr_create R x y = Some a"
          by (auto simp: option_bind_simps)
        with 3 eq ConcatExpr IH(3-5) [OF _ ConcatExpr] show ?thesis by fastforce
      qed
    next
      case (CastExpr k x v)
      with eq False IH(6) [OF _ CastExpr] show ?thesis
        by (cases k) (fastforce split: if_splits)+
    qed (use eq False in auto)
  qed
next
  case (2 R l r)
  note eq = "2.prems" [unfolded ConcatExpr_create.psimps [OF "2.hyps"] Let_def]
  show ?case
  proof (cases "dyn_cast_Constant l")
    case None
    show ?thesis
    proof (cases "\<exists>e p u q v. l = ExtractExpr e p u \<and> r = ExtractExpr e q v \<and> q + v = p")
      case True
      then obtain e p u q v where lr: "l = ExtractExpr e p u" "r = ExtractExpr e q v" "q + v = p"
        by blast
      with eq have "ExtractExpr_create R e q (getWidth l + getWidth r) = Some b" by simp
      from "2.IH"(1) [OF refl None _ refl refl _ refl refl _ this] lr
      have "bits_size b \<le> 2 * bits_size e" by auto
      with lr show ?thesis by simp
    next
      case False
      with eq None have "b = ConcatExpr l r" by (auto split: option.splits if_splits)
      then show ?thesis by simp
    qed
  next
    case (Some x)
    show ?thesis
    proof (cases "b = ConcatExpr l r \<or> is_constant b")
      case True
      then show ?thesis by (cases b) auto
    next
      case False
      with eq Some have "dyn_cast_Constant r = None" "ConstantExpr_isZero x = Some True"
        "ZExtExpr_create R r (getWidth l + getWidth r) = Some b"
        by (auto simp: option_bind_simps split: option.splits if_splits)
      from "2.IH"(2) [OF refl Some this(1,2) _ this(3)] show ?thesis by simp
    qed
  qed
next
  case (3 R e w)
  note eq = "3.prems" [unfolded ZExtExpr_create.psimps [OF "3.hyps"]]
  show ?case
  proof (cases "w < getWidth e")
    case True
    with eq "3.IH" show ?thesis by simp
  next
    case False
    with eq show ?thesis by (auto split: if_splits expr.splits ckind.splits)
  qed
qed simp

termination ExtractExpr_create
  by (relation "measure (\<lambda>x. case x of
      Inl (Inl (R, e, off, w)) \<Rightarrow> 2 * bits_size e
    | Inl (Inr (R, l, r)) \<Rightarrow> bits_size l + bits_size r + 1
    | Inr (Inl (R, e, w)) \<Rightarrow> if w < getWidth e then 2 * bits_size e + 1 else 0
    | Inr (Inr (R, e, w)) \<Rightarrow> if w < getWidth e then 2 * bits_size e + 1 else 0)")
    (auto, (drule (1) bits_size_bound(1))+, simp)

declare ExtractExpr_create.simps [simp del] ConcatExpr_create.simps [simp del]
  ZExtExpr_create.simps [simp del] SExtExpr_create.simps [simp del]

section \<open>Correctness\<close>

text \<open>
  \<^verbatim>\<open>refines w v e\<close>: the expression \<^verbatim>\<open>e\<close> is well typed, has width \<^verbatim>\<open>w\<close> and under every assignment the
  value \<^verbatim>\<open>v\<close>. It is the contract of every \<^verbatim>\<open>create\<close>.
\<close>

definition refines :: "width \<Rightarrow> (assignment \<Rightarrow> int) \<Rightarrow> expr \<Rightarrow> bool" where
  "refines w v e \<longleftrightarrow> wt e \<and> getWidth e = w \<and> (\<forall>\<sigma>. eval \<sigma> e = v \<sigma>)"

lemma refinesI [intro]: "wt e \<Longrightarrow> getWidth e = w \<Longrightarrow> (\<And>\<sigma>. eval \<sigma> e = v \<sigma>) \<Longrightarrow> refines w v e"
  by (simp add: refines_def)

lemma refines_wt: "refines w v e \<Longrightarrow> wt e"
  and refines_width: "refines w v e \<Longrightarrow> getWidth e = w"
  and refines_eval: "refines w v e \<Longrightarrow> eval \<sigma> e = v \<sigma>"
  by (simp_all add: refines_def)

text \<open>Bit-level facts behind the rewrites.\<close>

lemma extract_concat_left:
  "bv n b \<Longrightarrow> n \<le> off \<Longrightarrow>
    take_bit w (drop_bit off (push_bit n a OR b)) = take_bit w (drop_bit (off - n) (a :: int))"
  by (rule bit_eqI) (auto simp: bit_simps dest: bv_bitD)

lemma extract_concat_right:
  "off + w \<le> n \<Longrightarrow>
    take_bit w (drop_bit off (push_bit n a OR b)) = take_bit w (drop_bit off (b :: int))"
  by (rule bit_eqI) (auto simp: bit_simps)

lemma extract_concat_both:
  assumes "bv n b" "off < n" "n < off + w"
  shows "push_bit (n - off) (take_bit (w + off - n) (drop_bit 0 a)) OR take_bit (n - off) (drop_bit off b)
    = take_bit w (drop_bit off (push_bit n a OR (b :: int)))"
  using assms
  by (intro bit_eqI) (auto simp: bit_simps algebra_simps dest: bv_bitD)

lemma concat_extracts:
  "push_bit v (take_bit u (drop_bit (off + v) a)) OR take_bit v (drop_bit off a)
    = take_bit (u + v) (drop_bit off (a :: int))"
  by (rule bit_eqI) (auto simp: bit_simps algebra_simps)

lemma sbv_low_bits: "0 < v \<Longrightarrow> w \<le> v \<Longrightarrow> take_bit w (sbv v a) = take_bit w a"
  by (rule bit_eqI) (auto simp: sbv_def bit_simps)

lemma take_bit_le_bv: "bv v a \<Longrightarrow> v \<le> w \<Longrightarrow> take_bit w a = a"
  by (simp add: bv_mono take_bit_bv)

context klee_rt_laws
begin

lemma NotExpr_create_refines:
  assumes "wt e"
  shows "refines (getWidth e) (\<lambda>\<sigma>. take_bit (getWidth e) (NOT (eval \<sigma> e))) (NotExpr_create R e)"
  using assms
  by (cases e) (auto simp: NotExpr_create_def refines_def ConstantExpr_Not_eq ap_wf_def)

lemma bits_create_refines_aux:
  "R' = R \<Longrightarrow> wt e \<Longrightarrow> ExtractExpr_create R' e off w = Some a \<Longrightarrow>
     refines w (\<lambda>\<sigma>. take_bit w (drop_bit off (eval \<sigma> e))) a"
  "R' = R \<Longrightarrow> wt l \<Longrightarrow> wt r \<Longrightarrow> ConcatExpr_create R' l r = Some b \<Longrightarrow>
     refines (getWidth l + getWidth r) (\<lambda>\<sigma>. push_bit (getWidth r) (eval \<sigma> l) OR eval \<sigma> r) b"
  "R' = R \<Longrightarrow> wt e \<Longrightarrow> 0 < w \<Longrightarrow> ZExtExpr_create R' e w = Some c \<Longrightarrow>
     refines w (\<lambda>\<sigma>. take_bit w (eval \<sigma> e)) c"
  "R' = R \<Longrightarrow> wt e \<Longrightarrow> 0 < w \<Longrightarrow> SExtExpr_create R' e w = Some d \<Longrightarrow>
     refines w (\<lambda>\<sigma>. take_bit w (sbv (getWidth e) (eval \<sigma> e))) d"
proof (induction R' e off w and R' l r and R' e w and R' e w arbitrary: a and b and c and d
    rule: ExtractExpr_create_ConcatExpr_create_ZExtExpr_create_SExtExpr_create.induct)
  case (1 R' e off w)
  note eq = "1.prems"(3) [unfolded ExtractExpr_create.simps [of R' e off w], simplified]
  have w: "0 < w" "off + w \<le> getWidth e" using eq by simp_all
  show ?case
  proof (cases "w = getWidth e")
    case True
    with eq "1.prems" show ?thesis by auto
  next
    case False
    show ?thesis
    proof (cases e)
      case (ConcatExpr l r)
      note wt = "1.prems"(2) [unfolded ConcatExpr, simplified]
      consider "getWidth r \<le> off" | "\<not> getWidth r \<le> off" "off + w \<le> getWidth r"
        | "\<not> getWidth r \<le> off" "\<not> off + w \<le> getWidth r" by blast
      then show ?thesis
      proof cases
        case 1
        with eq False ConcatExpr have "ExtractExpr_create R' l (off - getWidth r) w = Some a" by simp
        from "1.IH"(1) [OF _ False ConcatExpr 1 "1.prems"(1) _ this] wt w 1 show ?thesis
          by (simp add: ConcatExpr extract_concat_left eval_bv refines_def del: take_bit_or drop_bit_or)
      next
        case 2
        with eq False ConcatExpr have "ExtractExpr_create R' r off w = Some a" by (simp split: if_splits)
        from "1.IH"(2) [OF _ False ConcatExpr 2 "1.prems"(1) _ this] wt w 2 show ?thesis
          by (simp add: ConcatExpr extract_concat_right refines_def del: take_bit_or drop_bit_or)
      next
        case 3
        with eq False ConcatExpr obtain x y where
          x: "ExtractExpr_create R' l 0 (w + off - getWidth r) = Some x" and
          y: "ExtractExpr_create R' r off (getWidth r - off) = Some y" and
          a: "ConcatExpr_create R' x y = Some a"
          by (auto simp: option_bind_simps)
        have rx: "refines (w + off - getWidth r)
            (\<lambda>\<sigma>. take_bit (w + off - getWidth r) (drop_bit 0 (eval \<sigma> l))) x"
          using "1.IH"(3) [OF _ False ConcatExpr 3 "1.prems"(1) _ x] wt w by simp
        have ry: "refines (getWidth r - off) (\<lambda>\<sigma>. take_bit (getWidth r - off) (drop_bit off (eval \<sigma> r))) y"
          using "1.IH"(4) [OF _ False ConcatExpr 3 x "1.prems"(1) _ y] wt w by simp
        have "refines (getWidth x + getWidth y) (\<lambda>\<sigma>. push_bit (getWidth y) (eval \<sigma> x) OR eval \<sigma> y) a"
          using "1.IH"(5) [OF _ False ConcatExpr 3 x y "1.prems"(1) _ _ a] rx ry w
          by (simp add: refines_def)
        with rx ry 3 wt w show ?thesis
          using extract_concat_both [OF eval_bv, of r off w]
          by (simp add: ConcatExpr refines_def del: take_bit_or drop_bit_or)
      qed
    next
      case (CastExpr k x v)
      note wt = "1.prems"(2) [unfolded CastExpr, simplified]
      show ?thesis
      proof (cases "k = ZExt \<and> off = 0 \<and> getWidth x < w")
        case True
        with eq False CastExpr have "ZExtExpr_create R' x w = Some a" by auto
        then have "refines w (\<lambda>\<sigma>. take_bit w (eval \<sigma> x)) a"
          using "1.IH"(6) [OF _ False CastExpr] "1.prems"(1) CastExpr True wt w by auto
        with True wt w show ?thesis
          by (simp add: CastExpr refines_def take_bit_take_bit min_def)
      next
        case F: False
        with eq False CastExpr wt w show ?thesis
          by (cases k) (auto simp: refines_def take_bit_take_bit min_def take_bit_le_bv [OF eval_bv]
              sbv_low_bits split: if_splits)
      qed
    next
      case (ConstantExpr c)
      with eq False w "1.prems" show ?thesis
        by (auto simp: refines_def ConstantExpr_Extract_eq ap_wf_def)
    qed (use eq False w "1.prems" in \<open>auto simp: refines_def\<close>)
  qed
next
  case (2 R' l r)
  note eq = "2.prems"(4) [unfolded ConcatExpr_create.simps [of R' l r] Let_def]
  show ?case
  proof (cases "dyn_cast_Constant l")
    case None
    show ?thesis
    proof (cases "\<exists>e p u q v. l = ExtractExpr e p u \<and> r = ExtractExpr e q v \<and> q + v = p")
      case True
      then obtain e p u q v where lr: "l = ExtractExpr e p u" "r = ExtractExpr e q v" "q + v = p"
        by blast
      with eq have "ExtractExpr_create R' e q (getWidth l + getWidth r) = Some b" by simp
      from "2.IH"(1) [OF refl None _ refl refl _ refl refl _ "2.prems"(1) _ this] lr "2.prems"
      have "refines (getWidth l + getWidth r)
          (\<lambda>\<sigma>. take_bit (getWidth l + getWidth r) (drop_bit q (eval \<sigma> e))) b" by auto
      with lr show ?thesis by (auto simp: refines_def concat_extracts)
    next
      case False
      with eq None have "b = ConcatExpr l r" by (auto split: option.splits if_splits)
      with "2.prems" show ?thesis by auto
    qed
  next
    case (Some x)
    consider "b = ConcatExpr l r" | y where "r = ConstantExpr y" "b = ConstantExpr (ConstantExpr_Concat R' x y)"
      | "dyn_cast_Constant r = None" "ConstantExpr_isZero x = Some True"
        "ZExtExpr_create R' r (getWidth l + getWidth r) = Some b"
      using eq Some by (auto simp: option_bind_simps split: option.splits if_splits)
    then show ?thesis
    proof cases
      case 1
      with "2.prems" show ?thesis by auto
    next
      case 2
      with Some "2.prems" bv_concat [OF ap_wf_bv ap_wf_bv, of x y] show ?thesis
        by (auto simp: refines_def ConstantExpr_Concat_eq ap_wf_def)
    next
      case 3
      from "2.IH"(2) [OF refl Some 3(1,2) _ "2.prems"(1,3) _ 3(3)] "2.prems"
      have "refines (getWidth l + getWidth r) (\<lambda>\<sigma>. take_bit (getWidth l + getWidth r) (eval \<sigma> r)) b"
        by simp
      moreover have "apValue x = 0" using ConstantExpr_isZero_iff [OF _ 3(2)] Some "2.prems" by simp
      ultimately show ?thesis
        using Some "2.prems" take_bit_le_bv [OF eval_bv, of r "getWidth l + getWidth r"]
        by (simp add: refines_def)
    qed
  qed
next
  case (3 R' e w)
  note eq = "3.prems"(4) [unfolded ZExtExpr_create.simps [of R' e w]]
  consider "w < getWidth e" | "w = getWidth e" | "getWidth e < w" by linarith
  then show ?case
  proof cases
    case 1
    with eq "3.prems" "3.IH" show ?thesis by simp
  next
    case 2
    with eq "3.prems" show ?thesis by (simp add: refines_def)
  next
    case g: 3
    show ?thesis
    proof (cases e)
      case (CastExpr k x v)
      with eq g "3.prems" show ?thesis
        by (cases k) (auto simp: refines_def take_bit_le_bv [OF eval_bv] split: if_splits)
    qed (use eq g "3.prems" in \<open>auto simp: refines_def ConstantExpr_ZExt_eq ap_wf_def\<close>)
  qed
next
  case (4 R' e w)
  note eq = "4.prems"(4) [unfolded SExtExpr_create.simps [of R' e w]]
  consider "w < getWidth e" | "w = getWidth e" | "getWidth e < w" by linarith
  then show ?case
  proof cases
    case 1
    with eq "4.prems" "4.IH" show ?thesis by (simp add: sbv_low_bits)
  next
    case 2
    with eq "4.prems" show ?thesis by (simp add: refines_def sbv_low_bits)
  next
    case 3
    with eq "4.prems" show ?thesis
      by (auto simp: refines_def ConstantExpr_SExt_eq ap_wf_def
          split: expr.splits)
  qed
qed

lemmas bits_create_refines = bits_create_refines_aux [OF refl]

lemma bits_create_total_aux:
  "R' = R \<Longrightarrow> wt e \<Longrightarrow> narrow e \<Longrightarrow> 0 < w \<Longrightarrow> off + w \<le> getWidth e \<Longrightarrow>
     \<exists>a. ExtractExpr_create R' e off w = Some a \<and> narrow a"
  "R' = R \<Longrightarrow> wt l \<Longrightarrow> wt r \<Longrightarrow> narrow l \<Longrightarrow> narrow r \<Longrightarrow> getWidth l + getWidth r \<le> 64 \<Longrightarrow>
     \<exists>b. ConcatExpr_create R' l r = Some b \<and> narrow b"
  "R' = R \<Longrightarrow> wt e \<Longrightarrow> narrow e \<Longrightarrow> 0 < w \<Longrightarrow> w \<le> 64 \<Longrightarrow>
     \<exists>c. ZExtExpr_create R' e w = Some c \<and> narrow c"
  "R' = R \<Longrightarrow> wt e \<Longrightarrow> narrow e \<Longrightarrow> 0 < w \<Longrightarrow> w \<le> 64 \<Longrightarrow>
     \<exists>d. SExtExpr_create R' e w = Some d \<and> narrow d"
proof (induction R' e off w and R' l r and R' e w and R' e w
    rule: ExtractExpr_create_ConcatExpr_create_ZExtExpr_create_SExtExpr_create.induct)
  case (1 R' e off w)
  note p = "1.prems"
  have w64: "w \<le> 64" "getWidth e \<le> 64" using narrow_width [OF p(3)] p(5) by linarith+
  show ?case
  proof (cases "w = getWidth e")
    case True
    with p show ?thesis by (subst ExtractExpr_create.simps) simp
  next
    case False
    show ?thesis
    proof (cases e)
      case (ConcatExpr l r)
      note wt = p(2,3) [unfolded ConcatExpr, simplified]
      consider "getWidth r \<le> off" | "\<not> getWidth r \<le> off" "off + w \<le> getWidth r"
        | "\<not> getWidth r \<le> off" "\<not> off + w \<le> getWidth r" by blast
      then show ?thesis
      proof cases
        case 1
        with "1.IH"(1) [OF _ False ConcatExpr 1 p(1)] wt p False show ?thesis
          by (subst ExtractExpr_create.simps) (auto simp: ConcatExpr)
      next
        case 2
        with "1.IH"(2) [OF _ False ConcatExpr 2 p(1)] wt p False show ?thesis
          by (subst ExtractExpr_create.simps) (auto simp: ConcatExpr)
      next
        case 3
        have bounds: "0 < w + off - getWidth r" "0 + (w + off - getWidth r) \<le> getWidth l"
          "0 < getWidth r - off" "off + (getWidth r - off) \<le> getWidth r"
          using 3 p(4,5) by (auto simp: ConcatExpr)
        obtain x where x: "ExtractExpr_create R' l 0 (w + off - getWidth r) = Some x" "narrow x"
          using "1.IH"(3) [OF _ False ConcatExpr 3 p(1) _ _ bounds(1,2)] wt p by auto
        obtain y where y: "ExtractExpr_create R' r off (getWidth r - off) = Some y" "narrow y"
          using "1.IH"(4) [OF _ False ConcatExpr 3 x(1) p(1) _ _ bounds(3,4)] wt p by auto
        have "wt x" "wt y" "getWidth x + getWidth y \<le> 64"
          using bits_create_refines(1) [of l, OF _ x(1) [unfolded p(1)]]
            bits_create_refines(1) [of r, OF _ y(1) [unfolded p(1)]] wt p 3 w64
          by (auto simp: refines_def)
        with "1.IH"(5) [OF _ False ConcatExpr 3 x(1) y(1) p(1)] x y p 3 False show ?thesis
          by (subst ExtractExpr_create.simps) (auto simp: ConcatExpr)
      qed
    next
      case (CastExpr k x v)
      note wt = p(2,3) [unfolded CastExpr, simplified]
      show ?thesis
        using "1.IH"(6) [OF _ False CastExpr] p wt w64 False
        by (subst ExtractExpr_create.simps) (cases k, auto simp: CastExpr)
    next
      case (ConstantExpr c)
      with p w64 False show ?thesis
        by (subst ExtractExpr_create.simps) (auto simp: ConstantExpr_Extract_eq)
    qed (use p w64 False in \<open>subst ExtractExpr_create.simps; auto\<close>)+
  qed
next
  case (2 R' l r)
  note p = "2.prems"
  show ?case
  proof (cases "dyn_cast_Constant l")
    case None
    show ?thesis
    proof (cases "\<exists>e p u q v. l = ExtractExpr e p u \<and> r = ExtractExpr e q v \<and> q + v = p")
      case True
      then obtain e p u q v where lr: "l = ExtractExpr e p u" "r = ExtractExpr e q v" "q + v = p"
        by blast
      from lr p "2.IH"(1) [OF refl None _ refl refl _ refl refl]
      have "\<exists>b. ExtractExpr_create R' e q (getWidth l + getWidth r) = Some b \<and> narrow b" by auto
      with lr show ?thesis by (subst ConcatExpr_create.simps) auto
    next
      case False
      with None p show ?thesis
        by (subst ConcatExpr_create.simps) (auto simp: Let_def split: option.splits)
    qed
  next
    case (Some x)
    with p obtain z where z: "ConstantExpr_isZero x = Some z"
      using constant_predicates_narrow(1) [of x] by auto
    show ?thesis
    proof (cases "dyn_cast_Constant r")
      case None
      with Some z p "2.IH"(2) [OF refl Some None z _ p(1)] show ?thesis
        by (subst ConcatExpr_create.simps) auto
    next
      case s: (Some y)
      with Some p show ?thesis
        by (subst ConcatExpr_create.simps) (auto simp: ConstantExpr_Concat_eq)
    qed
  qed
next
  case (3 R' e w)
  then show ?case
    by (subst ZExtExpr_create.simps) (cases e, auto simp: ConstantExpr_ZExt_eq split: ckind.splits)
next
  case (4 R' e w)
  then show ?case
    by (subst SExtExpr_create.simps) (cases e, auto simp: ConstantExpr_SExt_eq)
qed

lemmas bits_create_total = bits_create_total_aux [OF refl]

end

section \<open>Properties\<close>

text \<open>
  C22. \<^verbatim>\<open>ExtractExpr::create\<close> is correct: for a range of bits inside a well-typed expression of at most
  64 bits no assertion fails, and whatever it pushes the extraction through, the result is well
  typed, has the width asked for and under every assignment is those bits of the expression.
\<close>

theorem ExtractExpr_create_correct:
  assumes "klee_rt_laws R" "wt e" "narrow e" "0 < w" "off + w \<le> getWidth e"
  shows "\<exists>a. ExtractExpr_create R e off w = Some a \<and> wt a \<and> narrow a \<and> getWidth a = w
    \<and> (\<forall>\<sigma>. eval \<sigma> a = take_bit w (drop_bit off (eval \<sigma> e)))"
  using klee_rt_laws.bits_create_total(1) [OF assms] klee_rt_laws.bits_create_refines(1) [OF assms(1,2)]
  by (fastforce simp: refines_def)

theorem ExtractExpr_create_correct_witness:
  "\<exists>a. ExtractExpr_create klee_rt_ref (ConcatExpr (ConstantExpr (APInt 8 18)) (NotOptimizedExpr (ConstantExpr (APInt 8 52)))) 4 8 = Some a
    \<and> wt a \<and> narrow a \<and> getWidth a = 8 \<and> (\<forall>\<sigma>. eval \<sigma> a = 35)"
  using ExtractExpr_create_correct [OF klee_rt_ref_laws,
      of "ConcatExpr (ConstantExpr (APInt 8 18)) (NotOptimizedExpr (ConstantExpr (APInt 8 52)))" 8 4]
  by (simp add: ap_wf_def bv_def)

text \<open>
  C23. \<^verbatim>\<open>ConcatExpr::create\<close> is correct: on well-typed operands of at most 64 bits together it returns
  a well-typed expression of the sum of the widths whose bits are those of the left operand above
  those of the right one, also when it folds constants, turns a zero on the left into a zero
  extension or merges two adjacent extractions.
\<close>

theorem ConcatExpr_create_correct:
  assumes "klee_rt_laws R" "wt l" "wt r" "narrow l" "narrow r" "getWidth l + getWidth r \<le> 64"
  shows "\<exists>a. ConcatExpr_create R l r = Some a \<and> wt a \<and> narrow a \<and> getWidth a = getWidth l + getWidth r
    \<and> (\<forall>\<sigma>. eval \<sigma> a = push_bit (getWidth r) (eval \<sigma> l) OR eval \<sigma> r)"
  using klee_rt_laws.bits_create_total(2) [OF assms] klee_rt_laws.bits_create_refines(2) [OF assms(1-3)]
  by (fastforce simp: refines_def)

theorem ConcatExpr_create_correct_witness:
  "\<exists>a. ConcatExpr_create klee_rt_ref (ConstantExpr (APInt 8 0)) (NotOptimizedExpr (ConstantExpr (APInt 8 52))) = Some a
    \<and> wt a \<and> narrow a \<and> getWidth a = 16 \<and> (\<forall>\<sigma>. eval \<sigma> a = 52)"
  using ConcatExpr_create_correct [OF klee_rt_ref_laws,
      of "ConstantExpr (APInt 8 0)" "NotOptimizedExpr (ConstantExpr (APInt 8 52))"]
  by (simp add: ap_wf_def bv_def)

text \<open>
  C24. The casts are correct: \<^verbatim>\<open>ZExtExpr::create\<close> and \<^verbatim>\<open>SExtExpr::create\<close> to any width from 1 to 64 return
  a well-typed expression of that width, whose value is the operand cut to the width or extended
  with zeros, respectively with copies of its sign bit.
\<close>

theorem casts_correct:
  assumes "klee_rt_laws R" "wt e" "narrow e" "0 < w" "w \<le> 64"
  shows "(\<exists>a. ZExtExpr_create R e w = Some a \<and> wt a \<and> narrow a \<and> getWidth a = w
      \<and> (\<forall>\<sigma>. eval \<sigma> a = take_bit w (eval \<sigma> e)))
    \<and> (\<exists>a. SExtExpr_create R e w = Some a \<and> wt a \<and> narrow a \<and> getWidth a = w
      \<and> (\<forall>\<sigma>. eval \<sigma> a = take_bit w (sbv (getWidth e) (eval \<sigma> e))))"
  using klee_rt_laws.bits_create_total(3,4) [OF assms] klee_rt_laws.bits_create_refines(3,4) [OF assms(1,2,4)]
  by (fastforce simp: refines_def)

theorem casts_correct_witness:
  "(\<exists>a. ZExtExpr_create klee_rt_ref (ConstantExpr (APInt 8 200)) 16 = Some a \<and> wt a \<and> narrow a \<and> getWidth a = 16
      \<and> (\<forall>\<sigma>. eval \<sigma> a = 200))
    \<and> (\<exists>a. SExtExpr_create klee_rt_ref (ConstantExpr (APInt 8 200)) 16 = Some a \<and> wt a \<and> narrow a \<and> getWidth a = 16
      \<and> (\<forall>\<sigma>. eval \<sigma> a = 65480))"
  using casts_correct [OF klee_rt_ref_laws, of "ConstantExpr (APInt 8 200)" 16]
  by (simp add: ap_wf_def bv_def sbv_def signed_take_bit_eq_if_negative)

text \<open>
  The branch of \<^verbatim>\<open>ExtractExpr::create\<close> meant to fold an extraction above the operand of a zero extension
  to zero is never reached: such an extraction stays as it is.
\<close>

lemma extract_above_zext_not_folded:
  assumes "getWidth x \<le> off" "0 < off" "0 < w" "off + w \<le> v"
  shows "ExtractExpr_create R (ZExtExpr x v) off w = Some (ExtractExpr (ZExtExpr x v) off w)"
  using assms by (subst ExtractExpr_create.simps) auto

end
