(* ===== verification/ExprBool.thy ===== *)
theory ExprBool
  imports ExprBits
begin

text \<open>
  The simplifying constructors of the boolean core: \<^verbatim>\<open>AndExpr::create\<close>, \<^verbatim>\<open>OrExpr::create\<close>,
  \<^verbatim>\<open>EqExpr::create\<close> and \<^verbatim>\<open>XorExpr::create\<close> with the static functions behind them, and \<^verbatim>\<open>Expr::createIsZero\<close>
  (\<^verbatim>\<open>src/klee/lib/Expr/Expr.cpp\<close>). The function that the macro \<^verbatim>\<open>BCREATE_R\<close> or \<^verbatim>\<open>CMPCREATE_T\<close> makes of a
  class is \<^verbatim>\<open>X_create\<close>; the static function \<^verbatim>\<open>X_create\<close> of the source, for two operands that are not
  constants, is \<^verbatim>\<open>static_X_create\<close>.
\<close>

section \<open>And\<close>

definition AndExpr_createPartial :: "expr \<Rightarrow> apint \<Rightarrow> expr option" where
  "AndExpr_createPartial l cr =
     do { ones \<leftarrow> ConstantExpr_isAllOnes cr;
          if ones then Some l
          else do { z \<leftarrow> ConstantExpr_isZero cr;
                    if z then Some (ConstantExpr cr) else Some (AndExpr l (ConstantExpr cr)) } }"

definition AndExpr_createPartialR :: "apint \<Rightarrow> expr \<Rightarrow> expr option" where
  "AndExpr_createPartialR cl r = AndExpr_createPartial r cl"

text \<open>
  The absorption step of \<^verbatim>\<open>AndExpr_create\<close> and \<^verbatim>\<open>OrExpr_create\<close>: if \<^verbatim>\<open>e\<close> has the kind \<^verbatim>\<open>k\<close> and one operand
  is the negation of \<^verbatim>\<open>x\<close>, the other operand.
\<close>

definition absorb :: "bkind \<Rightarrow> expr \<Rightarrow> expr \<Rightarrow> expr option option" where
  "absorb k e x =
     (case dyn_cast_Binary k e of
        None \<Rightarrow> Some None
      | Some (a, b) \<Rightarrow>
          do { na \<leftarrow> isNegationOf a x;
               if na then Some (Some b)
               else do { nb \<leftarrow> isNegationOf b x; Some (if nb then Some a else None) } })"

lemma absorb_size: "absorb k e x = Some (Some y) \<Longrightarrow> size y < size e"
  by (auto simp: absorb_def option_bind_simps split: option.splits if_splits)

function AndExpr_create :: "klee_rt \<Rightarrow> expr \<Rightarrow> expr \<Rightarrow> expr option"
  and static_AndExpr_create :: "klee_rt \<Rightarrow> expr \<Rightarrow> expr \<Rightarrow> expr option" where
  "AndExpr_create R l r =
     do { require (getWidth l = getWidth r);
          case dyn_cast_Constant l of
            Some cl \<Rightarrow>
              (case dyn_cast_Constant r of
                 Some cr \<Rightarrow> Some (ConstantExpr (ConstantExpr_binop R And cl cr))
               | None \<Rightarrow> AndExpr_createPartialR cl r)
          | None \<Rightarrow>
              (case dyn_cast_Constant r of
                 Some cr \<Rightarrow> AndExpr_createPartial l cr
               | None \<Rightarrow> static_AndExpr_create R l r) }"
| "static_AndExpr_create R l r =
     do { n \<leftarrow> isNegationOf l r;
          if n then map_option ConstantExpr (ConstantExpr_create R 0 Bool)
          else do { al \<leftarrow> absorb Or l r;
                    case al of
                      Some b \<Rightarrow> AndExpr_create R b r
                    | None \<Rightarrow>
                        do { ar \<leftarrow> absorb Or r l;
                             case ar of
                               Some b \<Rightarrow> AndExpr_create R l b
                             | None \<Rightarrow> Some (AndExpr l r) } } }"
  by pat_completeness auto

termination AndExpr_create
  by (relation "measures [\<lambda>x. case x of Inl (R, l, r) \<Rightarrow> size l + size r | Inr (R, l, r) \<Rightarrow> size l + size r,
        \<lambda>x. case x of Inl _ \<Rightarrow> 1 | Inr _ \<Rightarrow> 0]")
    (auto dest: absorb_size)

declare AndExpr_create.simps [simp del] static_AndExpr_create.simps [simp del]

text \<open>A negation is boolean, and so is what absorption leaves.\<close>

lemma Expr_isZero_eval: "Expr_isZero e = Some True \<Longrightarrow> wt e \<Longrightarrow> eval \<sigma> e = 0"
  by (cases e) (auto dest: ConstantExpr_isZero_iff)

lemma isIsZeroOf_eval:
  assumes "isIsZeroOf a b = Some True" "wt a"
  shows "getWidth a = Bool" "eval \<sigma> a = of_bool (eval \<sigma> b = 0)"
  using assms
  by (induction a b rule: isIsZeroOf.induct)
    (auto simp: option_bind_simps Expr_isZero_eval dest: Expr_isZero_eval [of _ \<sigma>])

lemma isNegationOf_eval:
  assumes "isNegationOf a b = Some True" "wt a" "wt b" "getWidth a = getWidth b"
  shows "getWidth b = Bool" "eval \<sigma> a = of_bool (eval \<sigma> b = 0)"
proof -
  consider "isIsZeroOf a b = Some True" | "isIsZeroOf b a = Some True"
    using assms(1) by (auto simp: isNegationOf_def option_bind_simps split: if_splits)
  then show "getWidth b = Bool" using assms isIsZeroOf_eval(1) by cases auto
  then have "getWidth a = Bool" using assms by simp
  with \<open>wt a\<close> show "eval \<sigma> a = of_bool (eval \<sigma> b = 0)"
    by (rule eval_Bool_cases [of a \<sigma>]; use assms isIsZeroOf_eval(2) [of a b \<sigma>] isIsZeroOf_eval(2) [of b a \<sigma>] in
      \<open>auto simp: isNegationOf_def option_bind_simps split: if_splits\<close>)
qed

lemma absorb_eval:
  assumes "absorb k e x = Some (Some y)" "wt e" "wt x" "getWidth e = getWidth x" "k \<in> {And, Or}"
  shows "wt y" "getWidth x = Bool" "getWidth y = Bool"
    "eval \<sigma> e = eval_binary k Bool (of_bool (eval \<sigma> x = 0)) (eval \<sigma> y)"
proof -
  obtain a b where e: "e = BinaryExpr k a b"
    using assms(1) by (auto simp: absorb_def split: option.splits)
  have k: "\<not> is_cmp k" using assms(5) by auto
  consider "isNegationOf a x = Some True" "y = b" | "isNegationOf b x = Some True" "y = a"
    using assms(1) by (auto simp: absorb_def e option_bind_simps split: if_splits)
  then show "wt y" "getWidth x = Bool" "getWidth y = Bool"
    "eval \<sigma> e = eval_binary k Bool (of_bool (eval \<sigma> x = 0)) (eval \<sigma> y)"
    using isNegationOf_eval [of a x] isNegationOf_eval [of b x] assms(2-5) k
    by (cases; auto simp: e ac_simps)+
qed

lemma AndExpr_create_width:
  "AndExpr_create R l r = Some e \<Longrightarrow> getWidth l = getWidth r"
  by (subst (asm) AndExpr_create.simps) simp

lemma and_mask: "bv w a \<Longrightarrow> a AND (2 ^ w - 1) = (a :: int)" "bv w a \<Longrightarrow> (2 ^ w - 1) AND a = (a :: int)"
  by (simp_all add: take_bit_bv flip: take_bit_eq_mask mask_eq_exp_minus_1)
    (simp add: take_bit_bv and.commute flip: take_bit_eq_mask mask_eq_exp_minus_1)

lemma or_mask: "bv w a \<Longrightarrow> a OR (2 ^ w - 1) = (2 ^ w - 1 :: int)"
  by (rule bit_eqI) (auto simp: bit_simps mask_eq_exp_minus_1 [symmetric] dest: bv_bitD)

lemma AndExpr_createPartial_refines:
  assumes "wt l" "ap_wf cr" "getWidth l = getBitWidth cr" "AndExpr_createPartial l cr = Some e"
  shows "refines (getWidth l) (\<lambda>\<sigma>. eval \<sigma> l AND apValue cr) e"
  using assms eval_bv [OF \<open>wt l\<close>]
  by (auto simp: AndExpr_createPartial_def option_bind_simps refines_def and_mask
      dest: ConstantExpr_isAllOnes_iff ConstantExpr_isZero_iff split: if_splits)

lemma isNegationOf_total:
  assumes "wt a" "wt b" "narrow a" "narrow b"
  shows "\<exists>n. isNegationOf a b = Some n"
proof -
  have z: "\<exists>z. Expr_isZero e = Some z" if "wt e" "narrow e" for e
    using that constant_predicates_narrow by (cases e) auto
  have i: "\<exists>z. isIsZeroOf x y = Some z" if "wt x" "narrow x" for x y
    using that z by (induction x y rule: isIsZeroOf.induct) fastforce+
  show ?thesis using i [of a b] i [of b a] assms by (auto simp: isNegationOf_def)
qed

lemma absorb_total:
  assumes "wt e" "wt x" "narrow e" "narrow x"
  shows "\<exists>y. absorb k e x = Some y"
proof (cases "dyn_cast_Binary k e")
  case (Some ab)
  with assms isNegationOf_total [of "fst ab" x] isNegationOf_total [of "snd ab" x] show ?thesis
    by (cases ab) (auto simp: absorb_def)
qed (simp add: absorb_def)

lemma absorb_narrow: "absorb k e x = Some (Some y) \<Longrightarrow> narrow e \<Longrightarrow> narrow y"
  by (auto simp: absorb_def option_bind_simps split: option.splits if_splits)

lemma AndExpr_createPartial_total:
  assumes "wt l" "narrow l" "ap_wf cr" "getBitWidth cr \<le> 64"
  shows "\<exists>e. AndExpr_createPartial l cr = Some e \<and> narrow e"
  using constant_predicates_narrow [OF assms(3,4)] assms by (auto simp: AndExpr_createPartial_def)

declare ConstantExpr_binop.simps [simp del]

context klee_rt_laws
begin

lemma ConstantExpr_binop_refines:
  assumes "ap_wf x" "ap_wf y" "getBitWidth x = getBitWidth y"
    "k \<in> {UDiv, SDiv, URem, SRem} \<Longrightarrow> apValue y \<noteq> 0"
  shows "refines (if is_cmp k then Bool else getBitWidth y)
    (\<lambda>\<sigma>. eval_binary k (getBitWidth y) (apValue x) (apValue y)) (ConstantExpr (ConstantExpr_binop R k x y))"
proof -
  have same: "ap_same x y" using assms by (simp add: ap_same_def)
  have "ConstantExpr_binop R k x y = APInt (if is_cmp k then Bool else getBitWidth x)
      (eval_binary k (getBitWidth x) (apValue x) (apValue y))"
    by (rule ConstantExpr_binop_eq [OF same assms(4)])
  then show ?thesis
    using assms(1-3) eval_binary_bv [of "getBitWidth y" "apValue x" "apValue y" k]
    by (simp add: refines_def ap_wf_def split: if_splits)
qed

lemma and_create_refines_aux:
  "R' = R \<Longrightarrow> wt l \<Longrightarrow> wt r \<Longrightarrow> AndExpr_create R' l r = Some e \<Longrightarrow>
     refines (getWidth l) (\<lambda>\<sigma>. eval \<sigma> l AND eval \<sigma> r) e"
  "R' = R \<Longrightarrow> wt l \<Longrightarrow> wt r \<Longrightarrow> getWidth l = getWidth r \<Longrightarrow> static_AndExpr_create R' l r = Some e \<Longrightarrow>
     refines (getWidth l) (\<lambda>\<sigma>. eval \<sigma> l AND eval \<sigma> r) e"
proof (induction R' l r and R' l r arbitrary: e and e rule: AndExpr_create_static_AndExpr_create.induct)
  case (1 R' l r)
  note p = "1.prems"
  note e = p(4) [unfolded p(1) AndExpr_create.simps [of R l r]]
  have w: "getWidth l = getWidth r" by (rule AndExpr_create_width [OF p(4)])
  show ?case
  proof (cases "dyn_cast_Constant l"; cases "dyn_cast_Constant r")
    assume c: "dyn_cast_Constant l = None" "dyn_cast_Constant r = None"
    with p(1-3) e w show ?thesis
      by (intro "1.IH" [OF _ c]) auto
  qed (use p(1-3) e w in \<open>auto simp: AndExpr_createPartialR_def and.commute
        dest: AndExpr_createPartial_refines intro: ConstantExpr_binop_refines [where k = And, simplified]\<close>)
next
  case (2 R' l r)
  note p = "2.prems"
  note [simp] = p(1)
  have bit: "(of_bool (eval \<sigma> x = 0) OR a) AND eval \<sigma> x = a AND eval \<sigma> x"
    "eval \<sigma> x AND (of_bool (eval \<sigma> x = 0) OR a) = eval \<sigma> x AND a"
    if "wt x" "getWidth x = Bool" for \<sigma> x a
    by (rule eval_Bool_cases [OF that, of \<sigma>]; simp)+
  obtain n where n: "isNegationOf l r = Some n"
    using p(5) by (auto simp: static_AndExpr_create.simps [of R l r] option_bind_simps)
  show ?case
  proof (cases n)
    case True
    with p n isNegationOf_eval [of l r] show ?thesis
      by (auto simp: static_AndExpr_create.simps [of R l r] create_0 refines_def ap_wf_def)
  next
    case False
    obtain al where al: "absorb Or l r = Some al"
      using p(5) n False by (auto simp: static_AndExpr_create.simps [of R l r] option_bind_simps)
    show ?thesis
    proof (cases al)
      case (Some b)
      note ab = absorb_eval [OF al [unfolded Some] p(2,3,4)]
      have "AndExpr_create R' b r = Some e"
        using p(5) n False al Some by (simp add: static_AndExpr_create.simps [of R l r])
      with "2.IH"(2) [OF n _ al Some p(1)] p ab False bit show ?thesis by (auto simp: refines_def)
    next
      case None
      obtain ar where ar: "absorb Or r l = Some ar"
        using p(5) n False al None by (auto simp: static_AndExpr_create.simps [of R l r] option_bind_simps)
      show ?thesis
      proof (cases ar)
        case (Some b)
        note ab = absorb_eval [OF ar [unfolded Some] p(3,2) p(4) [symmetric]]
        have "AndExpr_create R' l b = Some e"
          using p(5) n False al None ar Some by (simp add: static_AndExpr_create.simps [of R l r])
        with "2.IH"(1) [OF n _ al None ar Some p(1)] p ab False bit show ?thesis by (auto simp: refines_def)
      next
        case None': None
        with p n False al None ar show ?thesis
          by (auto simp: static_AndExpr_create.simps [of R l r] refines_def)
      qed
    qed
  qed
qed

lemmas and_create_refines = and_create_refines_aux [OF refl]

lemma and_create_total_aux:
  "R' = R \<Longrightarrow> wt l \<Longrightarrow> wt r \<Longrightarrow> narrow l \<Longrightarrow> narrow r \<Longrightarrow> getWidth l = getWidth r \<Longrightarrow>
     \<exists>e. AndExpr_create R' l r = Some e \<and> narrow e"
  "R' = R \<Longrightarrow> wt l \<Longrightarrow> wt r \<Longrightarrow> narrow l \<Longrightarrow> narrow r \<Longrightarrow> getWidth l = getWidth r \<Longrightarrow>
     \<exists>e. static_AndExpr_create R' l r = Some e \<and> narrow e"
proof (induction R' l r and R' l r rule: AndExpr_create_static_AndExpr_create.induct)
  case (1 R' l r)
  note p = "1.prems"
  show ?case
  proof (cases "dyn_cast_Constant l"; cases "dyn_cast_Constant r")
    assume c: "dyn_cast_Constant l = None" "dyn_cast_Constant r = None"
    with p "1.IH" [OF _ c] show ?thesis by (auto simp: AndExpr_create.simps [of R l r])
  next
    fix cl cr assume "dyn_cast_Constant l = Some cl" "dyn_cast_Constant r = Some cr"
    with p ConstantExpr_binop_refines [of cl cr And] show ?thesis
      by (subst AndExpr_create.simps) (auto simp: refines_def)
  next
    fix cr assume "dyn_cast_Constant l = None" "dyn_cast_Constant r = Some cr"
    with p AndExpr_createPartial_total [of l cr] show ?thesis
      by (subst AndExpr_create.simps) auto
  next
    fix cl assume "dyn_cast_Constant l = Some cl" "dyn_cast_Constant r = None"
    with p AndExpr_createPartial_total [of r cl] show ?thesis
      by (subst AndExpr_create.simps) (auto simp: AndExpr_createPartialR_def)
  qed
next
  case (2 R' l r)
  note p = "2.prems"
  obtain n where n: "isNegationOf l r = Some n" using isNegationOf_total [of l r] p by auto
  obtain al where al: "absorb Or l r = Some al" using absorb_total [of l r Or] p by auto
  obtain ar where ar: "absorb Or r l = Some ar" using absorb_total [of r l Or] p by auto
  show ?case
  proof (cases n)
    case True
    with n p show ?thesis by (subst static_AndExpr_create.simps) (auto simp: create_0)
  next
    case False
    show ?thesis
    proof (cases al)
      case (Some b)
      note ab = absorb_eval(1,3) [OF al [unfolded Some] p(2,3,6)] absorb_narrow [OF al [unfolded Some] p(4)]
        absorb_eval(2) [OF al [unfolded Some] p(2,3,6)]
      with "2.IH"(2) [OF n _ al Some p(1)] False p n al Some show ?thesis
        by (subst static_AndExpr_create.simps) auto
    next
      case None
      show ?thesis
      proof (cases ar)
        case (Some b)
        note ab = absorb_eval(1,3) [OF ar [unfolded Some] p(3,2) p(6) [symmetric]]
          absorb_narrow [OF ar [unfolded Some] p(5)] absorb_eval(2) [OF ar [unfolded Some] p(3,2) p(6) [symmetric]]
        with "2.IH"(1) [OF n _ al None ar Some p(1)] False p n al None ar Some show ?thesis
          by (subst static_AndExpr_create.simps) auto
      qed (use False p n al None ar in \<open>subst static_AndExpr_create.simps; auto\<close>)
    qed
  qed
qed

lemmas and_create_total = and_create_total_aux [OF refl]

end

end
