(* ===== verification/ExprEq.thy ===== *)
theory ExprEq
  imports ExprBool
begin

text \<open>
  Equality, disjunction and exclusive or: \<^verbatim>\<open>EqExpr::create\<close>, \<^verbatim>\<open>OrExpr::create\<close>, \<^verbatim>\<open>XorExpr::create\<close>, the
  static functions behind them, \<^verbatim>\<open>TryConstArrayOpt\<close> and \<^verbatim>\<open>Expr::createIsZero\<close>
  (\<^verbatim>\<open>src/klee/lib/Expr/Expr.cpp\<close>). They call each other: a disjunction of two negations is the
  negation of a conjunction, the negation of a disjunction is a conjunction of negations, and the
  equality of a constant with a read from a constant array is a disjunction of equalities.
\<close>

section \<open>The operations\<close>

text \<open>
  More \<^verbatim>\<open>dyn_cast\<close>s; the last one is the test for a sum or difference whose left operand is a
  constant.
\<close>

fun dyn_cast_Cast :: "ckind \<Rightarrow> expr \<Rightarrow> (expr \<times> width) option" where
  "dyn_cast_Cast k (CastExpr k' e w) = (if k = k' then Some (e, w) else None)"
| "dyn_cast_Cast k _ = None"

fun dyn_cast_Read :: "expr \<Rightarrow> (klee_array \<times> update_node \<times> expr) option" where
  "dyn_cast_Read (ReadExpr a u i) = Some (a, u, i)"
| "dyn_cast_Read _ = None"

fun dyn_cast_constant_left :: "bkind \<Rightarrow> expr \<Rightarrow> (apint \<times> expr) option" where
  "dyn_cast_constant_left k (BinaryExpr k' (ConstantExpr c) r) = (if k = k' then Some (c, r) else None)"
| "dyn_cast_constant_left k _ = None"

lemma dyn_cast_simps_more [simp]:
  "dyn_cast_Cast k e = Some x \<longleftrightarrow> e = CastExpr k (fst x) (snd x)"
  "dyn_cast_Read e = Some y \<longleftrightarrow> e = ReadExpr (fst y) (fst (snd y)) (snd (snd y))"
  by (cases e; auto)+

lemma dyn_cast_constant_left_Some [simp]:
  "dyn_cast_constant_left k e = Some z \<longleftrightarrow> e = BinaryExpr k (ConstantExpr (fst z)) (snd z)"
  by (induction k e rule: dyn_cast_constant_left.induct) auto

definition static_EqExpr_create :: "klee_rt \<Rightarrow> expr \<Rightarrow> expr \<Rightarrow> expr" where
  "static_EqExpr_create R l r =
     (if l = r then ConstantExpr (ConstantExpr_alloc R 1 Bool) else EqExpr l r)"

definition OrExpr_createPartial :: "expr \<Rightarrow> apint \<Rightarrow> expr option" where
  "OrExpr_createPartial l cr =
     do { ones \<leftarrow> ConstantExpr_isAllOnes cr;
          if ones then Some (ConstantExpr cr)
          else do { z \<leftarrow> ConstantExpr_isZero cr;
                    Some (if z then l else OrExpr l (ConstantExpr cr)) } }"

definition OrExpr_createPartialR :: "apint \<Rightarrow> expr \<Rightarrow> expr option" where
  "OrExpr_createPartialR cl r = OrExpr_createPartial r cl"

text \<open>The short-circuit \<^verbatim>\<open>&&\<close> of two tests that may fail an assertion.\<close>

definition and_also :: "bool option \<Rightarrow> bool option \<Rightarrow> bool option" where
  "and_also a b = do { x \<leftarrow> a; if x then b else Some False }"

text \<open>
  Two tests of \<^verbatim>\<open>OrExpr_create\<close>: whether the operands are negations of boolean expressions, with
  these expressions, and whether one is the disjunction of the negated operands of the other.
\<close>

definition negated_pair :: "expr \<Rightarrow> expr \<Rightarrow> (expr \<times> expr) option option" where
  "negated_pair l r =
     (case dyn_cast_Binary Eq l of
        None \<Rightarrow> Some None
      | Some (le_left, le_right) \<Rightarrow>
          (case dyn_cast_Binary Eq r of
             None \<Rightarrow> Some None
           | Some (re_left, re_right) \<Rightarrow>
               do { z \<leftarrow> and_also (Expr_isZero le_left) (Expr_isZero re_left);
                    Some (if z \<and> getWidth le_right = Bool \<and> getWidth re_right = Bool
                          then Some (le_right, re_right) else None) }))"

definition complementary :: "expr \<Rightarrow> expr \<Rightarrow> bool option" where
  "complementary oe ae =
     (case dyn_cast_Binary Or oe of
        None \<Rightarrow> Some False
      | Some (oe_left, oe_right) \<Rightarrow>
          (case dyn_cast_Binary And ae of
             None \<Rightarrow> Some False
           | Some (ae_left, ae_right) \<Rightarrow>
               do { b \<leftarrow> and_also (isNegationOf ae_left oe_left) (isNegationOf ae_right oe_right);
                    if b then Some True
                    else and_also (isNegationOf ae_left oe_right) (isNegationOf ae_right oe_left) }))"

text \<open>
  In \<^verbatim>\<open>EqExpr_createPartialR\<close> the operands of a boolean disjunction are boolean, since \<^verbatim>\<open>OrExpr::create\<close>
  asserts that its operands have one width; the model stops at a node where they are not. An
  access past the end of \<^verbatim>\<open>constantValues\<close> is undefined behaviour and stops the loop.
\<close>

function (sequential)
  EqExpr_create :: "klee_rt \<Rightarrow> expr \<Rightarrow> expr \<Rightarrow> expr option"
  and createIsZero :: "klee_rt \<Rightarrow> expr \<Rightarrow> expr option"
  and EqExpr_createPartialR :: "klee_rt \<Rightarrow> apint \<Rightarrow> expr \<Rightarrow> expr option"
  and TryConstArrayOpt :: "klee_rt \<Rightarrow> apint \<Rightarrow> klee_array \<Rightarrow> update_node \<Rightarrow> expr \<Rightarrow> expr option"
  and TryConstArrayOpt_loop ::
    "klee_rt \<Rightarrow> apint \<Rightarrow> klee_array \<Rightarrow> update_node \<Rightarrow> expr \<Rightarrow> nat \<Rightarrow> nat \<Rightarrow> expr \<Rightarrow> expr option"
  and OrExpr_create :: "klee_rt \<Rightarrow> expr \<Rightarrow> expr \<Rightarrow> expr option"
  and static_OrExpr_create :: "klee_rt \<Rightarrow> expr \<Rightarrow> expr \<Rightarrow> expr option" where
  "EqExpr_create R l r =
     do { require (getWidth l = getWidth r);
          case dyn_cast_Constant l of
            Some cl \<Rightarrow>
              (case dyn_cast_Constant r of
                 Some cr \<Rightarrow> Some (ConstantExpr (ConstantExpr_binop R Eq cl cr))
               | None \<Rightarrow> EqExpr_createPartialR R cl r)
          | None \<Rightarrow>
              (case dyn_cast_Constant r of
                 Some cr \<Rightarrow> EqExpr_createPartialR R cr l
               | None \<Rightarrow> Some (static_EqExpr_create R l r)) }"
| "createIsZero R e =
     do { z \<leftarrow> ConstantExpr_create R 0 (getWidth e); EqExpr_create R e (ConstantExpr z) }"
| "EqExpr_createPartialR R cl r =
     (if getBitWidth cl = Bool then
        do { t \<leftarrow> ConstantExpr_isTrue cl;
             if t then Some r
             else (case dyn_cast_Binary Eq r of
                 Some (ree_left, ree_right) \<Rightarrow>
                   (case dyn_cast_Constant ree_left of
                      Some CE \<Rightarrow>
                        do { f \<leftarrow> and_also (Some (getBitWidth CE = Bool)) (ConstantExpr_isFalse CE);
                             Some (if f then ree_right else static_EqExpr_create R (ConstantExpr cl) r) }
                    | None \<Rightarrow> Some (static_EqExpr_create R (ConstantExpr cl) r))
               | None \<Rightarrow>
                   (case dyn_cast_Binary Or r of
                      Some (roe_left, roe_right) \<Rightarrow>
                        do { require (getWidth roe_left = Bool \<and> getWidth roe_right = Bool);
                             x \<leftarrow> createIsZero R roe_left;
                             y \<leftarrow> createIsZero R roe_right;
                             AndExpr_create R x y }
                    | None \<Rightarrow> Some (static_EqExpr_create R (ConstantExpr cl) r))) }
      else (case dyn_cast_Cast SExt r of
          Some (src, w) \<Rightarrow>
            (let trunc = ConstantExpr_ZExt R cl (getWidth src) in
             if cl = ConstantExpr_SExt R trunc (getBitWidth cl) then EqExpr_create R src (ConstantExpr trunc)
             else map_option ConstantExpr (ConstantExpr_create R 0 Bool))
        | None \<Rightarrow> (case dyn_cast_Cast ZExt r of
          Some (src, w) \<Rightarrow>
            (let trunc = ConstantExpr_ZExt R cl (getWidth src) in
             if cl = ConstantExpr_ZExt R trunc (getBitWidth cl) then EqExpr_create R src (ConstantExpr trunc)
             else map_option ConstantExpr (ConstantExpr_create R 0 Bool))
        | None \<Rightarrow> (case dyn_cast_constant_left Add r of
          Some (c1, b) \<Rightarrow>
            do { require (getBitWidth cl = getBitWidth c1);
                 EqExpr_createPartialR R (ConstantExpr_binop R Sub cl c1) b }
        | None \<Rightarrow> (case dyn_cast_constant_left Sub r of
          Some (c1, b) \<Rightarrow>
            do { require (getBitWidth c1 = getBitWidth cl);
                 EqExpr_createPartialR R (ConstantExpr_binop R Sub c1 cl) b }
        | None \<Rightarrow> (case dyn_cast_Read r of
          Some (a, u, i) \<Rightarrow>
            if ConstArrayOpt R then TryConstArrayOpt R cl a u i
            else Some (static_EqExpr_create R (ConstantExpr cl) r)
        | None \<Rightarrow> Some (static_EqExpr_create R (ConstantExpr cl) r)))))))"
| "TryConstArrayOpt R cl a u i =
     (if isSymbolicArray a \<or> update_size u \<noteq> 0
      then Some (static_EqExpr_create R (ConstantExpr cl) (ReadExpr a u i))
      else TryConstArrayOpt_loop R cl a u i 0 0 (ConstantExpr (ConstantExpr_alloc R 0 Bool)))"
| "TryConstArrayOpt_loop R cl a u i j numMatches res =
     (if arr_size a \<le> j then Some res
      else do { require (j < length (constantValues a));
          if cl = constantValues a ! j then
            (if 100 < numMatches + 1 then Some (static_EqExpr_create R (ConstantExpr cl) (ReadExpr a u i))
             else do { mayBe \<leftarrow> EqExpr_create R i (ConstantExpr (ConstantExpr_alloc R (of_nat j) (getWidth i)));
                       res' \<leftarrow> OrExpr_create R res mayBe;
                       TryConstArrayOpt_loop R cl a u i (j + 1) (numMatches + 1) res' })
          else TryConstArrayOpt_loop R cl a u i (j + 1) numMatches res })"
| "OrExpr_create R l r =
     do { require (getWidth l = getWidth r);
          case dyn_cast_Constant l of
            Some cl \<Rightarrow>
              (case dyn_cast_Constant r of
                 Some cr \<Rightarrow> Some (ConstantExpr (ConstantExpr_binop R Or cl cr))
               | None \<Rightarrow> OrExpr_createPartialR cl r)
          | None \<Rightarrow>
              (case dyn_cast_Constant r of
                 Some cr \<Rightarrow> OrExpr_createPartial l cr
               | None \<Rightarrow> static_OrExpr_create R l r) }"
| "static_OrExpr_create R l r =
     do { n \<leftarrow> isNegationOf l r;
          if n then map_option ConstantExpr (ConstantExpr_create R 1 Bool)
          else do { al \<leftarrow> absorb And l r;
          case al of Some b \<Rightarrow> OrExpr_create R b r | None \<Rightarrow>
          do { ar \<leftarrow> absorb And r l;
          case ar of Some b \<Rightarrow> OrExpr_create R l b | None \<Rightarrow>
          do { np \<leftarrow> negated_pair l r;
          case np of Some (a, b) \<Rightarrow> do { x \<leftarrow> AndExpr_create R a b; createIsZero R x } | None \<Rightarrow>
          do { c \<leftarrow> complementary l r;
          if c then map_option ConstantExpr (ConstantExpr_create R 1 Bool) else
          do { c' \<leftarrow> complementary r l;
          if c' then map_option ConstantExpr (ConstantExpr_create R 1 Bool)
          else Some (OrExpr l r) } } } } } }"
  by pat_completeness auto

lemma negated_pair_widths:
  "negated_pair l r = Some (Some (a, b)) \<Longrightarrow> getWidth a = Bool \<and> getWidth b = Bool"
  by (auto simp: negated_pair_def option_bind_simps split: option.splits if_splits)

text \<open>
  Termination: an equality of wider than boolean operands may start disjunctions of any size, a
  disjunction starts only boolean or constant equalities, and these only smaller ones.
\<close>

lemma AndExpr_create_shape:
  "AndExpr_create R l r = Some x \<Longrightarrow> is_constant x \<or> getWidth x = getWidth l"
  "static_AndExpr_create R l r = Some x \<Longrightarrow> getWidth l = getWidth r \<Longrightarrow> is_constant x \<or> getWidth x = getWidth l"
proof (induction R l r and R l r arbitrary: x and x rule: AndExpr_create_static_AndExpr_create.induct)
  case (1 R l r)
  note p = "1.prems" [unfolded AndExpr_create.simps [of R l r]]
  from p "1.IH" show ?case
    by (fastforce simp: AndExpr_createPartial_def AndExpr_createPartialR_def option_bind_simps
        split: option.splits if_splits)
next
  case (2 R l r)
  note p = "2.prems" [unfolded static_AndExpr_create.simps [of R l r]]
  obtain n where n: "isNegationOf l r = Some n" using p by (auto simp: option_bind_simps)
  show ?case
  proof (cases n)
    case False
    then obtain al where al: "absorb Or l r = Some al" using n p by (auto simp: option_bind_simps)
    show ?thesis
    proof (cases al)
      case (Some b)
      with p n al False 2(2) [OF n _ al Some] AndExpr_create_width [of R b r x] show ?thesis by simp
    next
      case None
      then obtain ar where ar: "absorb Or r l = Some ar" using n p al False by (auto simp: option_bind_simps)
      with p n al None False 2(1) [OF n _ al None ar] show ?thesis by (cases ar) auto
    qed
  qed (use n p in auto)
qed

lemma is_constant_dyn_cast: "is_constant e \<longleftrightarrow> (\<exists>c. dyn_cast_Constant e = Some c)"
  by (cases e) auto

definition eq_level :: "expr \<Rightarrow> nat" where
  "eq_level e = (if getWidth e = Bool \<or> is_constant e then 0 else 2)"

lemma eq_level_le [simp]: "eq_level e \<le> 2" "eq_level e < 3"
  by (simp_all add: eq_level_def)

abbreviation const_level :: "apint \<Rightarrow> nat" where
  "const_level c \<equiv> (if getBitWidth c = Bool then 0 else 2)"

termination EqExpr_create
  by (relation "measures
      [\<lambda>x. case x of
          Inl (Inl (R, l, r)) \<Rightarrow> if getWidth l = Bool \<or> is_constant l \<and> is_constant r then 0 else 2
        | Inl (Inr (Inl (R, e))) \<Rightarrow> eq_level e
        | Inl (Inr (Inr (R, cl, r))) \<Rightarrow> const_level cl
        | Inr (Inl _) \<Rightarrow> 2 | Inr (Inr _) \<Rightarrow> 1,
       \<lambda>x. case x of
          Inl (Inl (R, l, r)) \<Rightarrow> size l + size r
        | Inl (Inr (Inl (R, e))) \<Rightarrow> size e
        | Inl (Inr (Inr (R, cl, r))) \<Rightarrow> size r
        | Inr (Inl (Inl (R, cl, a, u, i))) \<Rightarrow> size (ReadExpr a u i)
        | Inr (Inl (Inr (R, cl, a, u, i, j, m, res))) \<Rightarrow> size (ReadExpr a u i)
        | Inr (Inr (Inl (R, l, r))) \<Rightarrow> size l + size r
        | Inr (Inr (Inr (R, l, r))) \<Rightarrow> size l + size r,
       \<lambda>x. case x of
          Inl (Inl _) \<Rightarrow> 3 | Inl (Inr (Inl _)) \<Rightarrow> 4 | Inl (Inr (Inr _)) \<Rightarrow> 2
        | Inr (Inl (Inl _)) \<Rightarrow> 1 | Inr (Inl (Inr _)) \<Rightarrow> 0 | Inr (Inr (Inl _)) \<Rightarrow> 1 | Inr (Inr (Inr _)) \<Rightarrow> 0,
       \<lambda>x. case x of Inr (Inl (Inr (R, cl, a, u, i, j, m, res))) \<Rightarrow> arr_size a - j | _ \<Rightarrow> 0]")
    (auto simp: eq_level_def is_constant_dyn_cast dest: absorb_size dest!: negated_pair_widths AndExpr_create_shape(1))

declare EqExpr_create.simps [simp del] createIsZero.simps [simp del] EqExpr_createPartialR.simps [simp del]
  TryConstArrayOpt.simps [simp del] TryConstArrayOpt_loop.simps [simp del] OrExpr_create.simps [simp del]
  static_OrExpr_create.simps [simp del]

lemmas eq_or_induct =
  EqExpr_create_createIsZero_EqExpr_createPartialR_TryConstArrayOpt_TryConstArrayOpt_loop_OrExpr_create_static_OrExpr_create.induct

section \<open>Soundness\<close>

text \<open>
  The rewrite of a read from a constant array is right when the read is inside the array, so the
  contract of these constructors is relative to a condition on the assignment.
\<close>

definition refines_on :: "(assignment \<Rightarrow> bool) \<Rightarrow> width \<Rightarrow> (assignment \<Rightarrow> int) \<Rightarrow> expr \<Rightarrow> bool" where
  "refines_on P w v e \<longleftrightarrow> wt e \<and> getWidth e = w \<and> (\<forall>\<sigma>. P \<sigma> \<longrightarrow> eval \<sigma> e = v \<sigma>)"

lemma refines_imp_refines_on: "refines w v e \<Longrightarrow> refines_on P w v e"
  by (simp add: refines_def refines_on_def)

lemma refines_on_mono:
  "refines_on P w v e \<Longrightarrow> (\<And>\<sigma>. Q \<sigma> \<Longrightarrow> P \<sigma> \<and> v \<sigma> = v' \<sigma>) \<Longrightarrow> refines_on Q w v' e"
  by (simp add: refines_on_def)

definition eq_cond :: "expr \<Rightarrow> assignment \<Rightarrow> bool" where
  "eq_cond e \<sigma> \<longleftrightarrow> getWidth e = Bool \<or> in_bounds \<sigma> e"

lemma sext_eq_constant:
  assumes "bv v a" "0 < v" "v \<le> w"
  shows "c = take_bit w (sbv v a) \<longleftrightarrow> c = take_bit w (sbv v (take_bit v c)) \<and> a = take_bit v c"
proof -
  have "take_bit v (take_bit w (sbv v a)) = a"
    using assms sbv_low_bits [of v v a] by (simp add: min_absorb1 take_bit_bv)
  then show ?thesis by auto
qed

lemma zext_eq_constant:
  assumes "bv v a" "v \<le> w"
  shows "c = take_bit w a \<longleftrightarrow> c = take_bit w (take_bit v c) \<and> a = take_bit v (c :: int)"
  using assms by (auto simp: take_bit_bv take_bit_le_bv)

lemma OrExpr_createPartial_refines:
  assumes "wt l" "ap_wf cr" "getWidth l = getBitWidth cr" "OrExpr_createPartial l cr = Some e"
  shows "refines (getWidth l) (\<lambda>\<sigma>. eval \<sigma> l OR apValue cr) e"
  using assms eval_bv [OF \<open>wt l\<close>]
  by (auto simp: OrExpr_createPartial_def option_bind_simps refines_def or_mask
      dest: ConstantExpr_isAllOnes_iff ConstantExpr_isZero_iff split: if_splits)

lemma negated_pair_eval:
  assumes "negated_pair l r = Some (Some (a, b))" "wt l" "wt r"
  shows "wt a" "wt b" "getWidth a = Bool" "getWidth b = Bool" "getWidth l = Bool"
    "eval \<sigma> l = of_bool (eval \<sigma> a = 0)" "eval \<sigma> r = of_bool (eval \<sigma> b = 0)"
  using assms
  by (auto simp: negated_pair_def and_also_def option_bind_simps Expr_isZero_eval
      split: option.splits if_splits)

lemma complementary_eval:
  assumes "complementary l r = Some True" "wt l" "wt r" "getWidth l = getWidth r"
  shows "getWidth r = Bool" "eval \<sigma> l OR eval \<sigma> r = 1"
proof -
  obtain a b c d where l: "l = OrExpr a b" and r: "r = AndExpr c d"
    using assms(1) by (auto simp: complementary_def split: option.splits)
  have w: "wt a" "wt b" "wt c" "wt d" "getWidth a = getWidth b" "getWidth c = getWidth a" "getWidth d = getWidth a"
    using assms(2-4) by (auto simp: l r)
  consider "isNegationOf c a = Some True" "isNegationOf d b = Some True"
    | "isNegationOf c b = Some True" "isNegationOf d a = Some True"
    using assms(1) by (auto simp: complementary_def and_also_def option_bind_simps l r split: if_splits)
  note neg = this
  from neg isNegationOf_eval(1) [of c a] isNegationOf_eval(1) [of c b] w
  have B: "getWidth a = Bool" "getWidth b = Bool" by (cases; simp)+
  then show "getWidth r = Bool" using w by (simp add: r)
  show "eval \<sigma> l OR eval \<sigma> r = 1"
    by (rule eval_Bool_cases [OF w(1) B(1), of \<sigma>]; rule eval_Bool_cases [OF w(2) B(2), of \<sigma>]; rule neg)
      (use isNegationOf_eval(2) [of c a \<sigma>] isNegationOf_eval(2) [of d b \<sigma>]
        isNegationOf_eval(2) [of c b \<sigma>] isNegationOf_eval(2) [of d a \<sigma>] w B in \<open>auto simp: l r\<close>)
qed

lemma demorgan_Bool:
  assumes "wt a" "wt b" "getWidth a = Bool" "getWidth b = Bool"
  shows "of_bool (eval \<sigma> a = 0) OR of_bool (eval \<sigma> b = 0) = (of_bool (eval \<sigma> a AND eval \<sigma> b = 0) :: int)"
  using eval_bv [of a \<sigma>] eval_bv [of b \<sigma>] assms by (auto simp: bv_Suc_0_iff)

lemma bv_width_1: "Suc 0 = w \<Longrightarrow> bv w a \<longleftrightarrow> a = 0 \<or> a = 1"
  by (auto simp: bv_Suc_0_iff)

lemma sub_eq_iff:
  assumes "bv w c" "bv w a"
  shows "take_bit w (c - d) = a \<longleftrightarrow> c = take_bit w (d + (a :: int))"
proof -
  have "take_bit w (c - d) = a \<longleftrightarrow> take_bit w (c - d) = take_bit w a" using assms(2) by (simp add: take_bit_bv)
  also have "\<dots> \<longleftrightarrow> take_bit w c = take_bit w (d + a)"
    by (simp add: take_bit_eq_mod mod_eq_dvd_iff algebra_simps)
  finally show ?thesis using assms(1) by (simp add: take_bit_bv)
qed

lemma sub_eq_iff':
  assumes "bv w c" "bv w a"
  shows "take_bit w (d - c) = a \<longleftrightarrow> c = take_bit w (d - (a :: int))"
proof -
  have "take_bit w (d - c) = a \<longleftrightarrow> take_bit w (d - c) = take_bit w a" using assms(2) by (simp add: take_bit_bv)
  also have "\<dots> \<longleftrightarrow> take_bit w (d - a) = take_bit w c"
    by (simp add: take_bit_eq_mod mod_eq_dvd_iff algebra_simps)
  finally show ?thesis using assms(1) by (auto simp: take_bit_bv)
qed

lemma or_of_bool: "of_bool p OR of_bool q = (of_bool (p \<or> q) :: int)"
  by auto

text \<open>The loop of \<^verbatim>\<open>TryConstArrayOpt\<close> has found the matches below an index.\<close>

definition found :: "apint \<Rightarrow> klee_array \<Rightarrow> expr \<Rightarrow> nat \<Rightarrow> assignment \<Rightarrow> int" where
  "found cl a i j \<sigma> =
     of_bool (eval \<sigma> i < int j \<and> constantValues a ! nat (eval \<sigma> i) = cl)"

definition in_bounds_index :: "klee_array \<Rightarrow> expr \<Rightarrow> assignment \<Rightarrow> bool" where
  "in_bounds_index a i \<sigma> \<longleftrightarrow> in_bounds \<sigma> i \<and> nat (eval \<sigma> i) < arr_size a"

lemma found_Suc:
  "wt i \<Longrightarrow> found cl a i (Suc j) \<sigma> = found cl a i j \<sigma> OR of_bool (eval \<sigma> i = int j \<and> cl = constantValues a ! j)"
  by (cases "eval \<sigma> i = int j") (auto simp: found_def)

lemma found_all:
  assumes "ap_wf cl" "getBitWidth cl = Int8" "wt (ReadExpr a NoUpdate i)" "isConstantArray a" "arr_size a \<le> j"
    "refines_on (in_bounds_index a i) Bool (found cl a i j) res"
  shows "refines_on (\<lambda>\<sigma>. in_bounds \<sigma> (ReadExpr a NoUpdate i)) Bool
    (\<lambda>\<sigma>. of_bool (apValue cl = eval \<sigma> (ReadExpr a NoUpdate i))) res"
proof -
  have "found cl a i j \<sigma> = of_bool (apValue cl = eval \<sigma> (ReadExpr a NoUpdate i))" "in_bounds_index a i \<sigma>"
    if "in_bounds \<sigma> (ReadExpr a NoUpdate i)" for \<sigma>
    using that assms eval_nonneg [of i \<sigma>]
    by (auto simp: found_def initial_value_def in_bounds_index_def array_ok_def isConstantArray_def isSymbolicArray_def
        intro!: apint.expand dest!: bspec [OF _ nth_mem [of "nat (eval \<sigma> i)"]])
  with assms(6) show ?thesis by (auto simp: refines_on_def)
qed

lemma ap_wf_index: "array_ok a \<Longrightarrow> j < arr_size a \<Longrightarrow> ap_wf (APInt Int32 (int j))"
  by (auto simp: ap_wf_def bv_def array_ok_def)

lemma OrExpr_createPartial_total:
  assumes "wt l" "narrow l" "ap_wf cr" "getBitWidth cr \<le> 64"
  shows "\<exists>e. OrExpr_createPartial l cr = Some e \<and> narrow e"
  using constant_predicates_narrow [OF assms(3,4)] assms by (auto simp: OrExpr_createPartial_def)

lemma Expr_isZero_total: "wt e \<Longrightarrow> narrow e \<Longrightarrow> \<exists>z. Expr_isZero e = Some z"
  using constant_predicates_narrow by (cases e) auto

lemma negated_pair_total:
  assumes "wt l" "wt r" "narrow l" "narrow r"
  shows "\<exists>np. negated_pair l r = Some np"
proof (cases "dyn_cast_Binary Eq l"; cases "dyn_cast_Binary Eq r")
  fix x y assume "dyn_cast_Binary Eq l = Some x" "dyn_cast_Binary Eq r = Some y"
  then show ?thesis
    using assms Expr_isZero_total [of "fst x"] Expr_isZero_total [of "fst y"]
    by (cases x; cases y) (auto simp: negated_pair_def and_also_def)
qed (auto simp: negated_pair_def split: option.splits)

lemma negated_pair_narrow:
  "negated_pair l r = Some (Some (a, b)) \<Longrightarrow> narrow l \<Longrightarrow> narrow r \<Longrightarrow> narrow a \<and> narrow b"
  by (auto simp: negated_pair_def option_bind_simps split: option.splits if_splits)

lemma complementary_total:
  assumes "wt l" "wt r" "narrow l" "narrow r"
  shows "\<exists>c. complementary l r = Some c"
proof (cases "dyn_cast_Binary Or l"; cases "dyn_cast_Binary And r")
  fix x y assume "dyn_cast_Binary Or l = Some x" "dyn_cast_Binary And r = Some y"
  then show ?thesis
    using assms isNegationOf_total [of "fst y" "fst x"] isNegationOf_total [of "fst y" "snd x"]
      isNegationOf_total [of "snd y" "fst x"] isNegationOf_total [of "snd y" "snd x"]
    by (cases x; cases y) (auto simp: complementary_def and_also_def)
qed (auto simp: complementary_def split: option.splits)

context klee_rt_laws
begin

lemma alloc_index:
  "array_ok a \<Longrightarrow> j < arr_size a \<Longrightarrow> w = Int32 \<Longrightarrow> ConstantExpr_alloc R (of_nat j) w = APInt Int32 (int j)"
  by (simp add: alloc_simp array_ok_def take_bit_int_eq_self unsigned_of_nat take_bit_nat_eq_self)

lemma static_EqExpr_create_refines:
  assumes "wt l" "wt r" "getWidth l = getWidth r"
  shows "refines Bool (\<lambda>\<sigma>. of_bool (eval \<sigma> l = eval \<sigma> r)) (static_EqExpr_create R l r)"
  using assms by (auto simp: static_EqExpr_create_def refines_def alloc_1 ap_wf_def)

lemma static_narrow: "narrow l \<Longrightarrow> narrow r \<Longrightarrow> narrow (static_EqExpr_create R l r)"
  by (auto simp: static_EqExpr_create_def alloc_1)

lemma constant_wt: "ap_wf c \<Longrightarrow> wt (ConstantExpr c)" "getWidth (ConstantExpr c) = getBitWidth c"
  "eval \<sigma> (ConstantExpr c) = apValue c" "in_bounds \<sigma> (ConstantExpr c)"
  by simp_all

text \<open>A constant equals an extension iff it is the extension of its truncation, and that equals the source.\<close>

lemma trunc_constant:
  assumes "ap_wf cl" "0 < v"
  shows "ConstantExpr_ZExt R cl v = APInt v (take_bit v (apValue cl))" "ap_wf (APInt v (take_bit v (apValue cl)))"
  using assms by (simp_all add: ConstantExpr_ZExt_eq ap_wf_def)

lemma sext_constant_iff:
  assumes "ap_wf cl" "wt src" "getWidth src \<le> getBitWidth cl"
  defines "trunc \<equiv> ConstantExpr_ZExt R cl (getWidth src)"
  shows "apValue cl = eval \<sigma> (SExtExpr src (getBitWidth cl)) \<longleftrightarrow>
    cl = ConstantExpr_SExt R trunc (getBitWidth cl) \<and> eval \<sigma> src = apValue trunc"
proof -
  have 1: "ConstantExpr_SExt R trunc (getBitWidth cl) =
      APInt (getBitWidth cl) (take_bit (getBitWidth cl) (sbv (getWidth src) (take_bit (getWidth src) (apValue cl))))"
    unfolding trunc_def using assms(1,2) by (simp add: trunc_constant ConstantExpr_SExt_eq ap_wf_pos)
  have 2: "cl = APInt (getBitWidth cl) v \<longleftrightarrow> apValue cl = v" for v by (cases cl) auto
  have 3: "apValue trunc = take_bit (getWidth src) (apValue cl)"
    unfolding trunc_def using assms(1,2) by (simp add: trunc_constant)
  show ?thesis
    using sext_eq_constant [OF eval_bv [OF assms(2)] _ assms(3), of "apValue cl" \<sigma>] assms(2)
    unfolding 1 2 3 by simp
qed

lemma zext_constant_iff:
  assumes "ap_wf cl" "wt src" "getWidth src \<le> getBitWidth cl"
  defines "trunc \<equiv> ConstantExpr_ZExt R cl (getWidth src)"
  shows "apValue cl = eval \<sigma> (ZExtExpr src (getBitWidth cl)) \<longleftrightarrow>
    cl = ConstantExpr_ZExt R trunc (getBitWidth cl) \<and> eval \<sigma> src = apValue trunc"
proof -
  have 1: "ConstantExpr_ZExt R trunc (getBitWidth cl) =
      APInt (getBitWidth cl) (take_bit (getBitWidth cl) (take_bit (getWidth src) (apValue cl)))"
    unfolding trunc_def using assms(1,2) by (simp add: trunc_constant ConstantExpr_ZExt_eq ap_wf_pos)
  have 2: "cl = APInt (getBitWidth cl) v \<longleftrightarrow> apValue cl = v" for v by (cases cl) auto
  have 3: "apValue trunc = take_bit (getWidth src) (apValue cl)"
    unfolding trunc_def using assms(1,2) by (simp add: trunc_constant)
  show ?thesis
    using zext_eq_constant [OF eval_bv [OF assms(2)] assms(3), of "apValue cl" \<sigma>]
    unfolding 1 2 3 by simp
qed

lemma eq_or_refines_aux:
  "R' = R \<Longrightarrow> wt l \<Longrightarrow> wt r \<Longrightarrow> EqExpr_create R' l r = Some e \<Longrightarrow>
     refines_on (\<lambda>\<sigma>. eq_cond l \<sigma> \<and> eq_cond r \<sigma>) Bool (\<lambda>\<sigma>. of_bool (eval \<sigma> l = eval \<sigma> r)) e"
  "R' = R \<Longrightarrow> wt e0 \<Longrightarrow> createIsZero R' e0 = Some e \<Longrightarrow>
     refines_on (eq_cond e0) Bool (\<lambda>\<sigma>. of_bool (eval \<sigma> e0 = 0)) e"
  "R' = R \<Longrightarrow> ap_wf cl \<Longrightarrow> wt r \<Longrightarrow> getBitWidth cl = getWidth r \<Longrightarrow> EqExpr_createPartialR R' cl r = Some e \<Longrightarrow>
     refines_on (eq_cond r) Bool (\<lambda>\<sigma>. of_bool (apValue cl = eval \<sigma> r)) e"
  "R' = R \<Longrightarrow> ap_wf cl \<Longrightarrow> wt (ReadExpr a u i) \<Longrightarrow> getBitWidth cl = Int8 \<Longrightarrow> TryConstArrayOpt R' cl a u i = Some e \<Longrightarrow>
     refines_on (\<lambda>\<sigma>. in_bounds \<sigma> (ReadExpr a u i)) Bool (\<lambda>\<sigma>. of_bool (apValue cl = eval \<sigma> (ReadExpr a u i))) e"
  "R' = R \<Longrightarrow> ap_wf cl \<Longrightarrow> wt (ReadExpr a u i) \<Longrightarrow> getBitWidth cl = Int8 \<Longrightarrow> isConstantArray a \<Longrightarrow> u = NoUpdate \<Longrightarrow>
     refines_on (in_bounds_index a i) Bool (found cl a i j) res \<Longrightarrow>
     TryConstArrayOpt_loop R' cl a u i j m res = Some e \<Longrightarrow>
     refines_on (\<lambda>\<sigma>. in_bounds \<sigma> (ReadExpr a u i)) Bool (\<lambda>\<sigma>. of_bool (apValue cl = eval \<sigma> (ReadExpr a u i))) e"
  "R' = R \<Longrightarrow> wt l \<Longrightarrow> wt r \<Longrightarrow> OrExpr_create R' l r = Some e \<Longrightarrow>
     refines (getWidth l) (\<lambda>\<sigma>. eval \<sigma> l OR eval \<sigma> r) e"
  "R' = R \<Longrightarrow> wt l \<Longrightarrow> wt r \<Longrightarrow> getWidth l = getWidth r \<Longrightarrow> static_OrExpr_create R' l r = Some e \<Longrightarrow>
     refines (getWidth l) (\<lambda>\<sigma>. eval \<sigma> l OR eval \<sigma> r) e"
proof (induction R' l r and R' e0 and R' cl r and R' cl a u i and R' cl a u i j m res and R' l r and R' l r
    arbitrary: e and e and e and e and e and e and e rule: eq_or_induct)
  case (1 R' l r)
  note p = "1.prems" and S = "1.prems"(4) [unfolded EqExpr_create.simps [of R' l r]]
  have w: "getWidth l = getWidth r" using S by simp
  show ?case
  proof (cases "dyn_cast_Constant l"; cases "dyn_cast_Constant r")
    fix cr assume c: "dyn_cast_Constant l = None" "dyn_cast_Constant r = Some cr"
    with "1.IH"(1) [OF _ c p(1)] p(1-3) S w show ?thesis
      by (auto simp: eq_commute intro: refines_on_mono)
  next
    fix cl assume c: "dyn_cast_Constant l = Some cl" "dyn_cast_Constant r = None"
    with "1.IH"(2) [OF _ c p(1)] p(1-3) S w show ?thesis
      by (auto intro: refines_on_mono)
  next
    fix cl cr assume c: "dyn_cast_Constant l = Some cl" "dyn_cast_Constant r = Some cr"
    with ConstantExpr_binop_refines [of cl cr Eq] p(1-3) S w show ?thesis
      by (auto intro: refines_imp_refines_on)
  next
    assume c: "dyn_cast_Constant l = None" "dyn_cast_Constant r = None"
    with static_EqExpr_create_refines [of l r] p(1-3) S w show ?thesis
      by (auto intro: refines_imp_refines_on)
  qed
next
  case (2 R' e0)
  note p = "2.prems" and S = "2.prems"(3) [unfolded createIsZero.simps [of R' e0]]
  obtain z where z: "ConstantExpr_create R' 0 (getWidth e0) = Some z" using S by (auto simp: option_bind_simps)
  then have z': "z = APInt (getWidth e0) 0" using p(1) by (auto simp: create_0 split: if_splits)
  from "2.IH" [OF z p(1,2)] z z' p S show ?case
    by (auto simp: eq_cond_def ap_wf_def intro: refines_on_mono)
next
  case (3 R' cl r)
  note p = "3.prems" and S = "3.prems"(5) [unfolded EqExpr_createPartialR.simps [of R' cl r]]
  have static: "refines_on P Bool (\<lambda>\<sigma>. of_bool (apValue cl = eval \<sigma> r)) (static_EqExpr_create R' (ConstantExpr cl) r)" for P
    using static_EqExpr_create_refines [of "ConstantExpr cl" r] p(1-4) by (auto intro: refines_imp_refines_on)
  show ?case
  proof (cases "getBitWidth cl = Bool")
    case B: True
    obtain t where t: "ConstantExpr_isTrue cl = Some t" using S B by (auto simp: option_bind_simps)
    have cl: "apValue cl = of_bool t"
      using ConstantExpr_isTrue_iff(2) [OF p(2) t] ap_wf_bv [OF p(2)] B by (auto simp: bv_Suc_0_iff)
    show ?thesis
    proof (cases "t \<or> (\<forall>a b. r \<noteq> OrExpr a b)")
      case True
      have "eval \<sigma> r = 0 \<or> eval \<sigma> r = 1" for \<sigma>
        using eval_bv [OF p(3), of \<sigma>] p(4) [symmetric] B by (simp add: bv_Suc_0_iff)
      then have one: "refines_on P Bool (\<lambda>\<sigma>. of_bool (1 = eval \<sigma> r)) r" for P
        using p(3,4) B by (fastforce simp: refines_on_def)
      have zero: "refines_on P Bool (\<lambda>\<sigma>. of_bool (0 = eval \<sigma> r)) b"
        if "r = EqExpr (ConstantExpr c) b" "getBitWidth c = Bool" "ConstantExpr_isFalse c = Some True" for P b c
        using that p(3) eval_bv [of b] ConstantExpr_isFalse_iff(2) [of c True]
        by (auto simp: refines_on_def bv_width_1)
      from True S B t cl static [of "eq_cond r"] one [of "eq_cond r"] zero [where P = "eq_cond r"] show ?thesis
        by (cases t) (auto simp: option_bind_simps and_also_def split: option.splits if_splits)
    next
      case False
      then obtain a b where r: "r = OrExpr a b" and t': "\<not> t" by auto
      then have d: "dyn_cast_Binary Eq r = None" "dyn_cast_Binary Or r = Some (a, b)" by auto
      obtain x y where x: "createIsZero R' a = Some x" and y: "createIsZero R' b = Some y"
        and e: "AndExpr_create R' x y = Some e" and w: "getWidth a = Bool \<and> getWidth b = Bool"
        using S B t t' d by (auto simp: option_bind_simps)
      have wt: "wt a" "wt b" using p(3) r by auto
      note x' = "3.IH"(1) [OF B t t' d(1,2) refl _ p(1) wt(1) x]
      note y' = "3.IH"(2) [OF B t t' d(1,2) refl _ x p(1) wt(2) y]
      have "refines Bool (\<lambda>\<sigma>. of_bool (eval \<sigma> a = 0)) x" "refines Bool (\<lambda>\<sigma>. of_bool (eval \<sigma> b = 0)) y"
        using x' y' w by (auto simp: refines_on_def refines_def eq_cond_def)
      with and_create_refines(1) [of x y e] e p(1) show ?thesis
        using w t' cl by (auto simp: refines_def refines_on_def r or_eq_0_iff)
    qed
  next
    case nB: False
    show ?thesis
    proof (cases "dyn_cast_Cast SExt r")
      case (Some sw)
      obtain src w where sw: "sw = (src, w)" by (cases sw)
      let ?trunc = "ConstantExpr_ZExt R' cl (getWidth src)"
      have r: "r = SExtExpr src (getBitWidth cl)" "wt src" "getWidth src \<le> getBitWidth cl"
        using Some sw p(3,4) by auto
      note tr = trunc_constant [OF p(2) wt_width_pos [OF r(2)], folded p(1)]
      define ok where "ok \<longleftrightarrow> cl = ConstantExpr_SExt R' ?trunc (getBitWidth cl)"
      note iff = sext_constant_iff [OF p(2) r(2,3), folded p(1) r(1), folded ok_def]
      show ?thesis
      proof (cases ok)
        case True
        have e: "EqExpr_create R' src (ConstantExpr ?trunc) = Some e"
          using S nB Some sw True by (simp add: Let_def flip: ok_def)
        from "3.IH"(7) [OF nB Some sw [symmetric] refl True [unfolded ok_def] p(1) r(2) _ e] show ?thesis
          using tr True iff r(1) nB by (auto simp: refines_on_def eq_cond_def)
      next
        case False
        have "map_option ConstantExpr (ConstantExpr_create R' 0 Bool) = Some e"
          using S nB Some sw False by (simp add: Let_def flip: ok_def)
        with False iff p(1) show ?thesis by (auto simp: create_0 refines_on_def ap_wf_def)
      qed
    next
      case s: None
      show ?thesis
      proof (cases "dyn_cast_Cast ZExt r")
        case (Some sw)
        obtain src w where sw: "sw = (src, w)" by (cases sw)
        let ?trunc = "ConstantExpr_ZExt R' cl (getWidth src)"
        have r: "r = ZExtExpr src (getBitWidth cl)" "wt src" "getWidth src \<le> getBitWidth cl"
          using Some sw p(3,4) by auto
        note tr = trunc_constant [OF p(2) wt_width_pos [OF r(2)], folded p(1)]
        define ok where "ok \<longleftrightarrow> cl = ConstantExpr_ZExt R' ?trunc (getBitWidth cl)"
        note iff = zext_constant_iff [OF p(2) r(2,3), folded p(1) r(1), folded ok_def]
        show ?thesis
        proof (cases ok)
          case True
          have e: "EqExpr_create R' src (ConstantExpr ?trunc) = Some e"
            using S nB s Some sw True by (simp add: Let_def flip: ok_def)
          from "3.IH"(6) [OF nB s Some sw [symmetric] refl True [unfolded ok_def] p(1) r(2) _ e] show ?thesis
            using tr True iff r(1) nB by (auto simp: refines_on_def eq_cond_def)
        next
          case False
          have "map_option ConstantExpr (ConstantExpr_create R' 0 Bool) = Some e"
            using S nB s Some sw False by (simp add: Let_def flip: ok_def)
          with False iff p(1) show ?thesis by (auto simp: create_0 refines_on_def ap_wf_def)
        qed
      next
        case z: None
        show ?thesis
        proof (cases "dyn_cast_constant_left Add r")
          case (Some cb)
          obtain c1 b where cb: "cb = (c1, b)" by (cases cb)
          have r: "r = AddExpr (ConstantExpr c1) b" "ap_wf c1" "wt b" "getBitWidth c1 = getBitWidth cl" "getWidth b = getBitWidth cl"
            using Some cb p(3,4) by auto
          have e: "EqExpr_createPartialR R' (ConstantExpr_binop R' Sub cl c1) b = Some e"
            using S nB s z Some cb r by simp
          note c = ConstantExpr_binop_refines [of cl c1 Sub, simplified, OF p(2) r(2) r(4) [symmetric]]
          from "3.IH"(5) [OF nB s z Some cb [symmetric] _ p(1) _ r(3) _ e] show ?thesis
            using c r p(1) nB sub_eq_iff [OF ap_wf_bv [OF p(2)]] eval_bv [OF r(3)]
            by (auto simp: refines_on_def refines_def eq_cond_def)
        next
          case a: None
          show ?thesis
          proof (cases "dyn_cast_constant_left Sub r")
            case (Some cb)
            obtain c1 b where cb: "cb = (c1, b)" by (cases cb)
            have r: "r = SubExpr (ConstantExpr c1) b" "ap_wf c1" "wt b" "getBitWidth c1 = getBitWidth cl" "getWidth b = getBitWidth cl"
              using Some cb p(3,4) by auto
            have e: "EqExpr_createPartialR R' (ConstantExpr_binop R' Sub c1 cl) b = Some e"
              using S nB s z a Some cb r by simp
            note c = ConstantExpr_binop_refines [of c1 cl Sub, simplified, OF r(2) p(2) r(4)]
            from "3.IH"(4) [OF nB s z a Some cb [symmetric] _ p(1) _ r(3) _ e] show ?thesis
              using c r p(1) nB sub_eq_iff' [OF ap_wf_bv [OF p(2)]] eval_bv [OF r(3)]
              by (auto simp: refines_on_def refines_def eq_cond_def)
          next
            case b: None
            show ?thesis
            proof (cases "dyn_cast_Read r")
              case (Some x)
              obtain ar u i where x: "x = (ar, u, i)" by (cases x) auto
              have r: "r = ReadExpr ar u i" using Some x by simp
              show ?thesis
              proof (cases "ConstArrayOpt R'")
                case True
                from "3.IH"(3) [OF nB s z a b Some x [symmetric] refl True p(1,2)] p(3,4) S True nB s z a b Some x show ?thesis
                  by (auto simp: r eq_cond_def intro: refines_on_mono)
              qed (use S nB s z a b Some x static in auto)
            qed (use S nB s z a b static in auto)
          qed
        qed
      qed
    qed
  qed
next
  case (4 R' cl a u i)
  note p = "4.prems" and S = "4.prems"(5) [unfolded TryConstArrayOpt.simps [of R' cl a u i]]
  show ?case
  proof (cases "isSymbolicArray a \<or> update_size u \<noteq> 0")
    case True
    with static_EqExpr_create_refines [of "ConstantExpr cl" "ReadExpr a u i"] p(1-4) S show ?thesis
      by (auto intro: refines_imp_refines_on simp del: eval.simps in_bounds.simps simp: constant_wt)
  next
    case False
    then have "u = NoUpdate" by (cases u) auto
    moreover have "refines_on (in_bounds_index a i) Bool (found cl a i 0) (ConstantExpr (ConstantExpr_alloc R' 0 Bool))"
      using p(1,3) eval_nonneg [of i] by (auto simp: refines_on_def found_def alloc_0 ap_wf_def not_less)
    ultimately show ?thesis using False S "4.IH" [OF False p(1-4)] by (simp add: isConstantArray_def)
  qed
next
  case (5 R' cl a u i j m res)
  note p = "5.prems" and S = "5.prems"(8) [unfolded TryConstArrayOpt_loop.simps [of R' cl a u i j m res]]
  show ?case
  proof (cases "arr_size a \<le> j")
    case True
    then show ?thesis using p S found_all [of cl a i j res] by auto
  next
    case False
    then have j: "j < length (constantValues a)" using S by simp
    show ?thesis
    proof (cases "cl = constantValues a ! j")
      case match: True
      show ?thesis
      proof (cases "100 < m + 1")
        case True
        with static_EqExpr_create_refines [of "ConstantExpr cl" "ReadExpr a u i"] p(1-4) S False match j show ?thesis
          by (auto intro: refines_imp_refines_on simp del: eval.simps in_bounds.simps simp: constant_wt)
      next
        case m: False
        obtain mayBe res' where mb: "EqExpr_create R' i (ConstantExpr (ConstantExpr_alloc R' (of_nat j) (getWidth i))) = Some mayBe"
          and r': "OrExpr_create R' res mayBe = Some res'"
          and rest: "TryConstArrayOpt_loop R' cl a u i (j + 1) (m + 1) res' = Some e"
          using S False match j m by (auto simp: option_bind_simps)
        have c: "ConstantExpr_alloc R' (of_nat j) (getWidth i) = APInt Int32 (int j)"
          using p(1,3) False alloc_index [of a j "getWidth i"] by auto
        have mb': "refines_on (in_bounds_index a i) Bool (\<lambda>\<sigma>. of_bool (eval \<sigma> i = int j)) mayBe"
          using "5.IH"(1) [OF False _ match m p(1) _ _ mb] p(3) j False
          by (auto simp: c ap_wf_index eq_cond_def in_bounds_index_def intro: refines_on_mono)
        have "refines_on (in_bounds_index a i) Bool (found cl a i (j + 1)) res'"
          using "5.IH"(2) [OF False _ match m mb p(1) _ _ r'] p(7) mb' p(3) j match
          by (auto simp: refines_on_def refines_def found_Suc or_of_bool)
        with "5.IH"(3) [OF False _ match m mb r' p(1-6) _ rest] j show ?thesis by auto
      qed
    next
      case nomatch: False
      have "refines_on (in_bounds_index a i) Bool (found cl a i (j + 1)) res"
        using p(7) p(3) nomatch by (auto simp: refines_on_def found_Suc)
      with "5.IH"(4) [OF False _ nomatch p(1-6)] S False nomatch j show ?thesis by auto
    qed
  qed
next
  case (6 R' l r)
  note p = "6.prems" and S = "6.prems"(4) [unfolded OrExpr_create.simps [of R' l r]]
  have w: "getWidth l = getWidth r" using S by simp
  show ?case
  proof (cases "dyn_cast_Constant l"; cases "dyn_cast_Constant r")
    assume c: "dyn_cast_Constant l = None" "dyn_cast_Constant r = None"
    with p(1-3) S w show ?thesis
      by (intro "6.IH" [OF _ c]) auto
  qed (use p(1-3) S w in \<open>auto simp: OrExpr_createPartialR_def or.commute
        dest: OrExpr_createPartial_refines intro: ConstantExpr_binop_refines [where k = Or, simplified]\<close>)
next
  case (7 R' l r)
  note p = "7.prems" and S = "7.prems"(5) [unfolded static_OrExpr_create.simps [of R' l r]]
  have bit: "of_bool (eval \<sigma> x = 0) AND a OR eval \<sigma> x = a OR eval \<sigma> x"
    "eval \<sigma> x OR of_bool (eval \<sigma> x = 0) AND a = eval \<sigma> x OR a"
    if "wt x" "getWidth x = Bool" "bv Bool a" for \<sigma> x a
    by (rule eval_Bool_cases [OF that(1,2), of \<sigma>]; use that(3) in \<open>auto simp: bv_Suc_0_iff\<close>)+
  obtain n where n: "isNegationOf l r = Some n" using S by (auto simp: option_bind_simps)
  show ?case
  proof (cases n)
    case True
    have "eval \<sigma> l OR eval \<sigma> r = 1" for \<sigma>
      using isNegationOf_eval(1) [of l r] isNegationOf_eval(2) [of l r \<sigma>] n True p eval_bv [of r \<sigma>] by (auto simp: bv_Suc_0_iff)
    with True p(1-4) S n isNegationOf_eval(1) [of l r] show ?thesis
      by (auto simp: create_1 refines_def ap_wf_def)
  next
    case n': False
    obtain al where al: "absorb And l r = Some al" using S n n' by (auto simp: option_bind_simps)
    show ?thesis
    proof (cases al)
      case (Some b)
      note ab = absorb_eval [OF al [unfolded Some] p(2,3,4)]
      have "OrExpr_create R' b r = Some e" using S n n' al Some by simp
      with "7.IH"(3) [OF n _ al Some p(1)] p(1-4) ab n' bit eval_bv [of b] show ?thesis
        by (auto simp: refines_def)
    next
      case al': None
      obtain ar where ar: "absorb And r l = Some ar" using S n n' al al' by (auto simp: option_bind_simps)
      show ?thesis
      proof (cases ar)
        case (Some b)
        note ab = absorb_eval [OF ar [unfolded Some] p(3,2) p(4) [symmetric]]
        have "OrExpr_create R' l b = Some e" using S n n' al al' ar Some by simp
        with "7.IH"(2) [OF n _ al al' ar Some p(1)] p(1-4) ab n' bit eval_bv [of b] show ?thesis
          by (auto simp: refines_def)
      next
        case ar': None
        obtain np where np: "negated_pair l r = Some np" using S n n' al al' ar ar' by (auto simp: option_bind_simps)
        show ?thesis
        proof (cases np)
          case (Some ab)
          obtain a b where ab: "ab = (a, b)" by (cases ab)
          note ne = negated_pair_eval [OF np [unfolded Some ab] p(2,3)]
          obtain x where x: "AndExpr_create R' a b = Some x" "createIsZero R' x = Some e"
            using S n n' al al' ar ar' np Some ab by (auto simp: option_bind_simps)
          note nx = and_create_refines(1) [OF ne(1,2) x(1) [unfolded p(1)]]
          have "refines_on (eq_cond x) Bool (\<lambda>\<sigma>. of_bool (eval \<sigma> x = 0)) e"
            using "7.IH"(1) [OF n _ al al' ar ar' np Some ab [symmetric] x(1) p(1) refines_wt [OF nx] x(2)] n' by simp
          then show ?thesis
            using nx ne p demorgan_Bool [OF ne(1-4)] by (auto simp: refines_on_def refines_def eq_cond_def)
        next
          case np': None
          with S n n' al al' ar ar' np p complementary_eval [of l r] complementary_eval [of r l] show ?thesis
            by (auto simp: option_bind_simps create_1 refines_def ap_wf_def or.commute split: if_splits)
        qed
      qed
    qed
  qed
qed

lemmas eq_or_refines = eq_or_refines_aux [OF refl]

lemma eq_or_total_aux:
  "R' = R \<Longrightarrow> wt l \<Longrightarrow> wt r \<Longrightarrow> narrow l \<Longrightarrow> narrow r \<Longrightarrow> getWidth l = getWidth r \<Longrightarrow>
     \<exists>e. EqExpr_create R' l r = Some e \<and> narrow e"
  "R' = R \<Longrightarrow> wt e0 \<Longrightarrow> narrow e0 \<Longrightarrow> \<exists>e. createIsZero R' e0 = Some e \<and> narrow e"
  "R' = R \<Longrightarrow> ap_wf cl \<Longrightarrow> wt r \<Longrightarrow> narrow r \<Longrightarrow> getBitWidth cl = getWidth r \<Longrightarrow>
     \<exists>e. EqExpr_createPartialR R' cl r = Some e \<and> narrow e"
  "R' = R \<Longrightarrow> ap_wf cl \<Longrightarrow> wt (ReadExpr a u i) \<Longrightarrow> narrow (ReadExpr a u i) \<Longrightarrow> getBitWidth cl = Int8 \<Longrightarrow>
     \<exists>e. TryConstArrayOpt R' cl a u i = Some e \<and> narrow e"
  "R' = R \<Longrightarrow> ap_wf cl \<Longrightarrow> wt (ReadExpr a u i) \<Longrightarrow> narrow (ReadExpr a u i) \<Longrightarrow> getBitWidth cl = Int8 \<Longrightarrow>
     isConstantArray a \<Longrightarrow> wt res \<Longrightarrow> narrow res \<Longrightarrow> getWidth res = Bool \<Longrightarrow>
     \<exists>e. TryConstArrayOpt_loop R' cl a u i j m res = Some e \<and> narrow e"
  "R' = R \<Longrightarrow> wt l \<Longrightarrow> wt r \<Longrightarrow> narrow l \<Longrightarrow> narrow r \<Longrightarrow> getWidth l = getWidth r \<Longrightarrow>
     \<exists>e. OrExpr_create R' l r = Some e \<and> narrow e"
  "R' = R \<Longrightarrow> wt l \<Longrightarrow> wt r \<Longrightarrow> narrow l \<Longrightarrow> narrow r \<Longrightarrow> getWidth l = getWidth r \<Longrightarrow>
     \<exists>e. static_OrExpr_create R' l r = Some e \<and> narrow e"
proof (induction R' l r and R' e0 and R' cl r and R' cl a u i and R' cl a u i j m res and R' l r and R' l r
    rule: eq_or_induct)
  case (1 R' l r)
  note p = "1.prems"
  show ?case
  proof (cases "dyn_cast_Constant l"; cases "dyn_cast_Constant r")
    fix cr assume c: "dyn_cast_Constant l = None" "dyn_cast_Constant r = Some cr"
    with "1.IH"(1) [OF _ c p(1)] p show ?thesis by (subst EqExpr_create.simps) auto
  next
    fix cl assume c: "dyn_cast_Constant l = Some cl" "dyn_cast_Constant r = None"
    with "1.IH"(2) [OF _ c p(1)] p show ?thesis by (subst EqExpr_create.simps) auto
  next
    fix cl cr assume c: "dyn_cast_Constant l = Some cl" "dyn_cast_Constant r = Some cr"
    with ConstantExpr_binop_refines [of cl cr Eq] p show ?thesis
      by (subst EqExpr_create.simps) (auto simp: refines_def)
  next
    assume c: "dyn_cast_Constant l = None" "dyn_cast_Constant r = None"
    with p show ?thesis by (subst EqExpr_create.simps) (simp add: static_narrow)
  qed
next
  case (2 R' e0)
  note p = "2.prems"
  have z: "ConstantExpr_create R' 0 (getWidth e0) = Some (APInt (getWidth e0) 0)"
    using p narrow_width [OF p(3)] by (simp add: create_0)
  with "2.IH" [OF z p(1,2)] p narrow_width [OF p(3)] show ?case
    by (subst createIsZero.simps) (auto simp: ap_wf_def)
next
  case (3 R' cl r)
  note p = "3.prems"
  have cl64: "getBitWidth cl \<le> 64" using p narrow_width [OF p(4)] by simp
  have static: "narrow (static_EqExpr_create R' (ConstantExpr cl) r)" using p cl64 by (simp add: static_narrow)
  show ?case
  proof (cases "getBitWidth cl = Bool")
    case B: True
    obtain t where t: "ConstantExpr_isTrue cl = Some t" using constant_predicates_narrow(4) [OF p(2) cl64 B] by blast
    show ?thesis
    proof (cases "t \<or> (\<forall>a b. r \<noteq> OrExpr a b)")
      case True
      have false: "\<exists>f. ConstantExpr_isFalse c = Some f" if "r = EqExpr (ConstantExpr c) b" "getBitWidth c = Bool" for b c
        using that p(3) constant_predicates_narrow(5) [of c] by auto
      show ?thesis
      proof (cases "dyn_cast_Binary Eq r")
        case (Some ab)
        then obtain a b where r: "r = EqExpr a b" by simp
        show ?thesis
        proof (cases "dyn_cast_Constant a")
          case (Some c)
          with B t p(4) static r false [of c b] show ?thesis
            by (cases "getBitWidth c = Bool"; subst EqExpr_createPartialR.simps) (auto simp: and_also_def)
        qed (use B t p(4) static r in \<open>subst EqExpr_createPartialR.simps; auto\<close>)
      next
        case None
        with True show ?thesis
          using B t p(4) static None by (subst EqExpr_createPartialR.simps) (auto split: option.splits)
      qed
    next
      case False
      then obtain a b where r: "r = OrExpr a b" and t': "\<not> t" by auto
      then have d: "dyn_cast_Binary Eq r = None" "dyn_cast_Binary Or r = Some (a, b)" by auto
      have w: "wt a" "wt b" "narrow a" "narrow b" "getWidth a = Bool \<and> getWidth b = Bool" using p(3-5) B r by auto
      obtain x where x: "createIsZero R' a = Some x" "narrow x"
        using "3.IH"(1) [OF B t t' d(1,2) refl _ p(1) w(1,3)] w(5) by auto
      obtain y where y: "createIsZero R' b = Some y" "narrow y"
        using "3.IH"(2) [OF B t t' d(1,2) refl _ x(1) p(1) w(2,4)] w(5) by auto
      have "refines_on (eq_cond a) Bool (\<lambda>\<sigma>. of_bool (eval \<sigma> a = 0)) x"
        "refines_on (eq_cond b) Bool (\<lambda>\<sigma>. of_bool (eval \<sigma> b = 0)) y"
        using eq_or_refines(2) [OF w(1)] eq_or_refines(2) [OF w(2)] x y p(1) by auto
      with and_create_total(1) [of x y] x y p(1) B t t' d w(5) show ?thesis
        by (subst EqExpr_createPartialR.simps) (auto simp: refines_on_def)
    qed
  next
    case nB: False
    show ?thesis
    proof (cases "dyn_cast_Cast SExt r")
      case (Some sw)
      obtain src w where sw: "sw = (src, w)" by (cases sw)
      have r: "wt src" "narrow src" "getWidth src \<le> 64" using Some sw p(3,4) narrow_width [of src] by auto
      note tr = trunc_constant [OF p(2) wt_width_pos [OF r(1)], folded p(1)]
      from "3.IH"(7) [OF nB Some sw [symmetric] refl _ p(1) r(1) _ r(2)] nB Some sw r tr p(1) show ?thesis
        by (subst EqExpr_createPartialR.simps) (simp add: Let_def create_0)
    next
      case s: None
      show ?thesis
      proof (cases "dyn_cast_Cast ZExt r")
        case (Some sw)
        obtain src w where sw: "sw = (src, w)" by (cases sw)
        have r: "wt src" "narrow src" "getWidth src \<le> 64" using Some sw p(3,4) narrow_width [of src] by auto
        note tr = trunc_constant [OF p(2) wt_width_pos [OF r(1)], folded p(1)]
        from "3.IH"(6) [OF nB s Some sw [symmetric] refl _ p(1) r(1) _ r(2)] nB s Some sw r tr p(1) show ?thesis
          by (subst EqExpr_createPartialR.simps) (simp add: Let_def create_0)
      next
        case z: None
        show ?thesis
        proof (cases "dyn_cast_constant_left Add r")
          case (Some cb)
          obtain c1 b where cb: "cb = (c1, b)" by (cases cb)
          have r: "ap_wf c1" "wt b" "narrow b" "getBitWidth cl = getBitWidth c1" "getWidth b = getBitWidth c1"
            using Some cb p(3-5) by auto
          note c = ConstantExpr_binop_refines [of cl c1 Sub, simplified, OF p(2) r(1,4)]
          from "3.IH"(5) [OF nB s z Some cb [symmetric] _ p(1) _ r(2,3)] nB s z Some cb r c p(1) show ?thesis
            by (subst EqExpr_createPartialR.simps) (auto simp: refines_def)
        next
          case a: None
          show ?thesis
          proof (cases "dyn_cast_constant_left Sub r")
            case (Some cb)
            obtain c1 b where cb: "cb = (c1, b)" by (cases cb)
            have r: "ap_wf c1" "wt b" "narrow b" "getBitWidth c1 = getBitWidth cl" "getWidth b = getBitWidth cl"
              using Some cb p(3-5) by auto
            note c = ConstantExpr_binop_refines [of c1 cl Sub, simplified, OF r(1) p(2) r(4)]
            from "3.IH"(4) [OF nB s z a Some cb [symmetric] _ p(1) _ r(2,3)] nB s z a Some cb r c p(1) show ?thesis
              by (subst EqExpr_createPartialR.simps) (auto simp: refines_def)
          next
            case b: None
            show ?thesis
            proof (cases "dyn_cast_Read r")
              case (Some x)
              obtain ar u i where x: "x = (ar, u, i)" by (cases x) auto
              have r: "r = ReadExpr ar u i" using Some x by simp
              from "3.IH"(3) [OF nB s z a b Some x [symmetric] refl _ p(1,2)] p(3-5) nB s z a b Some x static show ?thesis
                by (subst EqExpr_createPartialR.simps) (auto simp: r)
            qed (use nB s z a b static in \<open>subst EqExpr_createPartialR.simps; auto\<close>)
          qed
        qed
      qed
    qed
  qed
next
  case (4 R' cl a u i)
  note p = "4.prems"
  show ?case
  proof (cases "isSymbolicArray a \<or> update_size u \<noteq> 0")
    case True
    with p show ?thesis by (subst TryConstArrayOpt.simps) (simp add: static_narrow)
  next
    case False
    with "4.IH" [OF False p(1-5)] p(1) show ?thesis
      by (subst TryConstArrayOpt.simps) (auto simp: alloc_0 ap_wf_def isConstantArray_def)
  qed
next
  case (5 R' cl a u i j m res)
  note p = "5.prems"
  show ?case
  proof (cases "arr_size a \<le> j")
    case True
    with p show ?thesis by (subst TryConstArrayOpt_loop.simps) simp
  next
    case False
    then have j: "j < length (constantValues a)"
      using p(3,6) by (auto simp: array_ok_def isConstantArray_def isSymbolicArray_def)
    show ?thesis
    proof (cases "cl = constantValues a ! j \<and> \<not> 100 < m + 1")
      case True
      then have match: "cl = constantValues a ! j" "\<not> 100 < m + 1" by auto
      have c: "ConstantExpr_alloc R' (of_nat j) (getWidth i) = APInt Int32 (int j)"
        using p(1,3) False alloc_index [of a j "getWidth i"] by auto
      have wf: "ap_wf (APInt Int32 (int j))" using p(3) False ap_wf_index [of a j] by auto
      obtain mayBe where mb: "EqExpr_create R' i (ConstantExpr (APInt Int32 (int j))) = Some mayBe" "narrow mayBe"
        using "5.IH"(1) [OF False _ match p(1), unfolded c] p wf j by auto
      note mb' = eq_or_refines(1) [OF _ _ mb(1) [unfolded p(1)]]
      have w: "wt mayBe" "getWidth mayBe = Bool" using mb' p(3) wf by (auto simp: refines_on_def)
      obtain res' where r': "OrExpr_create R' res mayBe = Some res'" "narrow res'"
        using "5.IH"(2) [OF False _ match mb(1) [folded c] p(1,7) w(1) p(8) mb(2)] w p(9) j by auto
      have "wt res'" "getWidth res' = Bool"
        using eq_or_refines(6) [OF p(7) w(1) r'(1) [unfolded p(1)]] p(9) by (auto simp: refines_def)
      with "5.IH"(3) [OF False _ match mb(1) [folded c] r'(1) p(1-6)] r' mb match False j c show ?thesis
        by (subst TryConstArrayOpt_loop.simps) auto
    next
      case nomatch: False
      with "5.IH"(4) [OF False _ _ p] p False j show ?thesis
        by (subst TryConstArrayOpt_loop.simps) (auto simp: static_narrow)
    qed
  qed
next
  case (6 R' l r)
  note p = "6.prems"
  show ?case
  proof (cases "dyn_cast_Constant l"; cases "dyn_cast_Constant r")
    assume c: "dyn_cast_Constant l = None" "dyn_cast_Constant r = None"
    with p "6.IH" [OF _ c] show ?thesis by (subst OrExpr_create.simps) auto
  next
    fix cl cr assume "dyn_cast_Constant l = Some cl" "dyn_cast_Constant r = Some cr"
    with p ConstantExpr_binop_refines [of cl cr Or] show ?thesis
      by (subst OrExpr_create.simps) (auto simp: refines_def)
  next
    fix cr assume "dyn_cast_Constant l = None" "dyn_cast_Constant r = Some cr"
    with p OrExpr_createPartial_total [of l cr] show ?thesis
      by (subst OrExpr_create.simps) auto
  next
    fix cl assume "dyn_cast_Constant l = Some cl" "dyn_cast_Constant r = None"
    with p OrExpr_createPartial_total [of r cl] show ?thesis
      by (subst OrExpr_create.simps) (auto simp: OrExpr_createPartialR_def)
  qed
next
  case (7 R' l r)
  note p = "7.prems"
  obtain n where n: "isNegationOf l r = Some n" using isNegationOf_total [of l r] p by auto
  obtain al where al: "absorb And l r = Some al" using absorb_total [of l r And] p by auto
  obtain ar where ar: "absorb And r l = Some ar" using absorb_total [of r l And] p by auto
  obtain np where np: "negated_pair l r = Some np" using negated_pair_total [of l r] p by auto
  obtain c where c: "complementary l r = Some c" using complementary_total [of l r] p by auto
  obtain c' where c': "complementary r l = Some c'" using complementary_total [of r l] p by auto
  show ?case
  proof (cases n)
    case True
    with n p show ?thesis by (subst static_OrExpr_create.simps) (auto simp: create_1)
  next
    case n': False
    show ?thesis
    proof (cases al)
      case (Some b)
      note ab = absorb_eval(1,2,3) [OF al [unfolded Some] p(2,3,6)] absorb_narrow [OF al [unfolded Some] p(4)]
      with "7.IH"(3) [OF n _ al Some p(1)] n' p n al Some show ?thesis
        by (subst static_OrExpr_create.simps) auto
    next
      case al': None
      show ?thesis
      proof (cases ar)
        case (Some b)
        note ab = absorb_eval(1,2,3) [OF ar [unfolded Some] p(3,2) p(6) [symmetric]]
          absorb_narrow [OF ar [unfolded Some] p(5)]
        with "7.IH"(2) [OF n _ al al' ar Some p(1)] n' p n al al' ar Some show ?thesis
          by (subst static_OrExpr_create.simps) auto
      next
        case ar': None
        show ?thesis
        proof (cases np)
          case (Some ab)
          obtain a b where ab: "ab = (a, b)" by (cases ab)
          note ne = negated_pair_eval(1-4) [OF np [unfolded Some ab] p(2,3)]
            negated_pair_narrow [OF np [unfolded Some ab] p(4,5)]
          obtain x where x: "AndExpr_create R' a b = Some x" "narrow x"
            using and_create_total(1) [of a b] ne p(1) by auto
          note nx = and_create_refines(1) [OF ne(1,2) x(1) [unfolded p(1)]]
          from "7.IH"(1) [OF n _ al al' ar ar' np Some ab [symmetric] x(1) p(1) refines_wt [OF nx] x(2)]
            n' n al al' ar ar' np Some ab x show ?thesis
            by (subst static_OrExpr_create.simps) auto
        next
          case np': None
          with n n' al al' ar ar' np p c c' show ?thesis
            by (subst static_OrExpr_create.simps) (auto simp: create_1)
        qed
      qed
    qed
  qed
qed

lemmas eq_or_total = eq_or_total_aux [OF refl]

end

end
