(* ===== verification/ExprArith.thy ===== *)
theory ExprArith
  imports ExprEq
begin

text \<open>
  The constructors of the arithmetic, shift and comparison nodes (\<^verbatim>\<open>src/klee/lib/Expr/Expr.cpp\<close>):
  \<^verbatim>\<open>XorExpr\<close>, \<^verbatim>\<open>AddExpr\<close>, \<^verbatim>\<open>SubExpr\<close>, \<^verbatim>\<open>MulExpr\<close>, the divisions, the shifts and the orderings. The macros
  \<^verbatim>\<open>BCREATE_R\<close>, \<^verbatim>\<open>BCREATE\<close> and \<^verbatim>\<open>CMPCREATE\<close> are functions of the static functions they paste in.
\<close>

section \<open>The macros\<close>

definition BCREATE_R ::
  "klee_rt \<Rightarrow> bkind \<Rightarrow> (expr \<Rightarrow> apint \<Rightarrow> expr option) \<Rightarrow> (apint \<Rightarrow> expr \<Rightarrow> expr option) \<Rightarrow> (expr \<Rightarrow> expr \<Rightarrow> expr option)
    \<Rightarrow> expr \<Rightarrow> expr \<Rightarrow> expr option" where
  "BCREATE_R R op partialL partialR static l r =
     do { require (getWidth l = getWidth r);
          case dyn_cast_Constant l of
            Some cl \<Rightarrow>
              (case dyn_cast_Constant r of
                 Some cr \<Rightarrow> Some (ConstantExpr (ConstantExpr_binop R op cl cr))
               | None \<Rightarrow> partialR cl r)
          | None \<Rightarrow>
              (case dyn_cast_Constant r of
                 Some cr \<Rightarrow> partialL l cr
               | None \<Rightarrow> static l r) }"

definition BCREATE :: "klee_rt \<Rightarrow> bkind \<Rightarrow> (expr \<Rightarrow> expr \<Rightarrow> expr option) \<Rightarrow> expr \<Rightarrow> expr \<Rightarrow> expr option" where
  "BCREATE R op static l r =
     do { require (getWidth l = getWidth r);
          case (dyn_cast_Constant l, dyn_cast_Constant r) of
            (Some cl, Some cr) \<Rightarrow> Some (ConstantExpr (ConstantExpr_binop R op cl cr))
          | _ \<Rightarrow> static l r }"

text \<open>\<^verbatim>\<open>CMPCREATE\<close> expands to what \<^verbatim>\<open>BCREATE\<close> does with the empty \<^verbatim>\<open>__LIFT_CONST_SELECT_2\<close>.\<close>

definition CMPCREATE :: "klee_rt \<Rightarrow> bkind \<Rightarrow> (expr \<Rightarrow> expr \<Rightarrow> expr option) \<Rightarrow> expr \<Rightarrow> expr \<Rightarrow> expr option" where
  "CMPCREATE R op static l r =
     do { require (getWidth l = getWidth r);
          case (dyn_cast_Constant l, dyn_cast_Constant r) of
            (Some cl, Some cr) \<Rightarrow> Some (ConstantExpr (ConstantExpr_binop R op cl cr))
          | _ \<Rightarrow> static l r }"

section \<open>Xor\<close>

definition XorExpr_createPartialR :: "klee_rt \<Rightarrow> apint \<Rightarrow> expr \<Rightarrow> expr option" where
  "XorExpr_createPartialR R cl r =
     do { z \<leftarrow> ConstantExpr_isZero cl;
          if z then Some r
          else if getBitWidth cl = Bool then
            do { c \<leftarrow> ConstantExpr_create R 0 Bool; EqExpr_createPartialR R c r }
          else Some (XorExpr (ConstantExpr cl) r) }"

definition XorExpr_createPartial :: "klee_rt \<Rightarrow> expr \<Rightarrow> apint \<Rightarrow> expr option" where
  "XorExpr_createPartial R l cr = XorExpr_createPartialR R cr l"

definition static_XorExpr_create :: "klee_rt \<Rightarrow> expr \<Rightarrow> expr \<Rightarrow> expr option" where
  "static_XorExpr_create R l r =
     (if same_object R l r then Some (ConstantExpr (ConstantExpr_alloc R 0 (getWidth l)))
      else do { n \<leftarrow> isNegationOf l r;
                Some (if n then ConstantExpr (ConstantExpr_alloc R 1 Bool) else XorExpr l r) })"

definition XorExpr_create :: "klee_rt \<Rightarrow> expr \<Rightarrow> expr \<Rightarrow> expr option" where
  "XorExpr_create R =
     BCREATE_R R Xor (XorExpr_createPartial R) (XorExpr_createPartialR R) (static_XorExpr_create R)"

section \<open>Add and Sub\<close>

text \<open>
  The sum or difference of two constants inside these functions, \<^verbatim>\<open>AddExpr::create(cl, r->getKid(0))\<close>, is
  written out as what \<^verbatim>\<open>create\<close> does with two constants.
\<close>

definition fold_constants :: "klee_rt \<Rightarrow> bkind \<Rightarrow> apint \<Rightarrow> apint \<Rightarrow> apint option" where
  "fold_constants R op a b =
     do { require (getBitWidth a = getBitWidth b); Some (ConstantExpr_binop R op a b) }"

text \<open>Which operand of a sum or difference is itself a sum or difference with a constant on its left.\<close>

datatype add_shape =
  LeftAdd apint expr | LeftSub apint expr | RightAdd apint expr | RightSub apint expr | NoShape

definition add_shape :: "expr \<Rightarrow> expr \<Rightarrow> add_shape" where
  "add_shape l r =
     (case dyn_cast_constant_left Add l of Some (k, a) \<Rightarrow> LeftAdd k a | None \<Rightarrow>
     (case dyn_cast_constant_left Sub l of Some (k, a) \<Rightarrow> LeftSub k a | None \<Rightarrow>
     (case dyn_cast_constant_left Add r of Some (k, b) \<Rightarrow> RightAdd k b | None \<Rightarrow>
     (case dyn_cast_constant_left Sub r of Some (k, b) \<Rightarrow> RightSub k b | None \<Rightarrow> NoShape))))"

lemma add_shape_simps:
  "add_shape l r = LeftAdd k a \<Longrightarrow> l = AddExpr (ConstantExpr k) a"
  "add_shape l r = LeftSub k a \<Longrightarrow> l = SubExpr (ConstantExpr k) a"
  "add_shape l r = RightAdd k b \<Longrightarrow> r = AddExpr (ConstantExpr k) b"
  "add_shape l r = RightSub k b \<Longrightarrow> r = SubExpr (ConstantExpr k) b"
  by (auto simp: add_shape_def split: option.splits)

function (sequential)
  AddExpr_create :: "klee_rt \<Rightarrow> expr \<Rightarrow> expr \<Rightarrow> expr option"
  and AddExpr_createPartialR :: "klee_rt \<Rightarrow> apint \<Rightarrow> expr \<Rightarrow> expr option"
  and static_AddExpr_create :: "klee_rt \<Rightarrow> expr \<Rightarrow> expr \<Rightarrow> expr option"
  and SubExpr_create :: "klee_rt \<Rightarrow> expr \<Rightarrow> expr \<Rightarrow> expr option"
  and SubExpr_createPartialR :: "klee_rt \<Rightarrow> apint \<Rightarrow> expr \<Rightarrow> expr option"
  and SubExpr_createPartial :: "klee_rt \<Rightarrow> expr \<Rightarrow> apint \<Rightarrow> expr option"
  and static_SubExpr_create :: "klee_rt \<Rightarrow> expr \<Rightarrow> expr \<Rightarrow> expr option" where
  "AddExpr_create R l r =
     do { require (getWidth l = getWidth r);
          case dyn_cast_Constant l of
            Some cl \<Rightarrow>
              (case dyn_cast_Constant r of
                 Some cr \<Rightarrow> Some (ConstantExpr (ConstantExpr_binop R Add cl cr))
               | None \<Rightarrow> AddExpr_createPartialR R cl r)
          | None \<Rightarrow>
              (case dyn_cast_Constant r of
                 Some cr \<Rightarrow> AddExpr_createPartialR R cr l
               | None \<Rightarrow> static_AddExpr_create R l r) }"
| "AddExpr_createPartialR R cl r =
     (if getBitWidth cl = Bool then XorExpr_createPartialR R cl r
      else do { z \<leftarrow> ConstantExpr_isZero cl;
          if z then Some r
          else (case dyn_cast_constant_left Add r of
              Some (k, c) \<Rightarrow> do { s \<leftarrow> fold_constants R Add cl k; AddExpr_create R (ConstantExpr s) c }
            | None \<Rightarrow> (case dyn_cast_constant_left Sub r of
              Some (k, c) \<Rightarrow> do { s \<leftarrow> fold_constants R Add cl k; SubExpr_create R (ConstantExpr s) c }
            | None \<Rightarrow> Some (AddExpr (ConstantExpr cl) r))) })"
| "static_AddExpr_create R l r =
     (if getWidth l = Bool then static_XorExpr_create R l r
      else (case add_shape l r of
          LeftAdd k a \<Rightarrow> do { x \<leftarrow> AddExpr_create R a r; AddExpr_create R (ConstantExpr k) x }
        | LeftSub k a \<Rightarrow> do { x \<leftarrow> SubExpr_create R r a; AddExpr_create R (ConstantExpr k) x }
        | RightAdd k b \<Rightarrow> do { x \<leftarrow> AddExpr_create R l b; AddExpr_create R (ConstantExpr k) x }
        | RightSub k b \<Rightarrow> do { x \<leftarrow> SubExpr_create R l b; AddExpr_create R (ConstantExpr k) x }
        | NoShape \<Rightarrow> Some (AddExpr l r)))"
| "SubExpr_create R l r =
     do { require (getWidth l = getWidth r);
          case dyn_cast_Constant l of
            Some cl \<Rightarrow>
              (case dyn_cast_Constant r of
                 Some cr \<Rightarrow> Some (ConstantExpr (ConstantExpr_binop R Sub cl cr))
               | None \<Rightarrow> SubExpr_createPartialR R cl r)
          | None \<Rightarrow>
              (case dyn_cast_Constant r of
                 Some cr \<Rightarrow> SubExpr_createPartial R l cr
               | None \<Rightarrow> static_SubExpr_create R l r) }"
| "SubExpr_createPartialR R cl r =
     (if getBitWidth cl = Bool then XorExpr_createPartialR R cl r
      else (case dyn_cast_constant_left Add r of
          Some (k, c) \<Rightarrow> do { s \<leftarrow> fold_constants R Sub cl k; SubExpr_create R (ConstantExpr s) c }
        | None \<Rightarrow> (case dyn_cast_constant_left Sub r of
          Some (k, c) \<Rightarrow> do { s \<leftarrow> fold_constants R Sub cl k; AddExpr_create R (ConstantExpr s) c }
        | None \<Rightarrow> Some (SubExpr (ConstantExpr cl) r))))"
| "SubExpr_createPartial R l cr =
     AddExpr_createPartialR R (ConstantExpr_binop R Sub (ConstantExpr_alloc R 0 (getBitWidth cr)) cr) l"
| "static_SubExpr_create R l r =
     (if getWidth l = Bool then static_XorExpr_create R l r
      else if l = r then Some (ConstantExpr (ConstantExpr_alloc R 0 (getWidth l)))
      else (case add_shape l r of
          LeftAdd k a \<Rightarrow> do { x \<leftarrow> SubExpr_create R a r; AddExpr_create R (ConstantExpr k) x }
        | LeftSub k a \<Rightarrow> do { x \<leftarrow> AddExpr_create R a r; SubExpr_create R (ConstantExpr k) x }
        | RightAdd k b \<Rightarrow> do { x \<leftarrow> SubExpr_create R l b; SubExpr_create R x (ConstantExpr k) }
        | RightSub k b \<Rightarrow> do { x \<leftarrow> AddExpr_create R l b; SubExpr_create R x (ConstantExpr k) }
        | NoShape \<Rightarrow> Some (SubExpr l r)))"
  by pat_completeness auto

text \<open>
  Termination: with a constant operand the calls only go down in the other one; without one the
  calls that rebuild around the constant have one.
\<close>

abbreviation add_level :: "expr \<Rightarrow> expr \<Rightarrow> nat" where
  "add_level l r \<equiv> (if is_constant l \<or> is_constant r then 0 else 1)"

termination AddExpr_create
  by (relation "measures
      [\<lambda>x. case x of
          Inl (Inl (R, l, r)) \<Rightarrow> add_level l r
        | Inl (Inr (Inl _)) \<Rightarrow> 0
        | Inl (Inr (Inr _)) \<Rightarrow> 1
        | Inr (Inl (Inl (R, l, r))) \<Rightarrow> add_level l r
        | Inr (Inl (Inr _)) \<Rightarrow> 0
        | Inr (Inr (Inl _)) \<Rightarrow> 0
        | Inr (Inr (Inr _)) \<Rightarrow> 1,
       \<lambda>x. case x of
          Inl (Inl (R, l, r)) \<Rightarrow> size l + size r
        | Inl (Inr (Inl (R, c, r))) \<Rightarrow> size r
        | Inl (Inr (Inr (R, l, r))) \<Rightarrow> size l + size r
        | Inr (Inl (Inl (R, l, r))) \<Rightarrow> size l + size r
        | Inr (Inl (Inr (R, c, r))) \<Rightarrow> size r
        | Inr (Inr (Inl (R, l, c))) \<Rightarrow> size l
        | Inr (Inr (Inr (R, l, r))) \<Rightarrow> size l + size r,
       \<lambda>x. case x of
          Inl (Inl _) \<Rightarrow> 2 | Inl (Inr _) \<Rightarrow> 0
        | Inr (Inl (Inl _)) \<Rightarrow> 2 | Inr (Inl (Inr _)) \<Rightarrow> 0 | Inr (Inr (Inl _)) \<Rightarrow> 1 | Inr (Inr (Inr _)) \<Rightarrow> 0]")
    (auto simp: is_constant_dyn_cast dest!: add_shape_simps)

declare AddExpr_create.simps [simp del] AddExpr_createPartialR.simps [simp del] static_AddExpr_create.simps [simp del]
  SubExpr_create.simps [simp del] SubExpr_createPartialR.simps [simp del] SubExpr_createPartial.simps [simp del]
  static_SubExpr_create.simps [simp del]

lemmas add_sub_induct =
  AddExpr_create_AddExpr_createPartialR_static_AddExpr_create_SubExpr_create_SubExpr_createPartialR_SubExpr_createPartial_static_SubExpr_create.induct

section \<open>Multiplication, divisions and shifts\<close>

definition MulExpr_createPartialR :: "apint \<Rightarrow> expr \<Rightarrow> expr option" where
  "MulExpr_createPartialR cl r =
     (if getBitWidth cl = Bool then AndExpr_createPartialR cl r
      else do { one \<leftarrow> ConstantExpr_isOne cl;
          if one then Some r
          else do { z \<leftarrow> ConstantExpr_isZero cl;
                    Some (if z then ConstantExpr cl else MulExpr (ConstantExpr cl) r) } })"

definition MulExpr_createPartial :: "expr \<Rightarrow> apint \<Rightarrow> expr option" where
  "MulExpr_createPartial l cr = MulExpr_createPartialR cr l"

definition static_MulExpr_create :: "expr \<Rightarrow> expr \<Rightarrow> expr option" where
  "static_MulExpr_create l r = Some (if getWidth l = Bool then AndExpr l r else MulExpr l r)"

definition MulExpr_create :: "klee_rt \<Rightarrow> expr \<Rightarrow> expr \<Rightarrow> expr option" where
  "MulExpr_create R = BCREATE_R R Mul MulExpr_createPartial MulExpr_createPartialR static_MulExpr_create"

definition static_UDivExpr_create :: "expr \<Rightarrow> expr \<Rightarrow> expr option" where
  "static_UDivExpr_create l r = Some (if getWidth l = Bool then l else UDivExpr l r)"

definition UDivExpr_create :: "klee_rt \<Rightarrow> expr \<Rightarrow> expr \<Rightarrow> expr option" where
  "UDivExpr_create R = BCREATE R UDiv static_UDivExpr_create"

definition static_SDivExpr_create :: "expr \<Rightarrow> expr \<Rightarrow> expr option" where
  "static_SDivExpr_create l r = Some (if getWidth l = Bool then l else SDivExpr l r)"

definition SDivExpr_create :: "klee_rt \<Rightarrow> expr \<Rightarrow> expr \<Rightarrow> expr option" where
  "SDivExpr_create R = BCREATE R SDiv static_SDivExpr_create"

definition static_URemExpr_create :: "klee_rt \<Rightarrow> expr \<Rightarrow> expr \<Rightarrow> expr option" where
  "static_URemExpr_create R l r =
     (if getWidth l = Bool then map_option ConstantExpr (ConstantExpr_create R 0 Bool)
      else Some (URemExpr l r))"

definition URemExpr_create :: "klee_rt \<Rightarrow> expr \<Rightarrow> expr \<Rightarrow> expr option" where
  "URemExpr_create R = BCREATE R URem (static_URemExpr_create R)"

definition static_SRemExpr_create :: "klee_rt \<Rightarrow> expr \<Rightarrow> expr \<Rightarrow> expr option" where
  "static_SRemExpr_create R l r =
     (if getWidth l = Bool then map_option ConstantExpr (ConstantExpr_create R 0 Bool)
      else Some (SRemExpr l r))"

definition SRemExpr_create :: "klee_rt \<Rightarrow> expr \<Rightarrow> expr \<Rightarrow> expr option" where
  "SRemExpr_create R = BCREATE R SRem (static_SRemExpr_create R)"

definition static_ShlExpr_create :: "klee_rt \<Rightarrow> expr \<Rightarrow> expr \<Rightarrow> expr option" where
  "static_ShlExpr_create R l r =
     (if getWidth l = Bool then do { z \<leftarrow> createIsZero R r; AndExpr_create R l z }
      else Some (ShlExpr l r))"

definition ShlExpr_create :: "klee_rt \<Rightarrow> expr \<Rightarrow> expr \<Rightarrow> expr option" where
  "ShlExpr_create R = BCREATE R Shl (static_ShlExpr_create R)"

definition static_LShrExpr_create :: "klee_rt \<Rightarrow> expr \<Rightarrow> expr \<Rightarrow> expr option" where
  "static_LShrExpr_create R l r =
     (if getWidth l = Bool then do { z \<leftarrow> createIsZero R r; AndExpr_create R l z }
      else Some (LShrExpr l r))"

definition LShrExpr_create :: "klee_rt \<Rightarrow> expr \<Rightarrow> expr \<Rightarrow> expr option" where
  "LShrExpr_create R = BCREATE R LShr (static_LShrExpr_create R)"

definition static_AShrExpr_create :: "expr \<Rightarrow> expr \<Rightarrow> expr option" where
  "static_AShrExpr_create l r = Some (if getWidth l = Bool then l else AShrExpr l r)"

definition AShrExpr_create :: "klee_rt \<Rightarrow> expr \<Rightarrow> expr \<Rightarrow> expr option" where
  "AShrExpr_create R = BCREATE R AShr static_AShrExpr_create"

section \<open>Comparisons\<close>

definition NeExpr_create :: "klee_rt \<Rightarrow> expr \<Rightarrow> expr \<Rightarrow> expr option" where
  "NeExpr_create R l r =
     do { z \<leftarrow> ConstantExpr_create R 0 Bool;
          e \<leftarrow> EqExpr_create R l r;
          EqExpr_create R (ConstantExpr z) e }"

definition static_UltExpr_create :: "klee_rt \<Rightarrow> expr \<Rightarrow> expr \<Rightarrow> expr option" where
  "static_UltExpr_create R l r =
     (if getWidth l = Bool then do { z \<leftarrow> createIsZero R l; AndExpr_create R z r }
      else Some (UltExpr l r))"

definition UltExpr_create :: "klee_rt \<Rightarrow> expr \<Rightarrow> expr \<Rightarrow> expr option" where
  "UltExpr_create R = CMPCREATE R Ult (static_UltExpr_create R)"

definition static_UleExpr_create :: "klee_rt \<Rightarrow> expr \<Rightarrow> expr \<Rightarrow> expr option" where
  "static_UleExpr_create R l r =
     (if getWidth l = Bool then do { z \<leftarrow> createIsZero R l; OrExpr_create R z r }
      else Some (UleExpr l r))"

definition UleExpr_create :: "klee_rt \<Rightarrow> expr \<Rightarrow> expr \<Rightarrow> expr option" where
  "UleExpr_create R = CMPCREATE R Ule (static_UleExpr_create R)"

definition static_SltExpr_create :: "klee_rt \<Rightarrow> expr \<Rightarrow> expr \<Rightarrow> expr option" where
  "static_SltExpr_create R l r =
     (if getWidth l = Bool then do { z \<leftarrow> createIsZero R r; AndExpr_create R l z }
      else Some (SltExpr l r))"

definition SltExpr_create :: "klee_rt \<Rightarrow> expr \<Rightarrow> expr \<Rightarrow> expr option" where
  "SltExpr_create R = CMPCREATE R Slt (static_SltExpr_create R)"

definition static_SleExpr_create :: "klee_rt \<Rightarrow> expr \<Rightarrow> expr \<Rightarrow> expr option" where
  "static_SleExpr_create R l r =
     (if getWidth l = Bool then do { z \<leftarrow> createIsZero R r; OrExpr_create R l z }
      else Some (SleExpr l r))"

definition SleExpr_create :: "klee_rt \<Rightarrow> expr \<Rightarrow> expr \<Rightarrow> expr option" where
  "SleExpr_create R = CMPCREATE R Sle (static_SleExpr_create R)"

definition UgtExpr_create :: "klee_rt \<Rightarrow> expr \<Rightarrow> expr \<Rightarrow> expr option" where
  "UgtExpr_create R l r = UltExpr_create R r l"

definition UgeExpr_create :: "klee_rt \<Rightarrow> expr \<Rightarrow> expr \<Rightarrow> expr option" where
  "UgeExpr_create R l r = UleExpr_create R r l"

definition SgtExpr_create :: "klee_rt \<Rightarrow> expr \<Rightarrow> expr \<Rightarrow> expr option" where
  "SgtExpr_create R l r = SltExpr_create R r l"

definition SgeExpr_create :: "klee_rt \<Rightarrow> expr \<Rightarrow> expr \<Rightarrow> expr option" where
  "SgeExpr_create R l r = SleExpr_create R r l"

text \<open>The binary cases of \<^verbatim>\<open>Expr::createFromKind\<close>.\<close>

fun Binary_create :: "klee_rt \<Rightarrow> bkind \<Rightarrow> expr \<Rightarrow> expr \<Rightarrow> expr option" where
  "Binary_create R Add = AddExpr_create R"
| "Binary_create R Sub = SubExpr_create R"
| "Binary_create R Mul = MulExpr_create R"
| "Binary_create R UDiv = UDivExpr_create R"
| "Binary_create R SDiv = SDivExpr_create R"
| "Binary_create R URem = URemExpr_create R"
| "Binary_create R SRem = SRemExpr_create R"
| "Binary_create R And = AndExpr_create R"
| "Binary_create R Or = OrExpr_create R"
| "Binary_create R Xor = XorExpr_create R"
| "Binary_create R Shl = ShlExpr_create R"
| "Binary_create R LShr = LShrExpr_create R"
| "Binary_create R AShr = AShrExpr_create R"
| "Binary_create R Eq = EqExpr_create R"
| "Binary_create R Ne = NeExpr_create R"
| "Binary_create R Ult = UltExpr_create R"
| "Binary_create R Ule = UleExpr_create R"
| "Binary_create R Ugt = UgtExpr_create R"
| "Binary_create R Uge = UgeExpr_create R"
| "Binary_create R Slt = SltExpr_create R"
| "Binary_create R Sle = SleExpr_create R"
| "Binary_create R Sgt = SgtExpr_create R"
| "Binary_create R Sge = SgeExpr_create R"

section \<open>Soundness\<close>

text \<open>
  A division by the constant zero stops in APInt; the value of a division and of an equality is
  the one meant where the divisor is not zero and the reads of the operands are in range.
\<close>

definition divisor_ok :: "bkind \<Rightarrow> expr \<Rightarrow> bool" where
  "divisor_ok k r \<longleftrightarrow> (k \<in> {UDiv, SDiv, URem, SRem} \<longrightarrow> (\<forall>c. r = ConstantExpr c \<longrightarrow> apValue c \<noteq> 0))"

definition binary_cond :: "bkind \<Rightarrow> expr \<Rightarrow> expr \<Rightarrow> assignment \<Rightarrow> bool" where
  "binary_cond k l r \<sigma> \<longleftrightarrow>
     (k \<in> {UDiv, SDiv, URem, SRem} \<longrightarrow> eval \<sigma> r \<noteq> 0)
     \<and> (k \<in> {Eq, Ne} \<longrightarrow> eq_cond l \<sigma> \<and> eq_cond r \<sigma>)"

lemma CMPCREATE_eq: "CMPCREATE = BCREATE"
  by (intro ext) (simp add: CMPCREATE_def BCREATE_def)

lemma refines_cong: "refines w v e \<Longrightarrow> (\<And>\<sigma>. v \<sigma> = v' \<sigma>) \<Longrightarrow> refines w v' e"
  by (simp add: refines_def)

lemma take_bit_arith:
  "take_bit w (take_bit w a + b) = take_bit w (a + b)" "take_bit w (a + take_bit w b) = take_bit w (a + b)"
  "take_bit w (take_bit w a - b) = take_bit w (a - b)" "take_bit w (a - take_bit w b) = take_bit w (a - (b :: int))"
  for a b :: int
  by (simp_all add: take_bit_eq_mod mod_simps)

lemma xor_Bool:
  assumes "bv w a" "w = Bool" "bv w b"
  shows "a XOR b = take_bit w (a + b)" "a XOR b = take_bit w (a - b)"
  using assms by (auto simp: bv_Suc_0_iff)

lemma and_Bool:
  assumes "bv w a" "w = Bool" "bv w b"
  shows "a AND b = take_bit w (a * b)"
  using assms by (auto simp: bv_Suc_0_iff)

context klee_rt_laws
begin

lemma isZero_Bool_refines:
  assumes "wt e" "getWidth e = Bool" "createIsZero R e = Some z"
  shows "refines Bool (\<lambda>\<sigma>. of_bool (eval \<sigma> e = 0)) z"
  using eq_or_refines(2) [OF assms(1,3)] assms(2) by (simp add: refines_on_def refines_def eq_cond_def)

lemma BCREATE_refines:
  assumes "wt l" "wt r" "BCREATE R k static l r = Some e"
    "k \<in> {UDiv, SDiv, URem, SRem} \<Longrightarrow> (\<forall>c. r = ConstantExpr c \<longrightarrow> apValue c \<noteq> 0)"
    "getWidth l = getWidth r \<Longrightarrow> static l r = Some e \<Longrightarrow>
       refines_on P (if is_cmp k then Bool else getWidth l) (\<lambda>\<sigma>. eval_binary k (getWidth l) (eval \<sigma> l) (eval \<sigma> r)) e"
  shows "refines_on P (if is_cmp k then Bool else getWidth l) (\<lambda>\<sigma>. eval_binary k (getWidth l) (eval \<sigma> l) (eval \<sigma> r)) e"
proof (cases "dyn_cast_Constant l"; cases "dyn_cast_Constant r")
  fix cl cr assume "dyn_cast_Constant l = Some cl" "dyn_cast_Constant r = Some cr"
  then show ?thesis
    using assms(1-4) ConstantExpr_binop_refines [of cl cr k]
    by (auto simp: BCREATE_def intro!: refines_imp_refines_on)
qed (use assms in \<open>auto simp: BCREATE_def\<close>)

lemma XorExpr_createPartialR_refines:
  assumes "ap_wf cl" "wt r" "getBitWidth cl = getWidth r" "XorExpr_createPartialR R cl r = Some e"
  shows "refines (getWidth r) (\<lambda>\<sigma>. apValue cl XOR eval \<sigma> r) e"
proof -
  obtain z where z: "ConstantExpr_isZero cl = Some z"
    using assms(4) by (auto simp: XorExpr_createPartialR_def option_bind_simps)
  note zi = ConstantExpr_isZero_iff [OF assms(1) z]
  show ?thesis
  proof (cases "\<not> z \<and> getBitWidth cl = Bool")
    case True
    then have e: "EqExpr_createPartialR R (APInt Bool 0) r = Some e"
      using assms(4) z by (auto simp: XorExpr_createPartialR_def create_0)
    have c: "apValue cl = 1" using True zi ap_wf_bv [OF assms(1)] by (auto simp: bv_Suc_0_iff)
    have "refines_on (eq_cond r) Bool (\<lambda>\<sigma>. of_bool (0 = eval \<sigma> r)) e"
      using eq_or_refines(3) [OF _ assms(2) _ e] True assms(3) by (simp add: ap_wf_def)
    moreover have "1 XOR eval \<sigma> r = of_bool (0 = eval \<sigma> r)" for \<sigma>
      using eval_bv [OF assms(2), of \<sigma>] True assms(3) by (auto simp: bv_width_1)
    ultimately show ?thesis using True assms(3) c by (auto simp: refines_def refines_on_def eq_cond_def)
  next
    case False
    with assms z zi show ?thesis by (auto simp: XorExpr_createPartialR_def refines_def split: if_splits)
  qed
qed

lemma static_XorExpr_create_refines:
  assumes "wt l" "wt r" "getWidth l = getWidth r" "static_XorExpr_create R l r = Some e"
  shows "refines (getWidth l) (\<lambda>\<sigma>. eval \<sigma> l XOR eval \<sigma> r) e"
proof (cases "same_object R l r")
  case True
  with assms same_object_eq [OF True] show ?thesis
    by (auto simp: static_XorExpr_create_def refines_def alloc_0 ap_wf_def)
next
  case False
  then obtain n where n: "isNegationOf l r = Some n"
    using assms(4) by (auto simp: static_XorExpr_create_def option_bind_simps)
  have "eval \<sigma> l XOR eval \<sigma> r = 1" if n for \<sigma>
    using isNegationOf_eval(1) [of l r] isNegationOf_eval(2) [of l r \<sigma>] eval_bv [of r \<sigma>] n that assms(1-3)
    by (auto simp: bv_Suc_0_iff)
  with False n assms isNegationOf_eval(1) [of l r] show ?thesis
    by (auto simp: static_XorExpr_create_def refines_def alloc_1 ap_wf_def)
qed

lemma XorExpr_create_refines:
  assumes "wt l" "wt r" "XorExpr_create R l r = Some e"
  shows "refines (getWidth l) (\<lambda>\<sigma>. eval \<sigma> l XOR eval \<sigma> r) e"
proof (cases "dyn_cast_Constant l"; cases "dyn_cast_Constant r")
  fix cl cr assume "dyn_cast_Constant l = Some cl" "dyn_cast_Constant r = Some cr"
  then show ?thesis using assms ConstantExpr_binop_refines [of cl cr Xor]
    by (auto simp: XorExpr_create_def BCREATE_R_def)
next
  fix cr assume "dyn_cast_Constant l = None" "dyn_cast_Constant r = Some cr"
  then show ?thesis using assms XorExpr_createPartialR_refines [of cr l e]
    by (auto simp: XorExpr_create_def BCREATE_R_def XorExpr_createPartial_def xor.commute)
next
  fix cl assume "dyn_cast_Constant l = Some cl" "dyn_cast_Constant r = None"
  then show ?thesis using assms XorExpr_createPartialR_refines [of cl r e]
    by (auto simp: XorExpr_create_def BCREATE_R_def)
next
  assume "dyn_cast_Constant l = None" "dyn_cast_Constant r = None"
  then show ?thesis using assms static_XorExpr_create_refines [of l r e]
    by (auto simp: XorExpr_create_def BCREATE_R_def)
qed

lemma fold_constants_refines:
  assumes "ap_wf a" "ap_wf b" "op \<in> {Add, Sub}" "fold_constants R op a b = Some c"
  shows "ap_wf c" "getBitWidth c = getBitWidth b" "getBitWidth a = getBitWidth b"
    "apValue c = eval_binary op (getBitWidth b) (apValue a) (apValue b)"
  using assms(3,4) ConstantExpr_binop_refines [OF assms(1,2), of op]
  by (auto simp: fold_constants_def refines_def)

lemma neg_constant:
  assumes "ap_wf c"
  defines "n \<equiv> ConstantExpr_binop R Sub (ConstantExpr_alloc R 0 (getBitWidth c)) c"
  shows "ap_wf n" "getBitWidth n = getBitWidth c" "apValue n = take_bit (getBitWidth c) (- apValue c)"
  using ConstantExpr_binop_refines [of "ConstantExpr_alloc R 0 (getBitWidth c)" c Sub] assms
  by (auto simp: refines_def alloc_0 ap_wf_pos) (auto simp: ap_wf_def)

lemma add_sub_refines_aux:
  "R' = R \<Longrightarrow> wt l \<Longrightarrow> wt r \<Longrightarrow> AddExpr_create R' l r = Some e \<Longrightarrow>
     refines (getWidth l) (\<lambda>\<sigma>. take_bit (getWidth l) (eval \<sigma> l + eval \<sigma> r)) e"
  "R' = R \<Longrightarrow> ap_wf cl \<Longrightarrow> wt r \<Longrightarrow> getBitWidth cl = getWidth r \<Longrightarrow> AddExpr_createPartialR R' cl r = Some e \<Longrightarrow>
     refines (getWidth r) (\<lambda>\<sigma>. take_bit (getWidth r) (apValue cl + eval \<sigma> r)) e"
  "R' = R \<Longrightarrow> wt l \<Longrightarrow> wt r \<Longrightarrow> getWidth l = getWidth r \<Longrightarrow> static_AddExpr_create R' l r = Some e \<Longrightarrow>
     refines (getWidth l) (\<lambda>\<sigma>. take_bit (getWidth l) (eval \<sigma> l + eval \<sigma> r)) e"
  "R' = R \<Longrightarrow> wt l \<Longrightarrow> wt r \<Longrightarrow> SubExpr_create R' l r = Some e \<Longrightarrow>
     refines (getWidth l) (\<lambda>\<sigma>. take_bit (getWidth l) (eval \<sigma> l - eval \<sigma> r)) e"
  "R' = R \<Longrightarrow> ap_wf cl \<Longrightarrow> wt r \<Longrightarrow> getBitWidth cl = getWidth r \<Longrightarrow> SubExpr_createPartialR R' cl r = Some e \<Longrightarrow>
     refines (getWidth r) (\<lambda>\<sigma>. take_bit (getWidth r) (apValue cl - eval \<sigma> r)) e"
  "R' = R \<Longrightarrow> wt l \<Longrightarrow> ap_wf cl \<Longrightarrow> getBitWidth cl = getWidth l \<Longrightarrow> SubExpr_createPartial R' l cl = Some e \<Longrightarrow>
     refines (getWidth l) (\<lambda>\<sigma>. take_bit (getWidth l) (eval \<sigma> l - apValue cl)) e"
  "R' = R \<Longrightarrow> wt l \<Longrightarrow> wt r \<Longrightarrow> getWidth l = getWidth r \<Longrightarrow> static_SubExpr_create R' l r = Some e \<Longrightarrow>
     refines (getWidth l) (\<lambda>\<sigma>. take_bit (getWidth l) (eval \<sigma> l - eval \<sigma> r)) e"
proof (induction R' l r and R' cl r and R' l r and R' l r and R' cl r and R' l cl and R' l r
    arbitrary: e and e and e and e and e and e and e rule: add_sub_induct)
  case (1 R' l r)
  note p = "1.prems" and S = "1.prems"(4) [unfolded AddExpr_create.simps [of R' l r]]
  have w: "getWidth l = getWidth r" using S by simp
  show ?case
  proof (cases "dyn_cast_Constant l"; cases "dyn_cast_Constant r")
    fix cl cr assume c: "dyn_cast_Constant l = Some cl" "dyn_cast_Constant r = Some cr"
    with ConstantExpr_binop_refines [of cl cr Add] p(1-3) S w show ?thesis by auto
  next
    fix cl assume c: "dyn_cast_Constant l = Some cl" "dyn_cast_Constant r = None"
    with "1.IH"(3) [OF _ c p(1)] p(1-3) S w show ?thesis by auto
  next
    fix cr assume c: "dyn_cast_Constant l = None" "dyn_cast_Constant r = Some cr"
    with "1.IH"(2) [OF _ c p(1)] p(1-3) S w show ?thesis by (auto simp: add.commute)
  next
    assume c: "dyn_cast_Constant l = None" "dyn_cast_Constant r = None"
    with "1.IH"(1) [OF _ c p(1)] p(1-3) S w show ?thesis by auto
  qed
next
  case (2 R' cl r)
  note p = "2.prems" and S = "2.prems"(5) [unfolded AddExpr_createPartialR.simps [of R' cl r]]
  show ?case
  proof (cases "getBitWidth cl = Bool")
    case True
    then have e: "XorExpr_createPartialR R cl r = Some e" using S p(1) by simp
    show ?thesis
      by (rule refines_cong [OF XorExpr_createPartialR_refines [OF p(2-4) e]])
        (use xor_Bool(1) [OF ap_wf_bv [OF p(2)] True] eval_bv [OF p(3)] p(4) in simp)
  next
    case nB: False
    obtain z where z: "ConstantExpr_isZero cl = Some z" using S nB by (auto simp: option_bind_simps)
    show ?thesis
    proof (cases z)
      case True
      with S nB z ConstantExpr_isZero_iff [OF p(2) z] p(3) eval_take_bit [OF p(3)] show ?thesis
        by (simp add: refines_def)
    next
      case z': False
      show ?thesis
      proof (cases "dyn_cast_constant_left Add r")
        case (Some kc)
        obtain k c where kc: "kc = (k, c)" by (cases kc)
        have r: "r = AddExpr (ConstantExpr k) c" "ap_wf k" "wt c" "getWidth c = getBitWidth k" using Some kc p(3) by auto
        obtain s where s: "fold_constants R' Add cl k = Some s" "AddExpr_create R' (ConstantExpr s) c = Some e"
          using S nB z z' Some kc by (auto simp: option_bind_simps)
        note f = fold_constants_refines [OF p(2) r(2) _ s(1) [unfolded p(1)], simplified]
        from "2.IH"(2) [OF nB z z' Some kc [symmetric] s(1) p(1) _ r(3) s(2)] f r(1)
        show ?thesis by (auto simp: refines_def take_bit_arith algebra_simps)
      next
        case a: None
        show ?thesis
        proof (cases "dyn_cast_constant_left Sub r")
          case (Some kc)
          obtain k c where kc: "kc = (k, c)" by (cases kc)
          have r: "r = SubExpr (ConstantExpr k) c" "ap_wf k" "wt c" "getWidth c = getBitWidth k" using Some kc p(3) by auto
          obtain s where s: "fold_constants R' Add cl k = Some s" "SubExpr_create R' (ConstantExpr s) c = Some e"
            using S nB z z' a Some kc by (auto simp: option_bind_simps)
          note f = fold_constants_refines [OF p(2) r(2) _ s(1) [unfolded p(1)], simplified]
          from "2.IH"(1) [OF nB z z' a Some kc [symmetric] s(1) p(1) _ r(3) s(2)] f r(1)
          show ?thesis by (auto simp: refines_def take_bit_arith algebra_simps)
        next
          case None
          with S nB z z' a p(2-4) show ?thesis by (auto simp: refines_def)
        qed
      qed
    qed
  qed
next
  case (3 R' l r)
  note p = "3.prems" and S = "3.prems"(5) [unfolded static_AddExpr_create.simps [of R' l r]]
  show ?case
  proof (cases "getWidth l = Bool")
    case True
    then have e: "static_XorExpr_create R l r = Some e" using S p(1) by simp
    show ?thesis
      by (rule refines_cong [OF static_XorExpr_create_refines [OF p(2-4) e]])
        (use xor_Bool(1) [OF eval_bv [OF p(2)] True] eval_bv [OF p(3)] p(4) in simp)
  next
    case nB: False
    show ?thesis
    proof (cases "add_shape l r")
      case (LeftAdd k a)
      note l = add_shape_simps(1) [OF LeftAdd]
      have w: "wt a" "ap_wf k" "getWidth a = getBitWidth k" using l p(2) by auto
      obtain x where x: "AddExpr_create R' a r = Some x" "AddExpr_create R' (ConstantExpr k) x = Some e"
        using S nB LeftAdd by (auto simp: option_bind_simps)
      note i = "3.IH"(1) [OF nB LeftAdd p(1) w(1) p(3) x(1)]
      from "3.IH"(2) [OF nB LeftAdd x(1) p(1) _ refines_wt [OF i] x(2)] i w l
      show ?thesis by (auto simp: refines_def take_bit_arith algebra_simps)
    next
      case (LeftSub k a)
      note l = add_shape_simps(2) [OF LeftSub]
      have w: "wt a" "ap_wf k" "getWidth a = getBitWidth k" using l p(2) by auto
      obtain x where x: "SubExpr_create R' r a = Some x" "AddExpr_create R' (ConstantExpr k) x = Some e"
        using S nB LeftSub by (auto simp: option_bind_simps)
      note i = "3.IH"(3) [OF nB LeftSub p(1,3) w(1) x(1)]
      from "3.IH"(4) [OF nB LeftSub x(1) p(1) _ refines_wt [OF i] x(2)] i w l p(4)
      show ?thesis by (auto simp: refines_def take_bit_arith algebra_simps)
    next
      case (RightAdd k b)
      note r = add_shape_simps(3) [OF RightAdd]
      have w: "wt b" "ap_wf k" "getWidth b = getBitWidth k" "getWidth l = getBitWidth k" using r p(3,4) by auto
      obtain x where x: "AddExpr_create R' l b = Some x" "AddExpr_create R' (ConstantExpr k) x = Some e"
        using S nB RightAdd by (auto simp: option_bind_simps)
      note i = "3.IH"(5) [OF nB RightAdd p(1,2) w(1) x(1)]
      from "3.IH"(6) [OF nB RightAdd x(1) p(1) _ refines_wt [OF i] x(2)] i w r
      show ?thesis by (auto simp: refines_def take_bit_arith algebra_simps)
    next
      case (RightSub k b)
      note r = add_shape_simps(4) [OF RightSub]
      have w: "wt b" "ap_wf k" "getWidth b = getBitWidth k" "getWidth l = getBitWidth k" using r p(3,4) by auto
      obtain x where x: "SubExpr_create R' l b = Some x" "AddExpr_create R' (ConstantExpr k) x = Some e"
        using S nB RightSub by (auto simp: option_bind_simps)
      note i = "3.IH"(7) [OF nB RightSub p(1,2) w(1) x(1)]
      from "3.IH"(8) [OF nB RightSub x(1) p(1) _ refines_wt [OF i] x(2)] i w r
      show ?thesis by (auto simp: refines_def take_bit_arith algebra_simps)
    next
      case NoShape
      with S nB p(2-4) show ?thesis by (auto simp: refines_def)
    qed
  qed
next
  case (4 R' l r)
  note p = "4.prems" and S = "4.prems"(4) [unfolded SubExpr_create.simps [of R' l r]]
  have w: "getWidth l = getWidth r" using S by simp
  show ?case
  proof (cases "dyn_cast_Constant l"; cases "dyn_cast_Constant r")
    fix cl cr assume c: "dyn_cast_Constant l = Some cl" "dyn_cast_Constant r = Some cr"
    with ConstantExpr_binop_refines [of cl cr Sub] p(1-3) S w show ?thesis by auto
  next
    fix cl assume c: "dyn_cast_Constant l = Some cl" "dyn_cast_Constant r = None"
    with "4.IH"(3) [OF _ c p(1)] p(1-3) S w show ?thesis by auto
  next
    fix cr assume c: "dyn_cast_Constant l = None" "dyn_cast_Constant r = Some cr"
    with "4.IH"(2) [OF _ c p(1)] p(1-3) S w show ?thesis by auto
  next
    assume c: "dyn_cast_Constant l = None" "dyn_cast_Constant r = None"
    with "4.IH"(1) [OF _ c p(1)] p(1-3) S w show ?thesis by auto
  qed
next
  case (5 R' cl r)
  note p = "5.prems" and S = "5.prems"(5) [unfolded SubExpr_createPartialR.simps [of R' cl r]]
  show ?case
  proof (cases "getBitWidth cl = Bool")
    case True
    then have e: "XorExpr_createPartialR R cl r = Some e" using S p(1) by simp
    show ?thesis
      by (rule refines_cong [OF XorExpr_createPartialR_refines [OF p(2-4) e]])
        (use xor_Bool(2) [OF ap_wf_bv [OF p(2)] True] eval_bv [OF p(3)] p(4) in simp)
  next
    case nB: False
    show ?thesis
    proof (cases "dyn_cast_constant_left Add r")
      case (Some kc)
      obtain k c where kc: "kc = (k, c)" by (cases kc)
      have r: "r = AddExpr (ConstantExpr k) c" "ap_wf k" "wt c" "getWidth c = getBitWidth k" using Some kc p(3) by auto
      obtain s where s: "fold_constants R' Sub cl k = Some s" "SubExpr_create R' (ConstantExpr s) c = Some e"
        using S nB Some kc by (auto simp: option_bind_simps)
      note f = fold_constants_refines [OF p(2) r(2) _ s(1) [unfolded p(1)], simplified]
      from "5.IH"(2) [OF nB Some kc [symmetric] s(1) p(1) _ r(3) s(2)] f r(1)
      show ?thesis by (auto simp: refines_def take_bit_arith algebra_simps)
    next
      case a: None
      show ?thesis
      proof (cases "dyn_cast_constant_left Sub r")
        case (Some kc)
        obtain k c where kc: "kc = (k, c)" by (cases kc)
        have r: "r = SubExpr (ConstantExpr k) c" "ap_wf k" "wt c" "getWidth c = getBitWidth k" using Some kc p(3) by auto
        obtain s where s: "fold_constants R' Sub cl k = Some s" "AddExpr_create R' (ConstantExpr s) c = Some e"
          using S nB a Some kc by (auto simp: option_bind_simps)
        note f = fold_constants_refines [OF p(2) r(2) _ s(1) [unfolded p(1)], simplified]
        from "5.IH"(1) [OF nB a Some kc [symmetric] s(1) p(1) _ r(3) s(2)] f r(1)
        show ?thesis by (auto simp: refines_def take_bit_arith algebra_simps)
      next
        case None
        with S nB a p(2-4) show ?thesis by (auto simp: refines_def)
      qed
    qed
  qed
next
  case (6 R' l cl)
  note p = "6.prems"
  let ?n = "ConstantExpr_binop R' Sub (ConstantExpr_alloc R' 0 (getBitWidth cl)) cl"
  have e: "AddExpr_createPartialR R' ?n l = Some e" using p(5) by (simp only: SubExpr_createPartial.simps)
  note n = neg_constant [OF p(3), folded p(1)]
  show ?case
    by (rule refines_cong [OF "6.IH" [OF p(1) n(1) p(2) _ e]]) (simp_all add: n [unfolded p(4)] p(4) take_bit_arith algebra_simps)
next
  case (7 R' l r)
  note p = "7.prems" and S = "7.prems"(5) [unfolded static_SubExpr_create.simps [of R' l r]]
  show ?case
  proof (cases "getWidth l = Bool")
    case True
    then have e: "static_XorExpr_create R l r = Some e" using S p(1) by simp
    show ?thesis
      by (rule refines_cong [OF static_XorExpr_create_refines [OF p(2-4) e]])
        (use xor_Bool(2) [OF eval_bv [OF p(2)] True] eval_bv [OF p(3)] p(4) in simp)
  next
    case nB: False
    show ?thesis
    proof (cases "l = r")
      case True
      with S nB p(1,2) show ?thesis by (auto simp: refines_def alloc_0 ap_wf_def)
    next
      case ne: False
      show ?thesis
      proof (cases "add_shape l r")
        case (LeftAdd k a)
        note l = add_shape_simps(1) [OF LeftAdd]
        have w: "wt a" "ap_wf k" "getWidth a = getBitWidth k" using l p(2) by auto
        obtain x where x: "SubExpr_create R' a r = Some x" "AddExpr_create R' (ConstantExpr k) x = Some e"
          using S nB ne LeftAdd by (auto simp: option_bind_simps)
        note i = "7.IH"(1) [OF nB ne LeftAdd p(1) w(1) p(3) x(1)]
        from "7.IH"(2) [OF nB ne LeftAdd x(1) p(1) _ refines_wt [OF i] x(2)] i w l
        show ?thesis by (auto simp: refines_def take_bit_arith algebra_simps)
      next
        case (LeftSub k a)
        note l = add_shape_simps(2) [OF LeftSub]
        have w: "wt a" "ap_wf k" "getWidth a = getBitWidth k" using l p(2) by auto
        obtain x where x: "AddExpr_create R' a r = Some x" "SubExpr_create R' (ConstantExpr k) x = Some e"
          using S nB ne LeftSub by (auto simp: option_bind_simps)
        note i = "7.IH"(3) [OF nB ne LeftSub p(1) w(1) p(3) x(1)]
        from "7.IH"(4) [OF nB ne LeftSub x(1) p(1) _ refines_wt [OF i] x(2)] i w l
        show ?thesis by (auto simp: refines_def take_bit_arith algebra_simps)
      next
        case (RightAdd k b)
        note r = add_shape_simps(3) [OF RightAdd]
        have w: "wt b" "ap_wf k" "getWidth b = getBitWidth k" "getWidth l = getBitWidth k" using r p(3,4) by auto
        obtain x where x: "SubExpr_create R' l b = Some x" "SubExpr_create R' x (ConstantExpr k) = Some e"
          using S nB ne RightAdd by (auto simp: option_bind_simps)
        note i = "7.IH"(5) [OF nB ne RightAdd p(1,2) w(1) x(1)]
        from "7.IH"(6) [OF nB ne RightAdd x(1) p(1) refines_wt [OF i] _ x(2)] i w r
        show ?thesis by (auto simp: refines_def take_bit_arith algebra_simps)
      next
        case (RightSub k b)
        note r = add_shape_simps(4) [OF RightSub]
        have w: "wt b" "ap_wf k" "getWidth b = getBitWidth k" "getWidth l = getBitWidth k" using r p(3,4) by auto
        obtain x where x: "AddExpr_create R' l b = Some x" "SubExpr_create R' x (ConstantExpr k) = Some e"
          using S nB ne RightSub by (auto simp: option_bind_simps)
        note i = "7.IH"(7) [OF nB ne RightSub p(1,2) w(1) x(1)]
        from "7.IH"(8) [OF nB ne RightSub x(1) p(1) refines_wt [OF i] _ x(2)] i w r
        show ?thesis by (auto simp: refines_def take_bit_arith algebra_simps)
      next
        case NoShape
        with S nB ne p(2-4) show ?thesis by (auto simp: refines_def)
      qed
    qed
  qed
qed

lemmas add_sub_refines = add_sub_refines_aux [OF refl]

lemma XorExpr_createPartialR_total:
  assumes "ap_wf cl" "wt r" "narrow r" "getBitWidth cl = getWidth r"
  shows "\<exists>e. XorExpr_createPartialR R cl r = Some e \<and> narrow e"
proof -
  have w: "getBitWidth cl \<le> 64" using assms narrow_width [of r] by simp
  have "\<exists>e. EqExpr_createPartialR R (APInt Bool 0) r = Some e \<and> narrow e" if "getBitWidth cl = Bool"
    using eq_or_total(3) [of "APInt Bool 0" r] assms that by (simp add: ap_wf_def)
  with constant_predicates_narrow(1) [OF assms(1) w] assms w show ?thesis
    by (auto simp: XorExpr_createPartialR_def create_0)
qed

lemma static_XorExpr_create_total:
  assumes "wt l" "wt r" "narrow l" "narrow r"
  shows "\<exists>e. static_XorExpr_create R l r = Some e \<and> narrow e"
  using isNegationOf_total [OF assms] assms narrow_width [of l]
  by (auto simp: static_XorExpr_create_def alloc_0 alloc_1)

lemma XorExpr_create_total:
  assumes "wt l" "wt r" "narrow l" "narrow r" "getWidth l = getWidth r"
  shows "\<exists>e. XorExpr_create R l r = Some e \<and> narrow e"
proof (cases "dyn_cast_Constant l"; cases "dyn_cast_Constant r")
  fix cl cr assume "dyn_cast_Constant l = Some cl" "dyn_cast_Constant r = Some cr"
  then show ?thesis using assms ConstantExpr_binop_refines [of cl cr Xor]
    by (auto simp: XorExpr_create_def BCREATE_R_def refines_def)
qed (use assms XorExpr_createPartialR_total static_XorExpr_create_total in
    \<open>auto simp: XorExpr_create_def BCREATE_R_def XorExpr_createPartial_def\<close>)

lemma add_sub_total_aux:
  "R' = R \<Longrightarrow> wt l \<Longrightarrow> wt r \<Longrightarrow> narrow l \<Longrightarrow> narrow r \<Longrightarrow> getWidth l = getWidth r \<Longrightarrow>
     \<exists>e. AddExpr_create R' l r = Some e \<and> narrow e"
  "R' = R \<Longrightarrow> ap_wf cl \<Longrightarrow> wt r \<Longrightarrow> narrow r \<Longrightarrow> getBitWidth cl = getWidth r \<Longrightarrow>
     \<exists>e. AddExpr_createPartialR R' cl r = Some e \<and> narrow e"
  "R' = R \<Longrightarrow> wt l \<Longrightarrow> wt r \<Longrightarrow> narrow l \<Longrightarrow> narrow r \<Longrightarrow> getWidth l = getWidth r \<Longrightarrow>
     \<exists>e. static_AddExpr_create R' l r = Some e \<and> narrow e"
  "R' = R \<Longrightarrow> wt l \<Longrightarrow> wt r \<Longrightarrow> narrow l \<Longrightarrow> narrow r \<Longrightarrow> getWidth l = getWidth r \<Longrightarrow>
     \<exists>e. SubExpr_create R' l r = Some e \<and> narrow e"
  "R' = R \<Longrightarrow> ap_wf cl \<Longrightarrow> wt r \<Longrightarrow> narrow r \<Longrightarrow> getBitWidth cl = getWidth r \<Longrightarrow>
     \<exists>e. SubExpr_createPartialR R' cl r = Some e \<and> narrow e"
  "R' = R \<Longrightarrow> wt l \<Longrightarrow> narrow l \<Longrightarrow> ap_wf cl \<Longrightarrow> getBitWidth cl = getWidth l \<Longrightarrow>
     \<exists>e. SubExpr_createPartial R' l cl = Some e \<and> narrow e"
  "R' = R \<Longrightarrow> wt l \<Longrightarrow> wt r \<Longrightarrow> narrow l \<Longrightarrow> narrow r \<Longrightarrow> getWidth l = getWidth r \<Longrightarrow>
     \<exists>e. static_SubExpr_create R' l r = Some e \<and> narrow e"
proof (induction R' l r and R' cl r and R' l r and R' l r and R' cl r and R' l cl and R' l r rule: add_sub_induct)
  case (1 R' l r)
  note p = "1.prems"
  show ?case
  proof (cases "dyn_cast_Constant l"; cases "dyn_cast_Constant r")
    fix cl cr assume c: "dyn_cast_Constant l = Some cl" "dyn_cast_Constant r = Some cr"
    with ConstantExpr_binop_refines [of cl cr Add] p show ?thesis
      by (subst AddExpr_create.simps) (auto simp: refines_def)
  next
    fix cl assume c: "dyn_cast_Constant l = Some cl" "dyn_cast_Constant r = None"
    with "1.IH"(3) [OF _ c p(1)] p show ?thesis by (subst AddExpr_create.simps) auto
  next
    fix cr assume c: "dyn_cast_Constant l = None" "dyn_cast_Constant r = Some cr"
    with "1.IH"(2) [OF _ c p(1)] p show ?thesis by (subst AddExpr_create.simps) auto
  next
    assume c: "dyn_cast_Constant l = None" "dyn_cast_Constant r = None"
    with "1.IH"(1) [OF _ c p(1)] p show ?thesis by (subst AddExpr_create.simps) auto
  qed
next
  case (2 R' cl r)
  note p = "2.prems"
  have cl64: "getBitWidth cl \<le> 64" using p narrow_width [OF p(4)] by simp
  show ?case
  proof (cases "getBitWidth cl = Bool")
    case True
    with XorExpr_createPartialR_total [OF p(2-5)] p(1) show ?thesis by (subst AddExpr_createPartialR.simps) auto
  next
    case nB: False
    obtain z where z: "ConstantExpr_isZero cl = Some z" using constant_predicates_narrow(1) [OF p(2) cl64] by auto
    show ?thesis
    proof (cases z)
      case True
      with nB z p show ?thesis by (subst AddExpr_createPartialR.simps) auto
    next
      case z': False
      show ?thesis
      proof (cases "dyn_cast_constant_left Add r")
        case (Some kc)
        obtain k c where kc: "kc = (k, c)" by (cases kc)
        have r: "ap_wf k" "wt c" "narrow c" "getWidth c = getBitWidth k" "getBitWidth cl = getBitWidth k"
          using Some kc p(3-5) by auto
        then obtain s where s: "fold_constants R' Add cl k = Some s" by (simp add: fold_constants_def)
        note f = fold_constants_refines(1,2) [OF p(2) r(1) _ s [unfolded p(1)], simplified]
        from "2.IH"(2) [OF nB z z' Some kc [symmetric] s p(1) _ r(2) _ r(3)] f r cl64 s nB z z' Some kc show ?thesis
          by (subst AddExpr_createPartialR.simps) auto
      next
        case a: None
        show ?thesis
        proof (cases "dyn_cast_constant_left Sub r")
          case (Some kc)
          obtain k c where kc: "kc = (k, c)" by (cases kc)
          have r: "ap_wf k" "wt c" "narrow c" "getWidth c = getBitWidth k" "getBitWidth cl = getBitWidth k"
            using Some kc p(3-5) by auto
          then obtain s where s: "fold_constants R' Add cl k = Some s" by (simp add: fold_constants_def)
          note f = fold_constants_refines(1,2) [OF p(2) r(1) _ s [unfolded p(1)], simplified]
          from "2.IH"(1) [OF nB z z' a Some kc [symmetric] s p(1) _ r(2) _ r(3)] f r cl64 s nB z z' a Some kc show ?thesis
            by (subst AddExpr_createPartialR.simps) auto
        next
          case None
          with nB z z' a p cl64 show ?thesis by (subst AddExpr_createPartialR.simps) auto
        qed
      qed
    qed
  qed
next
  case (3 R' l r)
  note p = "3.prems"
  show ?case
  proof (cases "getWidth l = Bool")
    case True
    with static_XorExpr_create_total [OF p(2-5)] p(1) show ?thesis by (subst static_AddExpr_create.simps) auto
  next
    case nB: False
    show ?thesis
    proof (cases "add_shape l r")
      case (LeftAdd k a)
      have w: "wt a" "narrow a" "ap_wf k" "getWidth a = getBitWidth k" "getWidth l = getBitWidth k" "getWidth r = getBitWidth k" "getBitWidth k \<le> 64"
        using add_shape_simps(1) [OF LeftAdd] p(2-6) by auto
      obtain x where x: "AddExpr_create R' a r = Some x" "narrow x"
        using "3.IH"(1) [OF nB LeftAdd p(1) w(1) p(3) w(2) p(5)] w by auto
      note i = add_sub_refines(1) [OF w(1) p(3) x(1) [unfolded p(1)]]
      have x': "wt x" "getWidth x = getBitWidth k" using i w by (auto simp: refines_def)
      from "3.IH"(2) [OF nB LeftAdd x(1) p(1) _ x'(1) _ x(2)] x x' w nB LeftAdd show ?thesis
        by (subst static_AddExpr_create.simps) auto
    next
      case (LeftSub k a)
      have w: "wt a" "narrow a" "ap_wf k" "getWidth a = getBitWidth k" "getWidth l = getBitWidth k" "getWidth r = getBitWidth k" "getBitWidth k \<le> 64"
        using add_shape_simps(2) [OF LeftSub] p(2-6) by auto
      obtain x where x: "SubExpr_create R' r a = Some x" "narrow x"
        using "3.IH"(3) [OF nB LeftSub p(1) p(3) w(1) p(5) w(2)] w by auto
      note i = add_sub_refines(4) [OF p(3) w(1) x(1) [unfolded p(1)]]
      have x': "wt x" "getWidth x = getBitWidth k" using i w by (auto simp: refines_def)
      from "3.IH"(4) [OF nB LeftSub x(1) p(1) _ x'(1) _ x(2)] x x' w nB LeftSub show ?thesis
        by (subst static_AddExpr_create.simps) auto
    next
      case (RightAdd k b)
      have w: "wt b" "narrow b" "ap_wf k" "getWidth b = getBitWidth k" "getWidth l = getBitWidth k" "getWidth r = getBitWidth k" "getBitWidth k \<le> 64"
        using add_shape_simps(3) [OF RightAdd] p(2-6) by auto
      obtain x where x: "AddExpr_create R' l b = Some x" "narrow x"
        using "3.IH"(5) [OF nB RightAdd p(1) p(2) w(1) p(4) w(2)] w by auto
      note i = add_sub_refines(1) [OF p(2) w(1) x(1) [unfolded p(1)]]
      have x': "wt x" "getWidth x = getBitWidth k" using i w by (auto simp: refines_def)
      from "3.IH"(6) [OF nB RightAdd x(1) p(1) _ x'(1) _ x(2)] x x' w nB RightAdd show ?thesis
        by (subst static_AddExpr_create.simps) auto
    next
      case (RightSub k b)
      have w: "wt b" "narrow b" "ap_wf k" "getWidth b = getBitWidth k" "getWidth l = getBitWidth k" "getWidth r = getBitWidth k" "getBitWidth k \<le> 64"
        using add_shape_simps(4) [OF RightSub] p(2-6) by auto
      obtain x where x: "SubExpr_create R' l b = Some x" "narrow x"
        using "3.IH"(7) [OF nB RightSub p(1) p(2) w(1) p(4) w(2)] w by auto
      note i = add_sub_refines(4) [OF p(2) w(1) x(1) [unfolded p(1)]]
      have x': "wt x" "getWidth x = getBitWidth k" using i w by (auto simp: refines_def)
      from "3.IH"(8) [OF nB RightSub x(1) p(1) _ x'(1) _ x(2)] x x' w nB RightSub show ?thesis
        by (subst static_AddExpr_create.simps) auto
    next
      case NoShape
      with nB p show ?thesis by (subst static_AddExpr_create.simps) auto
    qed
  qed
next
  case (4 R' l r)
  note p = "4.prems"
  show ?case
  proof (cases "dyn_cast_Constant l"; cases "dyn_cast_Constant r")
    fix cl cr assume c: "dyn_cast_Constant l = Some cl" "dyn_cast_Constant r = Some cr"
    with ConstantExpr_binop_refines [of cl cr Sub] p show ?thesis
      by (subst SubExpr_create.simps) (auto simp: refines_def)
  next
    fix cl assume c: "dyn_cast_Constant l = Some cl" "dyn_cast_Constant r = None"
    with "4.IH"(3) [OF _ c p(1)] p show ?thesis by (subst SubExpr_create.simps) auto
  next
    fix cr assume c: "dyn_cast_Constant l = None" "dyn_cast_Constant r = Some cr"
    with "4.IH"(2) [OF _ c p(1)] p show ?thesis by (subst SubExpr_create.simps) auto
  next
    assume c: "dyn_cast_Constant l = None" "dyn_cast_Constant r = None"
    with "4.IH"(1) [OF _ c p(1)] p show ?thesis by (subst SubExpr_create.simps) auto
  qed
next
  case (5 R' cl r)
  note p = "5.prems"
  have cl64: "getBitWidth cl \<le> 64" using p narrow_width [OF p(4)] by simp
  show ?case
  proof (cases "getBitWidth cl = Bool")
    case True
    with XorExpr_createPartialR_total [OF p(2-5)] p(1) show ?thesis by (subst SubExpr_createPartialR.simps) auto
  next
    case nB: False
    show ?thesis
    proof (cases "dyn_cast_constant_left Add r")
      case (Some kc)
      obtain k c where kc: "kc = (k, c)" by (cases kc)
      have r: "ap_wf k" "wt c" "narrow c" "getWidth c = getBitWidth k" "getBitWidth cl = getBitWidth k"
        using Some kc p(3-5) by auto
      then obtain s where s: "fold_constants R' Sub cl k = Some s" by (simp add: fold_constants_def)
      note f = fold_constants_refines(1,2) [OF p(2) r(1) _ s [unfolded p(1)], simplified]
      from "5.IH"(2) [OF nB Some kc [symmetric] s p(1) _ r(2) _ r(3)] f r cl64 s nB Some kc show ?thesis
        by (subst SubExpr_createPartialR.simps) auto
    next
      case a: None
      show ?thesis
      proof (cases "dyn_cast_constant_left Sub r")
        case (Some kc)
        obtain k c where kc: "kc = (k, c)" by (cases kc)
        have r: "ap_wf k" "wt c" "narrow c" "getWidth c = getBitWidth k" "getBitWidth cl = getBitWidth k"
          using Some kc p(3-5) by auto
        then obtain s where s: "fold_constants R' Sub cl k = Some s" by (simp add: fold_constants_def)
        note f = fold_constants_refines(1,2) [OF p(2) r(1) _ s [unfolded p(1)], simplified]
        from "5.IH"(1) [OF nB a Some kc [symmetric] s p(1) _ r(2) _ r(3)] f r cl64 s nB a Some kc show ?thesis
          by (subst SubExpr_createPartialR.simps) auto
      next
        case None
        with nB a p cl64 show ?thesis by (subst SubExpr_createPartialR.simps) auto
      qed
    qed
  qed
next
  case (6 R' l cl)
  note p = "6.prems"
  note n = neg_constant [OF p(4), folded p(1)]
  from "6.IH" [OF p(1) n(1) p(2,3)] n(2) p(5) show ?case by (simp add: SubExpr_createPartial.simps)
next
  case (7 R' l r)
  note p = "7.prems"
  show ?case
  proof (cases "getWidth l = Bool")
    case True
    with static_XorExpr_create_total [OF p(2-5)] p(1) show ?thesis by (subst static_SubExpr_create.simps) auto
  next
    case nB: False
    show ?thesis
    proof (cases "l = r")
      case True
      with nB p narrow_width [OF p(4)] show ?thesis by (subst static_SubExpr_create.simps) (simp add: alloc_0)
    next
      case ne: False
      show ?thesis
      proof (cases "add_shape l r")
        case (LeftAdd k a)
        have w: "wt a" "narrow a" "ap_wf k" "getWidth a = getBitWidth k" "getWidth l = getBitWidth k" "getWidth r = getBitWidth k" "getBitWidth k \<le> 64"
          using add_shape_simps(1) [OF LeftAdd] p(2-6) by auto
        obtain x where x: "SubExpr_create R' a r = Some x" "narrow x"
          using "7.IH"(1) [OF nB ne LeftAdd p(1) w(1) p(3) w(2) p(5)] w by auto
        note i = add_sub_refines(4) [OF w(1) p(3) x(1) [unfolded p(1)]]
        have x': "wt x" "getWidth x = getBitWidth k" using i w by (auto simp: refines_def)
        from "7.IH"(2) [OF nB ne LeftAdd x(1) p(1) _ x'(1) _ x(2)] x x' w nB ne LeftAdd show ?thesis
          by (subst static_SubExpr_create.simps) auto
      next
        case (LeftSub k a)
        have w: "wt a" "narrow a" "ap_wf k" "getWidth a = getBitWidth k" "getWidth l = getBitWidth k" "getWidth r = getBitWidth k" "getBitWidth k \<le> 64"
          using add_shape_simps(2) [OF LeftSub] p(2-6) by auto
        obtain x where x: "AddExpr_create R' a r = Some x" "narrow x"
          using "7.IH"(3) [OF nB ne LeftSub p(1) w(1) p(3) w(2) p(5)] w by auto
        note i = add_sub_refines(1) [OF w(1) p(3) x(1) [unfolded p(1)]]
        have x': "wt x" "getWidth x = getBitWidth k" using i w by (auto simp: refines_def)
        from "7.IH"(4) [OF nB ne LeftSub x(1) p(1) _ x'(1) _ x(2)] x x' w nB ne LeftSub show ?thesis
          by (subst static_SubExpr_create.simps) auto
      next
        case (RightAdd k b)
        have w: "wt b" "narrow b" "ap_wf k" "getWidth b = getBitWidth k" "getWidth l = getBitWidth k" "getWidth r = getBitWidth k" "getBitWidth k \<le> 64"
          using add_shape_simps(3) [OF RightAdd] p(2-6) by auto
        obtain x where x: "SubExpr_create R' l b = Some x" "narrow x"
          using "7.IH"(5) [OF nB ne RightAdd p(1) p(2) w(1) p(4) w(2)] w by auto
        note i = add_sub_refines(4) [OF p(2) w(1) x(1) [unfolded p(1)]]
        have x': "wt x" "getWidth x = getBitWidth k" using i w by (auto simp: refines_def)
        from "7.IH"(6) [OF nB ne RightAdd x(1) p(1) x'(1) _ x(2)] x x' w nB ne RightAdd show ?thesis
          by (subst static_SubExpr_create.simps) auto
      next
        case (RightSub k b)
        have w: "wt b" "narrow b" "ap_wf k" "getWidth b = getBitWidth k" "getWidth l = getBitWidth k" "getWidth r = getBitWidth k" "getBitWidth k \<le> 64"
          using add_shape_simps(4) [OF RightSub] p(2-6) by auto
        obtain x where x: "AddExpr_create R' l b = Some x" "narrow x"
          using "7.IH"(7) [OF nB ne RightSub p(1) p(2) w(1) p(4) w(2)] w by auto
        note i = add_sub_refines(1) [OF p(2) w(1) x(1) [unfolded p(1)]]
        have x': "wt x" "getWidth x = getBitWidth k" using i w by (auto simp: refines_def)
        from "7.IH"(8) [OF nB ne RightSub x(1) p(1) x'(1) _ x(2)] x x' w nB ne RightSub show ?thesis
          by (subst static_SubExpr_create.simps) auto
      next
        case NoShape
        with nB ne p show ?thesis by (subst static_SubExpr_create.simps) auto
      qed
    qed
  qed
qed

lemmas add_sub_total = add_sub_total_aux [OF refl]

lemma MulExpr_create_refines:
  assumes "wt l" "wt r" "MulExpr_create R l r = Some e"
  shows "refines (getWidth l) (\<lambda>\<sigma>. take_bit (getWidth l) (eval \<sigma> l * eval \<sigma> r)) e"
proof -
  have w: "getWidth l = getWidth r" using assms(3) by (simp add: MulExpr_create_def BCREATE_R_def)
  have part: "refines (getWidth x) (\<lambda>\<sigma>. take_bit (getWidth x) (apValue c * eval \<sigma> x)) e"
    if x: "ap_wf c" "wt x" "getBitWidth c = getWidth x" "MulExpr_createPartialR c x = Some e" for c x
  proof (cases "getBitWidth c = Bool")
    case True
    then have "AndExpr_createPartial x c = Some e"
      using x(4) by (simp add: MulExpr_createPartialR_def AndExpr_createPartialR_def)
    from AndExpr_createPartial_refines [OF x(2,1) x(3) [symmetric] this] show ?thesis
      by (rule refines_cong) (use and_Bool [OF eval_bv [OF x(2)] _ ap_wf_bv [OF x(1), unfolded x(3)]] True x(3) in \<open>simp add: mult.commute\<close>)
  next
    case False
    then obtain one z where one: "ConstantExpr_isOne c = Some one" and z: "one \<or> ConstantExpr_isZero c = Some z"
      using x(4) by (auto simp: MulExpr_createPartialR_def option_bind_simps split: if_splits)
    have "e = (if one then x else if z then ConstantExpr c else MulExpr (ConstantExpr c) x)"
      using False one z x(4) by (auto simp: MulExpr_createPartialR_def)
    moreover have "one \<Longrightarrow> apValue c = 1" "\<not> one \<Longrightarrow> z \<Longrightarrow> apValue c = 0"
      using ConstantExpr_isOne_iff [OF x(1) one] ConstantExpr_isZero_iff [OF x(1), of z] z by auto
    ultimately show ?thesis using x(1-3) eval_take_bit [OF x(2)] by (simp add: refines_def)
  qed
  show ?thesis
  proof (cases "dyn_cast_Constant l"; cases "dyn_cast_Constant r")
    fix cl cr assume "dyn_cast_Constant l = Some cl" "dyn_cast_Constant r = Some cr"
    then show ?thesis using assms ConstantExpr_binop_refines [of cl cr Mul]
      by (auto simp: MulExpr_create_def BCREATE_R_def)
  next
    fix cr assume "dyn_cast_Constant l = None" "dyn_cast_Constant r = Some cr"
    then show ?thesis using assms part [of cr l]
      by (auto simp: MulExpr_create_def BCREATE_R_def MulExpr_createPartial_def mult.commute)
  next
    fix cl assume "dyn_cast_Constant l = Some cl" "dyn_cast_Constant r = None"
    then show ?thesis using assms part [of cl r] by (auto simp: MulExpr_create_def BCREATE_R_def)
  next
    assume "dyn_cast_Constant l = None" "dyn_cast_Constant r = None"
    then show ?thesis
      using assms w and_Bool [OF eval_bv [OF assms(1)] _ eval_bv [OF assms(2), folded w]]
      by (auto simp: MulExpr_create_def BCREATE_R_def static_MulExpr_create_def refines_def)
  qed
qed

text \<open>The rewrites at boolean width.\<close>

lemma Bool_rewrites:
  assumes "wt l" "wt r" "getWidth l = Bool" "getWidth r = Bool"
  shows "eval \<sigma> r \<noteq> 0 \<Longrightarrow> eval \<sigma> l = eval_binary UDiv Bool (eval \<sigma> l) (eval \<sigma> r)"
    "eval \<sigma> r \<noteq> 0 \<Longrightarrow> eval \<sigma> l = eval_binary SDiv Bool (eval \<sigma> l) (eval \<sigma> r)"
    "eval \<sigma> r \<noteq> 0 \<Longrightarrow> 0 = eval_binary URem Bool (eval \<sigma> l) (eval \<sigma> r)"
    "eval \<sigma> r \<noteq> 0 \<Longrightarrow> 0 = eval_binary SRem Bool (eval \<sigma> l) (eval \<sigma> r)"
    "eval \<sigma> l AND of_bool (eval \<sigma> r = 0) = eval_binary Shl Bool (eval \<sigma> l) (eval \<sigma> r)"
    "eval \<sigma> l AND of_bool (eval \<sigma> r = 0) = eval_binary LShr Bool (eval \<sigma> l) (eval \<sigma> r)"
    "eval \<sigma> l = eval_binary AShr Bool (eval \<sigma> l) (eval \<sigma> r)"
    "of_bool (eval \<sigma> l = 0) AND eval \<sigma> r = eval_binary Ult Bool (eval \<sigma> l) (eval \<sigma> r)"
    "of_bool (eval \<sigma> l = 0) OR eval \<sigma> r = eval_binary Ule Bool (eval \<sigma> l) (eval \<sigma> r)"
    "eval \<sigma> l AND of_bool (eval \<sigma> r = 0) = eval_binary Slt Bool (eval \<sigma> l) (eval \<sigma> r)"
    "eval \<sigma> l OR of_bool (eval \<sigma> r = 0) = eval_binary Sle Bool (eval \<sigma> l) (eval \<sigma> r)"
proof -
  have l: "eval \<sigma> l = 0 \<or> eval \<sigma> l = 1" and r: "eval \<sigma> r = 0 \<or> eval \<sigma> r = 1"
    using eval_bv [OF assms(1), of \<sigma>] eval_bv [OF assms(2), of \<sigma>] assms(3,4) by (simp_all add: bv_Suc_0_iff)
  have s: "sbv Bool 0 = 0" "sbv Bool 1 = - 1" "(0 :: int) sdiv - 1 = 0" "(- 1 :: int) sdiv - 1 = 1"
    "(0 :: int) smod - 1 = 0" "(- 1 :: int) smod - 1 = 0" "take_bit Bool (drop_bit (nat (min 1 b)) (- 1 :: int)) = 1"
    "take_bit Bool (- 1 :: int) = 1" for b
    by (simp_all add: sbv_def signed_take_bit_def signed_divide_int_def signed_modulo_int_def)
  note [simp] = s [simplified]
  show "eval \<sigma> r \<noteq> 0 \<Longrightarrow> eval \<sigma> l = eval_binary UDiv Bool (eval \<sigma> l) (eval \<sigma> r)"
    "eval \<sigma> r \<noteq> 0 \<Longrightarrow> eval \<sigma> l = eval_binary SDiv Bool (eval \<sigma> l) (eval \<sigma> r)"
    "eval \<sigma> r \<noteq> 0 \<Longrightarrow> 0 = eval_binary URem Bool (eval \<sigma> l) (eval \<sigma> r)"
    "eval \<sigma> r \<noteq> 0 \<Longrightarrow> 0 = eval_binary SRem Bool (eval \<sigma> l) (eval \<sigma> r)"
    "eval \<sigma> l AND of_bool (eval \<sigma> r = 0) = eval_binary Shl Bool (eval \<sigma> l) (eval \<sigma> r)"
    "eval \<sigma> l AND of_bool (eval \<sigma> r = 0) = eval_binary LShr Bool (eval \<sigma> l) (eval \<sigma> r)"
    "eval \<sigma> l = eval_binary AShr Bool (eval \<sigma> l) (eval \<sigma> r)"
    "of_bool (eval \<sigma> l = 0) AND eval \<sigma> r = eval_binary Ult Bool (eval \<sigma> l) (eval \<sigma> r)"
    "of_bool (eval \<sigma> l = 0) OR eval \<sigma> r = eval_binary Ule Bool (eval \<sigma> l) (eval \<sigma> r)"
    "eval \<sigma> l AND of_bool (eval \<sigma> r = 0) = eval_binary Slt Bool (eval \<sigma> l) (eval \<sigma> r)"
    "eval \<sigma> l OR of_bool (eval \<sigma> r = 0) = eval_binary Sle Bool (eval \<sigma> l) (eval \<sigma> r)"
    using l r by (elim disjE; simp)+
qed

lemma static_create_refines:
  assumes "wt l" "wt r" "getWidth l = getWidth r"
  shows "static_UDivExpr_create l r = Some e \<Longrightarrow>
      refines_on (\<lambda>\<sigma>. eval \<sigma> r \<noteq> 0) (getWidth l) (\<lambda>\<sigma>. eval_binary UDiv (getWidth l) (eval \<sigma> l) (eval \<sigma> r)) e"
    "static_SDivExpr_create l r = Some e \<Longrightarrow>
      refines_on (\<lambda>\<sigma>. eval \<sigma> r \<noteq> 0) (getWidth l) (\<lambda>\<sigma>. eval_binary SDiv (getWidth l) (eval \<sigma> l) (eval \<sigma> r)) e"
    "static_URemExpr_create R l r = Some e \<Longrightarrow>
      refines_on (\<lambda>\<sigma>. eval \<sigma> r \<noteq> 0) (getWidth l) (\<lambda>\<sigma>. eval_binary URem (getWidth l) (eval \<sigma> l) (eval \<sigma> r)) e"
    "static_SRemExpr_create R l r = Some e \<Longrightarrow>
      refines_on (\<lambda>\<sigma>. eval \<sigma> r \<noteq> 0) (getWidth l) (\<lambda>\<sigma>. eval_binary SRem (getWidth l) (eval \<sigma> l) (eval \<sigma> r)) e"
    "static_AShrExpr_create l r = Some e \<Longrightarrow>
      refines (getWidth l) (\<lambda>\<sigma>. eval_binary AShr (getWidth l) (eval \<sigma> l) (eval \<sigma> r)) e"
  using Bool_rewrites(1-4,7) [OF assms(1,2)] assms
  by (auto simp: static_UDivExpr_create_def static_SDivExpr_create_def static_URemExpr_create_def
      static_SRemExpr_create_def static_AShrExpr_create_def refines_on_def refines_def create_0 ap_wf_def
      simp del: eval_binary.simps split: if_splits)

lemma static_and_refines:
  assumes "wt l" "wt r" "getWidth l = getWidth r"
  shows "static_ShlExpr_create R l r = Some e \<Longrightarrow>
      refines (getWidth l) (\<lambda>\<sigma>. eval_binary Shl (getWidth l) (eval \<sigma> l) (eval \<sigma> r)) e"
    "static_LShrExpr_create R l r = Some e \<Longrightarrow>
      refines (getWidth l) (\<lambda>\<sigma>. eval_binary LShr (getWidth l) (eval \<sigma> l) (eval \<sigma> r)) e"
    "static_UltExpr_create R l r = Some e \<Longrightarrow>
      refines Bool (\<lambda>\<sigma>. eval_binary Ult (getWidth l) (eval \<sigma> l) (eval \<sigma> r)) e"
    "static_UleExpr_create R l r = Some e \<Longrightarrow>
      refines Bool (\<lambda>\<sigma>. eval_binary Ule (getWidth l) (eval \<sigma> l) (eval \<sigma> r)) e"
    "static_SltExpr_create R l r = Some e \<Longrightarrow>
      refines Bool (\<lambda>\<sigma>. eval_binary Slt (getWidth l) (eval \<sigma> l) (eval \<sigma> r)) e"
    "static_SleExpr_create R l r = Some e \<Longrightarrow>
      refines Bool (\<lambda>\<sigma>. eval_binary Sle (getWidth l) (eval \<sigma> l) (eval \<sigma> r)) e"
proof -
  note z = isZero_Bool_refines [OF assms(1)] isZero_Bool_refines [OF assms(2)]
  note B = Bool_rewrites(5,6,8-11) [OF assms(1,2)]
  show "static_ShlExpr_create R l r = Some e \<Longrightarrow>
      refines (getWidth l) (\<lambda>\<sigma>. eval_binary Shl (getWidth l) (eval \<sigma> l) (eval \<sigma> r)) e"
    using assms z(2) B(1) and_create_refines(1) [OF assms(1), of _ e]
    by (fastforce simp: static_ShlExpr_create_def option_bind_simps refines_def simp del: eval_binary.simps split: if_splits)
  show "static_LShrExpr_create R l r = Some e \<Longrightarrow>
      refines (getWidth l) (\<lambda>\<sigma>. eval_binary LShr (getWidth l) (eval \<sigma> l) (eval \<sigma> r)) e"
    using assms z(2) B(2) and_create_refines(1) [OF assms(1), of _ e]
    by (fastforce simp: static_LShrExpr_create_def option_bind_simps refines_def simp del: eval_binary.simps split: if_splits)
  show "static_UltExpr_create R l r = Some e \<Longrightarrow>
      refines Bool (\<lambda>\<sigma>. eval_binary Ult (getWidth l) (eval \<sigma> l) (eval \<sigma> r)) e"
    using assms z(1) B(3) and_create_refines(1) [OF _ assms(2), of _ e]
    by (fastforce simp: static_UltExpr_create_def option_bind_simps refines_def simp del: eval_binary.simps split: if_splits)
  show "static_UleExpr_create R l r = Some e \<Longrightarrow>
      refines Bool (\<lambda>\<sigma>. eval_binary Ule (getWidth l) (eval \<sigma> l) (eval \<sigma> r)) e"
    using assms z(1) B(4) eq_or_refines(6) [OF _ assms(2), of _ e]
    by (fastforce simp: static_UleExpr_create_def option_bind_simps refines_def simp del: eval_binary.simps split: if_splits)
  show "static_SltExpr_create R l r = Some e \<Longrightarrow>
      refines Bool (\<lambda>\<sigma>. eval_binary Slt (getWidth l) (eval \<sigma> l) (eval \<sigma> r)) e"
    using assms z(2) B(5) and_create_refines(1) [OF assms(1), of _ e]
    by (fastforce simp: static_SltExpr_create_def option_bind_simps refines_def simp del: eval_binary.simps split: if_splits)
  show "static_SleExpr_create R l r = Some e \<Longrightarrow>
      refines Bool (\<lambda>\<sigma>. eval_binary Sle (getWidth l) (eval \<sigma> l) (eval \<sigma> r)) e"
    using assms z(2) B(6) eq_or_refines(6) [OF assms(1), of _ e]
    by (fastforce simp: static_SleExpr_create_def option_bind_simps refines_def simp del: eval_binary.simps split: if_splits)
qed

text \<open>
  One contract for all binary constructors: when the conditions of the kind hold the result has
  the value of the operation.
\<close>

lemma Binary_create_refines:
  assumes "wt l" "wt r" "divisor_ok k r" "Binary_create R k l r = Some e"
  shows "refines_on (binary_cond k l r) (if is_cmp k then Bool else getWidth l)
    (\<lambda>\<sigma>. eval_binary k (getWidth l) (eval \<sigma> l) (eval \<sigma> r)) e"
proof -
  have div_ok: "refines_on (binary_cond k l r) w v x"
    if "k \<in> {UDiv, SDiv, URem, SRem}" "refines_on (\<lambda>\<sigma>. eval \<sigma> r \<noteq> 0) w v x" for w v x
    using that by (simp add: refines_on_def binary_cond_def)
  note assms(3) [unfolded divisor_ok_def, simp]
  show ?thesis
  proof (cases k)
    case Add
    then show ?thesis using add_sub_refines(1) [OF assms(1,2)] assms(4) by (simp add: refines_imp_refines_on)
  next
    case Sub
    then show ?thesis using add_sub_refines(4) [OF assms(1,2)] assms(4) by (simp add: refines_imp_refines_on)
  next
    case Mul
    then show ?thesis using MulExpr_create_refines [OF assms(1,2)] assms(4) by (simp add: refines_imp_refines_on)
  next
    case And
    then show ?thesis using and_create_refines(1) [OF assms(1,2)] assms(4) by (simp add: refines_imp_refines_on)
  next
    case Or
    then show ?thesis using eq_or_refines(6) [OF assms(1,2)] assms(4) by (simp add: refines_imp_refines_on)
  next
    case Xor
    then show ?thesis using XorExpr_create_refines [OF assms(1,2)] assms(4) by (simp add: refines_imp_refines_on)
  next
    case Eq
    then show ?thesis using eq_or_refines(1) [OF assms(1,2)] assms(4) by (simp add: binary_cond_def [abs_def])
  next
    case Ne
    then obtain x where x: "EqExpr_create R l r = Some x" "EqExpr_create R (ConstantExpr (APInt Bool 0)) x = Some e"
      using assms(4) by (auto simp: NeExpr_create_def create_0 option_bind_simps)
    from eq_or_refines(1) [OF assms(1,2) x(1)] eq_or_refines(1) [OF _ _ x(2)] Ne show ?thesis
      by (auto simp: refines_on_def eq_cond_def binary_cond_def ap_wf_def)
  next
    case UDiv
    then have e: "BCREATE R UDiv (static_UDivExpr_create) l r = Some e" using assms(4) by (simp add: UDivExpr_create_def)
    have "refines_on (binary_cond k l r) (getWidth l) (\<lambda>\<sigma>. eval_binary UDiv (getWidth l) (eval \<sigma> l) (eval \<sigma> r)) e"
      using BCREATE_refines [OF assms(1,2) e, of "binary_cond k l r"] div_ok [OF _ static_create_refines(1) [OF assms(1,2)]] UDiv
      by (simp del: eval_binary.simps)
    with UDiv show ?thesis by simp
  next
    case SDiv
    then have e: "BCREATE R SDiv (static_SDivExpr_create) l r = Some e" using assms(4) by (simp add: SDivExpr_create_def)
    have "refines_on (binary_cond k l r) (getWidth l) (\<lambda>\<sigma>. eval_binary SDiv (getWidth l) (eval \<sigma> l) (eval \<sigma> r)) e"
      using BCREATE_refines [OF assms(1,2) e, of "binary_cond k l r"] div_ok [OF _ static_create_refines(2) [OF assms(1,2)]] SDiv
      by (simp del: eval_binary.simps)
    with SDiv show ?thesis by simp
  next
    case URem
    then have e: "BCREATE R URem (static_URemExpr_create R) l r = Some e" using assms(4) by (simp add: URemExpr_create_def)
    have "refines_on (binary_cond k l r) (getWidth l) (\<lambda>\<sigma>. eval_binary URem (getWidth l) (eval \<sigma> l) (eval \<sigma> r)) e"
      using BCREATE_refines [OF assms(1,2) e, of "binary_cond k l r"] div_ok [OF _ static_create_refines(3) [OF assms(1,2)]] URem
      by (simp del: eval_binary.simps)
    with URem show ?thesis by simp
  next
    case SRem
    then have e: "BCREATE R SRem (static_SRemExpr_create R) l r = Some e" using assms(4) by (simp add: SRemExpr_create_def)
    have "refines_on (binary_cond k l r) (getWidth l) (\<lambda>\<sigma>. eval_binary SRem (getWidth l) (eval \<sigma> l) (eval \<sigma> r)) e"
      using BCREATE_refines [OF assms(1,2) e, of "binary_cond k l r"] div_ok [OF _ static_create_refines(4) [OF assms(1,2)]] SRem
      by (simp del: eval_binary.simps)
    with SRem show ?thesis by simp
  next
    case AShr
    then have e: "BCREATE R AShr (static_AShrExpr_create) l r = Some e"
      using assms(4) by (simp add: AShrExpr_create_def CMPCREATE_eq)
    have "refines_on (binary_cond k l r) (getWidth l) (\<lambda>\<sigma>. eval_binary AShr (getWidth l) (eval \<sigma> l) (eval \<sigma> r)) e"
      using BCREATE_refines [OF assms(1,2) e, of "binary_cond k l r"] static_create_refines(5) [OF assms(1,2)]
      by (simp add: refines_imp_refines_on del: eval_binary.simps)
    with AShr show ?thesis by simp
  next
    case Shl
    then have e: "BCREATE R Shl (static_ShlExpr_create R) l r = Some e"
      using assms(4) by (simp add: ShlExpr_create_def CMPCREATE_eq)
    have "refines_on (binary_cond k l r) (getWidth l) (\<lambda>\<sigma>. eval_binary Shl (getWidth l) (eval \<sigma> l) (eval \<sigma> r)) e"
      using BCREATE_refines [OF assms(1,2) e, of "binary_cond k l r"] static_and_refines(1) [OF assms(1,2)]
      by (simp add: refines_imp_refines_on del: eval_binary.simps)
    with Shl show ?thesis by simp
  next
    case LShr
    then have e: "BCREATE R LShr (static_LShrExpr_create R) l r = Some e"
      using assms(4) by (simp add: LShrExpr_create_def CMPCREATE_eq)
    have "refines_on (binary_cond k l r) (getWidth l) (\<lambda>\<sigma>. eval_binary LShr (getWidth l) (eval \<sigma> l) (eval \<sigma> r)) e"
      using BCREATE_refines [OF assms(1,2) e, of "binary_cond k l r"] static_and_refines(2) [OF assms(1,2)]
      by (simp add: refines_imp_refines_on del: eval_binary.simps)
    with LShr show ?thesis by simp
  next
    case Ult
    then have e: "BCREATE R Ult (static_UltExpr_create R) l r = Some e"
      using assms(4) by (simp add: UltExpr_create_def CMPCREATE_eq)
    have "refines_on (binary_cond k l r) Bool (\<lambda>\<sigma>. eval_binary Ult (getWidth l) (eval \<sigma> l) (eval \<sigma> r)) e"
      using BCREATE_refines [OF assms(1,2) e, of "binary_cond k l r"] static_and_refines(3) [OF assms(1,2)]
      by (simp add: refines_imp_refines_on del: eval_binary.simps)
    with Ult show ?thesis by simp
  next
    case Ule
    then have e: "BCREATE R Ule (static_UleExpr_create R) l r = Some e"
      using assms(4) by (simp add: UleExpr_create_def CMPCREATE_eq)
    have "refines_on (binary_cond k l r) Bool (\<lambda>\<sigma>. eval_binary Ule (getWidth l) (eval \<sigma> l) (eval \<sigma> r)) e"
      using BCREATE_refines [OF assms(1,2) e, of "binary_cond k l r"] static_and_refines(4) [OF assms(1,2)]
      by (simp add: refines_imp_refines_on del: eval_binary.simps)
    with Ule show ?thesis by simp
  next
    case Slt
    then have e: "BCREATE R Slt (static_SltExpr_create R) l r = Some e"
      using assms(4) by (simp add: SltExpr_create_def CMPCREATE_eq)
    have "refines_on (binary_cond k l r) Bool (\<lambda>\<sigma>. eval_binary Slt (getWidth l) (eval \<sigma> l) (eval \<sigma> r)) e"
      using BCREATE_refines [OF assms(1,2) e, of "binary_cond k l r"] static_and_refines(5) [OF assms(1,2)]
      by (simp add: refines_imp_refines_on del: eval_binary.simps)
    with Slt show ?thesis by simp
  next
    case Sle
    then have e: "BCREATE R Sle (static_SleExpr_create R) l r = Some e"
      using assms(4) by (simp add: SleExpr_create_def CMPCREATE_eq)
    have "refines_on (binary_cond k l r) Bool (\<lambda>\<sigma>. eval_binary Sle (getWidth l) (eval \<sigma> l) (eval \<sigma> r)) e"
      using BCREATE_refines [OF assms(1,2) e, of "binary_cond k l r"] static_and_refines(6) [OF assms(1,2)]
      by (simp add: refines_imp_refines_on del: eval_binary.simps)
    with Sle show ?thesis by simp
  next
    case Ugt
    then have e: "BCREATE R Ult (static_UltExpr_create R) r l = Some e" and w: "getWidth l = getWidth r"
      using assms(4) by (simp_all add: UgtExpr_create_def UltExpr_create_def CMPCREATE_eq BCREATE_def)
    have "refines_on (binary_cond k l r) Bool (\<lambda>\<sigma>. eval_binary Ult (getWidth r) (eval \<sigma> r) (eval \<sigma> l)) e"
      using BCREATE_refines [OF assms(2,1) e, of "binary_cond k l r"] static_and_refines(3) [OF assms(2,1)]
      by (simp add: refines_imp_refines_on del: eval_binary.simps)
    with Ugt w show ?thesis by simp
  next
    case Uge
    then have e: "BCREATE R Ule (static_UleExpr_create R) r l = Some e" and w: "getWidth l = getWidth r"
      using assms(4) by (simp_all add: UgeExpr_create_def UleExpr_create_def CMPCREATE_eq BCREATE_def)
    have "refines_on (binary_cond k l r) Bool (\<lambda>\<sigma>. eval_binary Ule (getWidth r) (eval \<sigma> r) (eval \<sigma> l)) e"
      using BCREATE_refines [OF assms(2,1) e, of "binary_cond k l r"] static_and_refines(4) [OF assms(2,1)]
      by (simp add: refines_imp_refines_on del: eval_binary.simps)
    with Uge w show ?thesis by simp
  next
    case Sgt
    then have e: "BCREATE R Slt (static_SltExpr_create R) r l = Some e" and w: "getWidth l = getWidth r"
      using assms(4) by (simp_all add: SgtExpr_create_def SltExpr_create_def CMPCREATE_eq BCREATE_def)
    have "refines_on (binary_cond k l r) Bool (\<lambda>\<sigma>. eval_binary Slt (getWidth r) (eval \<sigma> r) (eval \<sigma> l)) e"
      using BCREATE_refines [OF assms(2,1) e, of "binary_cond k l r"] static_and_refines(5) [OF assms(2,1)]
      by (simp add: refines_imp_refines_on del: eval_binary.simps)
    with Sgt w show ?thesis by simp
  next
    case Sge
    then have e: "BCREATE R Sle (static_SleExpr_create R) r l = Some e" and w: "getWidth l = getWidth r"
      using assms(4) by (simp_all add: SgeExpr_create_def SleExpr_create_def CMPCREATE_eq BCREATE_def)
    have "refines_on (binary_cond k l r) Bool (\<lambda>\<sigma>. eval_binary Sle (getWidth r) (eval \<sigma> r) (eval \<sigma> l)) e"
      using BCREATE_refines [OF assms(2,1) e, of "binary_cond k l r"] static_and_refines(6) [OF assms(2,1)]
      by (simp add: refines_imp_refines_on del: eval_binary.simps)
    with Sge w show ?thesis by simp
  qed
qed

lemma BCREATE_total:
  assumes "wt l" "wt r" "narrow l" "narrow r" "getWidth l = getWidth r"
    "k \<in> {UDiv, SDiv, URem, SRem} \<Longrightarrow> (\<forall>c. r = ConstantExpr c \<longrightarrow> apValue c \<noteq> 0)"
    "\<exists>e. static l r = Some e \<and> narrow e"
  shows "\<exists>e. BCREATE R k static l r = Some e \<and> narrow e"
proof (cases "dyn_cast_Constant l"; cases "dyn_cast_Constant r")
  fix cl cr assume "dyn_cast_Constant l = Some cl" "dyn_cast_Constant r = Some cr"
  then show ?thesis
    using assms(1-6) ConstantExpr_binop_refines [of cl cr k] by (auto simp: BCREATE_def refines_def)
qed (use assms in \<open>auto simp: BCREATE_def\<close>)

lemma isZero_Bool_total:
  assumes "wt e" "narrow e" "getWidth e = Bool"
  obtains z where "createIsZero R e = Some z" "narrow z" "wt z" "getWidth z = Bool"
  using eq_or_total(2) [OF assms(1,2)] isZero_Bool_refines [OF assms(1,3)] by (auto simp: refines_def)

lemma static_create_total:
  assumes "wt l" "wt r" "narrow l" "narrow r" "getWidth l = getWidth r"
  shows "\<exists>e. static_UDivExpr_create l r = Some e \<and> narrow e" "\<exists>e. static_SDivExpr_create l r = Some e \<and> narrow e"
    "\<exists>e. static_URemExpr_create R l r = Some e \<and> narrow e" "\<exists>e. static_SRemExpr_create R l r = Some e \<and> narrow e"
    "\<exists>e. static_AShrExpr_create l r = Some e \<and> narrow e"
    "\<exists>e. static_ShlExpr_create R l r = Some e \<and> narrow e" "\<exists>e. static_LShrExpr_create R l r = Some e \<and> narrow e"
    "\<exists>e. static_UltExpr_create R l r = Some e \<and> narrow e" "\<exists>e. static_UleExpr_create R l r = Some e \<and> narrow e"
    "\<exists>e. static_SltExpr_create R l r = Some e \<and> narrow e" "\<exists>e. static_SleExpr_create R l r = Some e \<and> narrow e"
proof -
  have zl: "\<exists>z. createIsZero R l = Some z \<and> (\<exists>e. AndExpr_create R z r = Some e \<and> narrow e)
      \<and> (\<exists>e. OrExpr_create R z r = Some e \<and> narrow e)" if "getWidth l = Bool"
  proof (rule isZero_Bool_total [OF assms(1,3) that])
    fix z assume "createIsZero R l = Some z" "narrow z" "wt z" "getWidth z = Bool"
    then show ?thesis using assms that and_create_total(1) [of z r] eq_or_total(6) [of z r] by simp
  qed
  have zr: "\<exists>z. createIsZero R r = Some z \<and> (\<exists>e. AndExpr_create R l z = Some e \<and> narrow e)
      \<and> (\<exists>e. OrExpr_create R l z = Some e \<and> narrow e)" if "getWidth r = Bool"
  proof (rule isZero_Bool_total [OF assms(2,4) that])
    fix z assume "createIsZero R r = Some z" "narrow z" "wt z" "getWidth z = Bool"
    then show ?thesis using assms that and_create_total(1) [of l z] eq_or_total(6) [of l z] by simp
  qed
  show "\<exists>e. static_UDivExpr_create l r = Some e \<and> narrow e" "\<exists>e. static_SDivExpr_create l r = Some e \<and> narrow e"
    "\<exists>e. static_URemExpr_create R l r = Some e \<and> narrow e" "\<exists>e. static_SRemExpr_create R l r = Some e \<and> narrow e"
    "\<exists>e. static_AShrExpr_create l r = Some e \<and> narrow e"
    using assms by (auto simp: static_UDivExpr_create_def static_SDivExpr_create_def static_URemExpr_create_def
        static_SRemExpr_create_def static_AShrExpr_create_def create_0)
  show "\<exists>e. static_ShlExpr_create R l r = Some e \<and> narrow e" "\<exists>e. static_LShrExpr_create R l r = Some e \<and> narrow e"
    "\<exists>e. static_UltExpr_create R l r = Some e \<and> narrow e" "\<exists>e. static_UleExpr_create R l r = Some e \<and> narrow e"
    "\<exists>e. static_SltExpr_create R l r = Some e \<and> narrow e" "\<exists>e. static_SleExpr_create R l r = Some e \<and> narrow e"
    using assms zl zr by (auto simp: static_ShlExpr_create_def static_LShrExpr_create_def static_UltExpr_create_def
        static_UleExpr_create_def static_SltExpr_create_def static_SleExpr_create_def)
qed

lemma MulExpr_create_total:
  assumes "wt l" "wt r" "narrow l" "narrow r" "getWidth l = getWidth r"
  shows "\<exists>e. MulExpr_create R l r = Some e \<and> narrow e"
proof -
  have part: "\<exists>e. MulExpr_createPartialR c x = Some e \<and> narrow e"
    if "ap_wf c" "wt x" "narrow x" "getBitWidth c = getWidth x" for c x
    using that constant_predicates_narrow [of c] narrow_width [of x] AndExpr_createPartial_total [of x c]
    by (auto simp: MulExpr_createPartialR_def AndExpr_createPartialR_def)
  show ?thesis
  proof (cases "dyn_cast_Constant l"; cases "dyn_cast_Constant r")
    fix cl cr assume "dyn_cast_Constant l = Some cl" "dyn_cast_Constant r = Some cr"
    then show ?thesis using assms ConstantExpr_binop_refines [of cl cr Mul]
      by (auto simp: MulExpr_create_def BCREATE_R_def refines_def)
  qed (use assms part in \<open>auto simp: MulExpr_create_def BCREATE_R_def MulExpr_createPartial_def static_MulExpr_create_def\<close>)
qed

lemma NeExpr_create_total:
  assumes "wt l" "wt r" "narrow l" "narrow r" "getWidth l = getWidth r"
  shows "\<exists>e. NeExpr_create R l r = Some e \<and> narrow e"
proof -
  obtain x where x: "EqExpr_create R l r = Some x" "narrow x" using eq_or_total(1) [OF assms] by auto
  from eq_or_refines(1) [OF assms(1,2) x(1)] have "wt x" "getWidth x = Bool" by (auto simp: refines_on_def)
  with x eq_or_total(1) [of "ConstantExpr (APInt Bool 0)" x] show ?thesis
    by (auto simp: NeExpr_create_def create_0 ap_wf_def)
qed

lemma Binary_create_total:
  assumes "wt l" "wt r" "narrow l" "narrow r" "getWidth l = getWidth r" "divisor_ok k r"
  shows "\<exists>e. Binary_create R k l r = Some e \<and> narrow e"
proof -
  note [simp] = UDivExpr_create_def SDivExpr_create_def URemExpr_create_def SRemExpr_create_def
    ShlExpr_create_def LShrExpr_create_def AShrExpr_create_def UltExpr_create_def UleExpr_create_def
    SltExpr_create_def SleExpr_create_def UgtExpr_create_def UgeExpr_create_def SgtExpr_create_def
    SgeExpr_create_def CMPCREATE_eq
  note st = static_create_total [OF assms(1-5)] static_create_total [OF assms(2,1,4,3) assms(5) [symmetric]]
  show ?thesis
  proof (cases k)
    case Add
    then show ?thesis using add_sub_total(1) [OF assms(1-5)] by simp
  next
    case Sub
    then show ?thesis using add_sub_total(4) [OF assms(1-5)] by simp
  next
    case Mul
    then show ?thesis using MulExpr_create_total [OF assms(1-5)] by simp
  next
    case And
    then show ?thesis using and_create_total(1) [OF assms(1-5)] by simp
  next
    case Or
    then show ?thesis using eq_or_total(6) [OF assms(1-5)] by simp
  next
    case Xor
    then show ?thesis using XorExpr_create_total [OF assms(1-5)] by simp
  next
    case Eq
    then show ?thesis using eq_or_total(1) [OF assms(1-5)] by simp
  next
    case Ne
    then show ?thesis using NeExpr_create_total [OF assms(1-5)] by simp
  qed (simp_all, (rule BCREATE_total; use assms st in \<open>simp_all add: divisor_ok_def\<close>)+)
qed

end

section \<open>Properties\<close>

text \<open>
  C5. Every binary constructor is correct: on well-typed operands of one width of at most 64 bits
  (and no constant zero divisor) no assertion fails, and the simplified expression is well typed,
  has the width of the operation, and under every assignment with a nonzero divisor and in-range
  reads of constant arrays has the value of the operation on the values of the operands.
\<close>

theorem Binary_create_correct:
  assumes "klee_rt_laws R" "wt l" "wt r" "narrow l" "narrow r" "getWidth l = getWidth r" "divisor_ok k r"
  shows "\<exists>e. Binary_create R k l r = Some e \<and> wt e \<and> narrow e
    \<and> getWidth e = (if is_cmp k then Bool else getWidth l)
    \<and> (\<forall>\<sigma>. binary_cond k l r \<sigma> \<longrightarrow> eval \<sigma> e = eval_binary k (getWidth l) (eval \<sigma> l) (eval \<sigma> r))"
  using klee_rt_laws.Binary_create_total [OF assms] klee_rt_laws.Binary_create_refines [OF assms(1-3,7)]
  by (fastforce simp: refines_on_def)

theorem Binary_create_correct_witness:
  "\<exists>e. Binary_create klee_rt_ref UDiv (NotOptimizedExpr (ConstantExpr (APInt 8 100))) (ConstantExpr (APInt 8 7)) = Some e
    \<and> wt e \<and> narrow e \<and> getWidth e = 8 \<and> (\<forall>\<sigma>. eval \<sigma> e = 14)"
  using Binary_create_correct [OF klee_rt_ref_laws,
      of "NotOptimizedExpr (ConstantExpr (APInt 8 100))" "ConstantExpr (APInt 8 7)" UDiv]
  by (simp add: ap_wf_def bv_def divisor_ok_def binary_cond_def)

end
