(* ===== verification/ExprMake.thy ===== *)
theory ExprMake
  imports ExprArith
begin

text \<open>
  The constructors of the remaining nodes and the functions that dispatch on the kind of a node:
  \<^verbatim>\<open>SelectExpr::create\<close>, \<^verbatim>\<open>ReadExpr::create\<close>, \<^verbatim>\<open>ConcatExpr::createN\<close>, \<^verbatim>\<open>create4\<close> and \<^verbatim>\<open>create8\<close>,
  \<^verbatim>\<open>Expr::createImplies\<close>, \<^verbatim>\<open>Expr::createTempRead\<close> and \<^verbatim>\<open>Expr::createFromKind\<close>
  (\<^verbatim>\<open>src/klee/lib/Expr/Expr.cpp\<close>), and the \<^verbatim>\<open>rebuild\<close> methods (\<^verbatim>\<open>src/klee/include/klee/Expr.h\<close>).
\<close>

section \<open>Select and read\<close>

function SelectExpr_create :: "klee_rt \<Rightarrow> expr \<Rightarrow> expr \<Rightarrow> expr \<Rightarrow> expr option" where
  "SelectExpr_create R c t f =
     do { require (getWidth c = Bool);
          require (getWidth t = getWidth f);
          case dyn_cast_Constant c of
            Some CE \<Rightarrow> do { b \<leftarrow> ConstantExpr_isTrue CE; Some (if b then t else f) }
          | None \<Rightarrow>
          if t = f then Some t else
          (case dyn_cast_Select t of
             Some (se_cond, se_true, se_false) \<Rightarrow>
               if f = se_false then
                 do { c' \<leftarrow> AndExpr_create R c se_cond; SelectExpr_create R c' se_true f }
               else if f = se_true then
                 do { c' \<leftarrow> AndExpr_create R c (NotExpr_create R se_cond); SelectExpr_create R c' se_false f }
               else Some (SelectExpr c t f)
           | None \<Rightarrow>
          (case dyn_cast_Select f of
             Some (se_cond, se_true, se_false) \<Rightarrow>
               if t = se_true then
                 do { c' \<leftarrow> OrExpr_create R c se_cond; SelectExpr_create R c' t se_false }
               else if t = se_false then
                 do { c' \<leftarrow> OrExpr_create R c (NotExpr_create R se_cond); SelectExpr_create R c' t se_true }
               else Some (SelectExpr c t f)
           | None \<Rightarrow>
          if getWidth t = Bool then
            (case dyn_cast_Constant t of
               Some CE \<Rightarrow>
                 do { b \<leftarrow> ConstantExpr_isTrue CE;
                      if b then OrExpr_create R c f
                      else do { z \<leftarrow> createIsZero R c; AndExpr_create R z f } }
             | None \<Rightarrow>
            (case dyn_cast_Constant f of
               Some CE \<Rightarrow>
                 do { b \<leftarrow> ConstantExpr_isTrue CE;
                      if b then do { z \<leftarrow> createIsZero R c; OrExpr_create R z t }
                      else AndExpr_create R c t }
             | None \<Rightarrow> Some (SelectExpr c t f)))
          else Some (SelectExpr c t f))) }"
  by pat_completeness auto
termination
  by (relation "measure (\<lambda>(R, c, t, f). size t + size f)") auto

declare SelectExpr_create.simps [simp del]

text \<open>
  The scan of \<^verbatim>\<open>ReadExpr::create\<close>: it stops at the first update whose index is known to be equal, and
  gives up at the first one that may be.
\<close>

fun ReadExpr_scan :: "klee_rt \<Rightarrow> klee_array \<Rightarrow> update_node \<Rightarrow> expr \<Rightarrow> update_node \<Rightarrow> expr option" where
  "ReadExpr_scan R root head i NoUpdate = Some (ReadExpr root head i)"
| "ReadExpr_scan R root head i (UpdateNode un_index un_value un_next) =
     do { cond \<leftarrow> EqExpr_create R i un_index;
          case dyn_cast_Constant cond of
            Some CE \<Rightarrow>
              do { b \<leftarrow> ConstantExpr_isTrue CE;
                   if b then Some un_value else ReadExpr_scan R root head i un_next }
          | None \<Rightarrow> Some (ReadExpr root head i) }"

function ReadExpr_create :: "klee_rt \<Rightarrow> klee_array \<Rightarrow> update_node \<Rightarrow> expr \<Rightarrow> expr option" where
  "ReadExpr_create R root head i =
     (case dyn_cast_Select i of
        Some (se_cond, se_true, se_false) \<Rightarrow>
          if hasConstantCases i then
            do { t \<leftarrow> ReadExpr_create R root head se_true;
                 f \<leftarrow> ReadExpr_create R root head se_false;
                 SelectExpr_create R se_cond t f }
          else ReadExpr_scan R root head i head
      | None \<Rightarrow> ReadExpr_scan R root head i head)"
  by pat_completeness auto
termination
  by (relation "measure (\<lambda>(R, root, head, i). size i)") auto

declare ReadExpr_create.simps [simp del]

section \<open>Shortcuts\<close>

fun ConcatExpr_createN :: "klee_rt \<Rightarrow> expr list \<Rightarrow> expr option" where
  "ConcatExpr_createN R [] = None"
| "ConcatExpr_createN R [k] = Some k"
| "ConcatExpr_createN R (k # ks) = do { r \<leftarrow> ConcatExpr_createN R ks; ConcatExpr_create R k r }"

definition ConcatExpr_create4 :: "klee_rt \<Rightarrow> expr \<Rightarrow> expr \<Rightarrow> expr \<Rightarrow> expr \<Rightarrow> expr option" where
  "ConcatExpr_create4 R kid1 kid2 kid3 kid4 =
     do { r \<leftarrow> ConcatExpr_create R kid3 kid4;
          r \<leftarrow> ConcatExpr_create R kid2 r;
          ConcatExpr_create R kid1 r }"

definition ConcatExpr_create8 ::
  "klee_rt \<Rightarrow> expr \<Rightarrow> expr \<Rightarrow> expr \<Rightarrow> expr \<Rightarrow> expr \<Rightarrow> expr \<Rightarrow> expr \<Rightarrow> expr \<Rightarrow> expr option" where
  "ConcatExpr_create8 R kid1 kid2 kid3 kid4 kid5 kid6 kid7 kid8 =
     do { r \<leftarrow> ConcatExpr_create4 R kid5 kid6 kid7 kid8;
          r \<leftarrow> ConcatExpr_create R kid4 r;
          r \<leftarrow> ConcatExpr_create R kid3 r;
          r \<leftarrow> ConcatExpr_create R kid2 r;
          ConcatExpr_create R kid1 r }"

definition createImplies :: "klee_rt \<Rightarrow> expr \<Rightarrow> expr \<Rightarrow> expr option" where
  "createImplies R hyp conc = do { z \<leftarrow> createIsZero R hyp; OrExpr_create R z conc }"

text \<open>The read of byte \<^verbatim>\<open>i\<close> of an array without updates, as \<^verbatim>\<open>createTempRead\<close> writes it.\<close>

definition temp_byte :: "klee_rt \<Rightarrow> klee_array \<Rightarrow> nat \<Rightarrow> expr option" where
  "temp_byte R array i = ReadExpr_create R array NoUpdate (ConstantExpr (ConstantExpr_alloc R (of_nat i) Int32))"

definition createTempRead :: "klee_rt \<Rightarrow> klee_array \<Rightarrow> width \<Rightarrow> expr option" where
  "createTempRead R array w =
     (if w = Bool then do { b \<leftarrow> temp_byte R array 0; ZExtExpr_create R b Bool }
      else if w = Int8 then temp_byte R array 0
      else if w = Int16 then
        do { b1 \<leftarrow> temp_byte R array 1; b0 \<leftarrow> temp_byte R array 0; ConcatExpr_create R b1 b0 }
      else if w = Int32 then
        do { b3 \<leftarrow> temp_byte R array 3; b2 \<leftarrow> temp_byte R array 2;
             b1 \<leftarrow> temp_byte R array 1; b0 \<leftarrow> temp_byte R array 0;
             ConcatExpr_create4 R b3 b2 b1 b0 }
      else if w = Int64 then
        do { b7 \<leftarrow> temp_byte R array 7; b6 \<leftarrow> temp_byte R array 6;
             b5 \<leftarrow> temp_byte R array 5; b4 \<leftarrow> temp_byte R array 4;
             b3 \<leftarrow> temp_byte R array 3; b2 \<leftarrow> temp_byte R array 2;
             b1 \<leftarrow> temp_byte R array 1; b0 \<leftarrow> temp_byte R array 0;
             ConcatExpr_create8 R b7 b6 b5 b4 b3 b2 b1 b0 }
      else None)"

section \<open>Dispatch on the kind\<close>

datatype create_arg = ArgExpr expr | ArgWidth width

fun createFromKind :: "klee_rt \<Rightarrow> kind \<Rightarrow> create_arg list \<Rightarrow> expr option" where
  "createFromKind R NotOptimized [ArgExpr e] = Some (NotOptimizedExpr_create e)"
| "createFromKind R Select [ArgExpr c, ArgExpr t, ArgExpr f] = SelectExpr_create R c t f"
| "createFromKind R Concat [ArgExpr l, ArgExpr r] = ConcatExpr_create R l r"
| "createFromKind R (CastKind ZExt) [ArgExpr e, ArgWidth w] = ZExtExpr_create R e w"
| "createFromKind R (CastKind SExt) [ArgExpr e, ArgWidth w] = SExtExpr_create R e w"
| "createFromKind R (BinaryKind k) [ArgExpr l, ArgExpr r] = Binary_create R k l r"
| "createFromKind R _ _ = None"

text \<open>\<^verbatim>\<open>rebuild\<close> with an array of new kids.\<close>

fun rebuild :: "klee_rt \<Rightarrow> expr \<Rightarrow> expr list \<Rightarrow> expr option" where
  "rebuild R (NotOptimizedExpr _) [e] = Some (NotOptimizedExpr_create e)"
| "rebuild R (ReadExpr root head _) [i] = ReadExpr_create R root head i"
| "rebuild R (SelectExpr _ _ _) [c, t, f] = SelectExpr_create R c t f"
| "rebuild R (ConcatExpr _ _) [l, r] = ConcatExpr_create R l r"
| "rebuild R (ExtractExpr _ off w) [e] = ExtractExpr_create R e off w"
| "rebuild R (NotExpr _) [e] = Some (NotExpr_create R e)"
| "rebuild R (CastExpr ZExt _ w) [e] = ZExtExpr_create R e w"
| "rebuild R (CastExpr SExt _ w) [e] = SExtExpr_create R e w"
| "rebuild R (BinaryExpr k _ _) [l, r] = Binary_create R k l r"
| "rebuild R _ _ = None"

text \<open>
  What \<^verbatim>\<open>rebuild\<close> asks of the new kids, and where the new node has the value of its kind.
\<close>

definition kids_like :: "expr \<Rightarrow> expr list \<Rightarrow> bool" where
  "kids_like e ks \<longleftrightarrow> list_all2 (\<lambda>k k'. wt k' \<and> narrow k' \<and> getWidth k' = getWidth k) (kids e) ks"

definition rebuild_ok :: "expr \<Rightarrow> expr list \<Rightarrow> bool" where
  "rebuild_ok e ks \<longleftrightarrow> (case e of BinaryExpr k _ _ \<Rightarrow> divisor_ok k (ks ! 1) | _ \<Rightarrow> True)"

definition rebuild_cond :: "expr \<Rightarrow> expr list \<Rightarrow> assignment \<Rightarrow> bool" where
  "rebuild_cond e ks \<sigma> \<longleftrightarrow>
     (case e of
        BinaryExpr k _ _ \<Rightarrow> binary_cond k (ks ! 0) (ks ! 1) \<sigma>
      | ReadExpr a u _ \<Rightarrow> in_bounds \<sigma> (ks ! 0) \<and> in_bounds_updates \<sigma> u
      | _ \<Rightarrow> True)"

section \<open>Soundness\<close>

lemma isTrue_value:
  assumes "ap_wf c" "ConstantExpr_isTrue c = Some b"
  shows "apValue c = of_bool b"
  using ConstantExpr_isTrue_iff [OF assms] ap_wf_bv [OF assms(1)] by (auto simp: bv_Suc_0_iff)

lemma update_node_induct [case_names NoUpdate UpdateNode]:
  assumes "P NoUpdate" "\<And>i v n. P n \<Longrightarrow> P (UpdateNode i v n)"
  shows "P u"
  by (rule update_node.induct [where ?P1.0 = "\<lambda>_. True"]) (use assms in auto)

text \<open>Boolean conditions: the connectives on values 0 and 1.\<close>

lemma cond_values:
  assumes "wt a" "wt b" "getWidth a = Bool" "getWidth b = Bool"
  shows "eval \<sigma> a AND eval \<sigma> b = of_bool (eval \<sigma> a \<noteq> 0 \<and> eval \<sigma> b \<noteq> 0)"
    "eval \<sigma> a OR eval \<sigma> b = of_bool (eval \<sigma> a \<noteq> 0 \<or> eval \<sigma> b \<noteq> 0)"
    "take_bit Bool (NOT (eval \<sigma> a)) = of_bool (eval \<sigma> a = 0)"
  using eval_bv [OF assms(1), of \<sigma>] eval_bv [OF assms(2), of \<sigma>] assms(3,4) by (auto simp: bv_Suc_0_iff)

text \<open>The first bytes of an array, read as a little-endian number.\<close>

primrec array_value :: "assignment \<Rightarrow> klee_array \<Rightarrow> nat \<Rightarrow> int" where
  "array_value \<sigma> a 0 = 0"
| "array_value \<sigma> a (Suc n) = push_bit (8 * n) (initial_value \<sigma> a (int n)) OR array_value \<sigma> a n"

context klee_rt_laws
begin

text \<open>What the three connectives of \<^verbatim>\<open>SelectExpr::create\<close> do to conditions.\<close>

lemma cond_refines:
  assumes "wt a" "wt b" "getWidth a = Bool" "getWidth b = Bool"
  shows "AndExpr_create R a b = Some e \<Longrightarrow> refines Bool (\<lambda>\<sigma>. of_bool (eval \<sigma> a \<noteq> 0 \<and> eval \<sigma> b \<noteq> 0)) e"
    "OrExpr_create R a b = Some e \<Longrightarrow> refines Bool (\<lambda>\<sigma>. of_bool (eval \<sigma> a \<noteq> 0 \<or> eval \<sigma> b \<noteq> 0)) e"
    "refines Bool (\<lambda>\<sigma>. of_bool (eval \<sigma> a = 0)) (NotExpr_create R a)"
  using and_create_refines(1) [OF assms(1,2)] eq_or_refines(6) [OF assms(1,2)] NotExpr_create_refines [OF assms(1)]
    assms(3) cond_values [OF assms]
  by (simp_all add: refines_def)

text \<open>The last branch of \<^verbatim>\<open>SelectExpr::create\<close>: a boolean choice with a constant side.\<close>

lemma select_Bool_refines:
  assumes "wt c" "wt t" "wt f" "getWidth c = Bool" "getWidth t = Bool" "getWidth t = getWidth f"
    "(case dyn_cast_Constant t of
        Some CE \<Rightarrow> do { b \<leftarrow> ConstantExpr_isTrue CE;
          if b then OrExpr_create R c f else do { z \<leftarrow> createIsZero R c; AndExpr_create R z f } }
      | None \<Rightarrow> (case dyn_cast_Constant f of
          Some CE \<Rightarrow> do { b \<leftarrow> ConstantExpr_isTrue CE;
            if b then do { z \<leftarrow> createIsZero R c; OrExpr_create R z t } else AndExpr_create R c t }
        | None \<Rightarrow> Some (SelectExpr c t f))) = Some e"
  shows "refines Bool (\<lambda>\<sigma>. if eval \<sigma> c \<noteq> 0 then eval \<sigma> t else eval \<sigma> f) e"
proof -
  have z: "refines Bool (\<lambda>\<sigma>. of_bool (eval \<sigma> c = 0)) z" if "createIsZero R c = Some z" for z
    by (rule isZero_Bool_refines [OF assms(1,4) that])
  have v: "eval \<sigma> t = of_bool (eval \<sigma> t \<noteq> 0)" "eval \<sigma> f = of_bool (eval \<sigma> f \<noteq> 0)" for \<sigma>
    using eval_bv [OF assms(2), of \<sigma>] eval_bv [OF assms(3), of \<sigma>] assms(5,6) by (auto simp: bv_width_1)
  show ?thesis
  proof (cases "dyn_cast_Constant t")
    case (Some CE)
    obtain b where b: "ConstantExpr_isTrue CE = Some b" using assms(7) Some by (auto simp: option_bind_simps)
    have t: "eval \<sigma> t = of_bool b" for \<sigma> using isTrue_value [OF _ b] Some assms(2) by simp
    show ?thesis
    proof (cases b)
      case True
      with Some b assms(7) have "OrExpr_create R c f = Some e" by simp
      from cond_refines(2) [OF assms(1,3,4) _ this] assms(5,6) t v True show ?thesis by (auto simp: refines_def)
    next
      case False
      with Some b assms(7) obtain z' where z': "createIsZero R c = Some z'" "AndExpr_create R z' f = Some e"
        by (auto simp: option_bind_simps)
      note z = z [OF z'(1)]
      from cond_refines(1) [OF refines_wt [OF z] assms(3) refines_width [OF z] _ z'(2)] z assms(5,6) t v False
      show ?thesis by (auto simp: refines_def)
    qed
  next
    case t: None
    show ?thesis
    proof (cases "dyn_cast_Constant f")
      case (Some CE)
      obtain b where b: "ConstantExpr_isTrue CE = Some b" using assms(7) t Some by (auto simp: option_bind_simps)
      have f: "eval \<sigma> f = of_bool b" for \<sigma> using isTrue_value [OF _ b] Some assms(3) by simp
      show ?thesis
      proof (cases b)
        case True
        with t Some b assms(7) obtain z' where z': "createIsZero R c = Some z'" "OrExpr_create R z' t = Some e"
          by (auto simp: option_bind_simps)
        note z = z [OF z'(1)]
        from cond_refines(2) [OF refines_wt [OF z] assms(2) refines_width [OF z] _ z'(2)] z assms(5,6) f v True
        show ?thesis by (auto simp: refines_def)
      next
        case False
        with t Some b assms(7) have "AndExpr_create R c t = Some e" by simp
        from cond_refines(1) [OF assms(1,2,4,5) this] f v False show ?thesis by (auto simp: refines_def)
      qed
    next
      case None
      with t assms show ?thesis by (auto simp: refines_def)
    qed
  qed
qed

lemma select_refines_aux:
  "R' = R \<Longrightarrow> wt c \<Longrightarrow> wt t \<Longrightarrow> wt f \<Longrightarrow> SelectExpr_create R' c t f = Some e \<Longrightarrow>
     refines (getWidth t) (\<lambda>\<sigma>. if eval \<sigma> c \<noteq> 0 then eval \<sigma> t else eval \<sigma> f) e"
proof (induction R' c t f arbitrary: e rule: SelectExpr_create.induct)
  case (1 R' c t f)
  note p = "1.prems" and S = "1.prems"(5) [unfolded SelectExpr_create.simps [of R' c t f]]
  have w: "getWidth c = Bool" "getWidth t = getWidth f" using S by auto
  show ?case
  proof (cases "dyn_cast_Constant c")
    case (Some CE)
    then obtain b where b: "ConstantExpr_isTrue CE = Some b" using S by (auto simp: option_bind_simps)
    with Some S p(1-4) w show ?thesis using isTrue_value [OF _ b] by (auto simp: refines_def)
  next
    case c: None
    show ?thesis
    proof (cases "t = f")
      case True
      with S p(2-4) w c show ?thesis by (auto simp: refines_def)
    next
      case tf: False
      show ?thesis
      proof (cases "dyn_cast_Select t")
        case (Some s)
        obtain sc st sf where s: "s = (sc, st, sf)" by (cases s)
        have t: "t = SelectExpr sc st sf" using Some s by simp
        have ws: "wt sc" "wt st" "wt sf" "getWidth sc = Bool" "getWidth st = getWidth sf" using p(3) t by auto
        note n = cond_refines(3) [OF ws(1) ws(1) ws(4) ws(4)]
        consider "f = sf" | "f \<noteq> sf" "f = st" | "f \<noteq> sf" "f \<noteq> st" by blast
        then show ?thesis
        proof cases
          case 1
          obtain c' where c': "AndExpr_create R' c sc = Some c'" "SelectExpr_create R' c' st f = Some e"
            using S w c tf Some s 1 by (auto simp: option_bind_simps)
          note a = cond_refines(1) [OF p(2) ws(1) w(1) ws(4) c'(1) [unfolded p(1)]]
          from "1.IH"(3) [OF _ _ c tf Some s [symmetric] refl 1 c'(1) p(1) refines_wt [OF a] ws(2) p(4) c'(2)] a w
          show ?thesis using 1 by (auto simp: refines_def t)
        next
          case 2
          obtain c' where c': "AndExpr_create R' c (NotExpr_create R' sc) = Some c'" "SelectExpr_create R' c' sf f = Some e"
            using S w c tf Some s 2 by (auto simp: option_bind_simps)
          note a = cond_refines(1) [OF p(2) refines_wt [OF n] w(1) refines_width [OF n] c'(1) [unfolded p(1)]]
          from "1.IH"(4) [OF _ _ c tf Some s [symmetric] refl 2 c'(1) p(1) refines_wt [OF a] ws(3) p(4) c'(2)] a w n
          show ?thesis using 2 ws(5) by (auto simp: refines_def t)
        next
          case 3
          with S w c tf Some s p show ?thesis by (auto simp: refines_def)
        qed
      next
        case ts: None
        show ?thesis
        proof (cases "dyn_cast_Select f")
          case (Some s)
          obtain sc st sf where s: "s = (sc, st, sf)" by (cases s)
          have f: "f = SelectExpr sc st sf" using Some s by simp
          have ws: "wt sc" "wt st" "wt sf" "getWidth sc = Bool" "getWidth st = getWidth sf" using p(4) f by auto
          note n = cond_refines(3) [OF ws(1) ws(1) ws(4) ws(4)]
          consider "t = st" | "t \<noteq> st" "t = sf" | "t \<noteq> st" "t \<noteq> sf" by blast
          then show ?thesis
          proof cases
            case 1
            obtain c' where c': "OrExpr_create R' c sc = Some c'" "SelectExpr_create R' c' t sf = Some e"
              using S w c tf ts Some s 1 by (auto simp: option_bind_simps)
            note a = cond_refines(2) [OF p(2) ws(1) w(1) ws(4) c'(1) [unfolded p(1)]]
            from "1.IH"(1) [OF _ _ c tf ts Some s [symmetric] refl 1 c'(1) p(1) refines_wt [OF a] p(3) ws(3) c'(2)] a w
            show ?thesis using 1 by (auto simp: refines_def f)
          next
            case 2
            obtain c' where c': "OrExpr_create R' c (NotExpr_create R' sc) = Some c'" "SelectExpr_create R' c' t st = Some e"
              using S w c tf ts Some s 2 by (auto simp: option_bind_simps)
            note a = cond_refines(2) [OF p(2) refines_wt [OF n] w(1) refines_width [OF n] c'(1) [unfolded p(1)]]
            from "1.IH"(2) [OF _ _ c tf ts Some s [symmetric] refl 2 c'(1) p(1) refines_wt [OF a] p(3) ws(2) c'(2)] a w n
            show ?thesis using 2 by (auto simp: refines_def f)
          next
            case 3
            with S w c tf ts Some s p show ?thesis by (auto simp: refines_def)
          qed
        next
          case fs: None
          have B: "refines Bool (\<lambda>\<sigma>. if eval \<sigma> c \<noteq> 0 then eval \<sigma> t else eval \<sigma> f) e" if B: "getWidth t = Bool"
            by (rule select_Bool_refines [OF p(2-4) w(1) B w(2)])
              (use S [unfolded p(1)] c tf ts fs w(1) B in \<open>simp flip: w(2)\<close>)
          show ?thesis
          proof (cases "getWidth t = Bool")
            case True
            with B show ?thesis by simp
          next
            case False
            with S w c tf ts fs p show ?thesis by (auto simp: refines_def)
          qed
        qed
      qed
    qed
  qed
qed

lemmas select_refines = select_refines_aux [OF refl]

lemma NotExpr_create_narrow: "wt e \<Longrightarrow> narrow e \<Longrightarrow> narrow (NotExpr_create R e)"
  by (cases e) (auto simp: NotExpr_create_def ConstantExpr_Not_eq)

text \<open>Conditions of at most 64 bits: the connectives return, with boolean results.\<close>

lemma cond_total:
  assumes "wt a" "wt b" "getWidth a = Bool" "getWidth b = Bool" "narrow a" "narrow b"
  shows "\<exists>e. AndExpr_create R a b = Some e \<and> wt e \<and> narrow e \<and> getWidth e = Bool"
    "\<exists>e. OrExpr_create R a b = Some e \<and> wt e \<and> narrow e \<and> getWidth e = Bool"
    "\<exists>e. AndExpr_create R a (NotExpr_create R b) = Some e \<and> wt e \<and> narrow e \<and> getWidth e = Bool"
    "\<exists>e. OrExpr_create R a (NotExpr_create R b) = Some e \<and> wt e \<and> narrow e \<and> getWidth e = Bool"
proof -
  have *: "\<exists>e. AndExpr_create R a b = Some e \<and> wt e \<and> narrow e \<and> getWidth e = Bool"
    "\<exists>e. OrExpr_create R a b = Some e \<and> wt e \<and> narrow e \<and> getWidth e = Bool"
    if "wt a" "wt b" "getWidth a = Bool" "getWidth b = Bool" "narrow a" "narrow b" for a b
    using and_create_total(1) [of a b] eq_or_total(6) [of a b] cond_refines(1,2) [OF that(1-4)] that
    by (fastforce simp: refines_def)+
  note n = cond_refines(3) [OF assms(2,2,4,4)]
  show "\<exists>e. AndExpr_create R a b = Some e \<and> wt e \<and> narrow e \<and> getWidth e = Bool"
    "\<exists>e. OrExpr_create R a b = Some e \<and> wt e \<and> narrow e \<and> getWidth e = Bool"
    "\<exists>e. AndExpr_create R a (NotExpr_create R b) = Some e \<and> wt e \<and> narrow e \<and> getWidth e = Bool"
    "\<exists>e. OrExpr_create R a (NotExpr_create R b) = Some e \<and> wt e \<and> narrow e \<and> getWidth e = Bool"
    using * [OF assms] * [OF assms(1) refines_wt [OF n] assms(3) refines_width [OF n] assms(5)
        NotExpr_create_narrow [OF assms(2,6)]] by blast+
qed

lemma select_total_aux:
  "R' = R \<Longrightarrow> wt c \<Longrightarrow> wt t \<Longrightarrow> wt f \<Longrightarrow> narrow c \<Longrightarrow> narrow t \<Longrightarrow> narrow f \<Longrightarrow>
     getWidth c = Bool \<Longrightarrow> getWidth t = getWidth f \<Longrightarrow> \<exists>e. SelectExpr_create R' c t f = Some e \<and> narrow e"
proof (induction R' c t f rule: SelectExpr_create.induct)
  case (1 R' c t f)
  note p = "1.prems"
  show ?case
  proof (cases "dyn_cast_Constant c")
    case (Some CE)
    with p constant_predicates_narrow(4) [of CE] show ?thesis by (subst SelectExpr_create.simps) auto
  next
    case c: None
    show ?thesis
    proof (cases "t = f")
      case True
      with c p show ?thesis by (subst SelectExpr_create.simps) simp
    next
      case tf: False
      show ?thesis
      proof (cases "dyn_cast_Select t")
        case (Some s)
        obtain sc st sf where s: "s = (sc, st, sf)" by (cases s)
        have ws: "wt sc" "wt st" "wt sf" "getWidth sc = Bool" "getWidth st = getWidth f" "getWidth sf = getWidth f" "narrow sc" "narrow st" "narrow sf"
          using p(3,6,9) Some s by auto
        note ct = cond_total [OF p(2) ws(1) p(8) ws(4) p(5) ws(7), folded p(1)]
        consider "f = sf" | "f \<noteq> sf" "f = st" | "f \<noteq> sf" "f \<noteq> st" by blast
        then show ?thesis
        proof cases
          case 1
          obtain c' where c': "AndExpr_create R' c sc = Some c'" "wt c'" "narrow c'" "getWidth c' = Bool" using ct(1) by auto
          note ih = "1.IH"(3) [OF _ _ c tf Some s [symmetric] refl 1 c'(1) p(1) c'(2) ws(2) p(4) c'(3) ws(8) p(7) c'(4) ws(5)]
          show ?thesis using ih c'(1) p(8,9) c tf Some s 1 by (subst SelectExpr_create.simps) simp
        next
          case 2
          obtain c' where c': "AndExpr_create R' c (NotExpr_create R' sc) = Some c'" "wt c'" "narrow c'" "getWidth c' = Bool" using ct(3) by auto
          note ih = "1.IH"(4) [OF _ _ c tf Some s [symmetric] refl 2 c'(1) p(1) c'(2) ws(3) p(4) c'(3) ws(9) p(7) c'(4) ws(6)]
          show ?thesis using ih c'(1) p(8,9) c tf Some s 2 by (subst SelectExpr_create.simps) simp
        next
          case 3
          with c tf Some s p show ?thesis by (subst SelectExpr_create.simps) auto
        qed
      next
        case ts: None
        show ?thesis
        proof (cases "dyn_cast_Select f")
          case (Some s)
          obtain sc st sf where s: "s = (sc, st, sf)" by (cases s)
          have ws: "wt sc" "wt st" "wt sf" "getWidth sc = Bool" "getWidth t = getWidth st" "getWidth t = getWidth sf" "narrow sc" "narrow st" "narrow sf"
            using p(4,7,9) Some s by auto
          note ct = cond_total [OF p(2) ws(1) p(8) ws(4) p(5) ws(7), folded p(1)]
          consider "t = st" | "t \<noteq> st" "t = sf" | "t \<noteq> st" "t \<noteq> sf" by blast
          then show ?thesis
          proof cases
            case 1
            obtain c' where c': "OrExpr_create R' c sc = Some c'" "wt c'" "narrow c'" "getWidth c' = Bool" using ct(2) by auto
            note ih = "1.IH"(1) [OF _ _ c tf ts Some s [symmetric] refl 1 c'(1) p(1) c'(2) p(3) ws(3) c'(3) p(6) ws(9) c'(4) ws(6)]
            show ?thesis using ih c'(1) p(8) c tf ts Some s 1 by (subst SelectExpr_create.simps) simp
          next
            case 2
            obtain c' where c': "OrExpr_create R' c (NotExpr_create R' sc) = Some c'" "wt c'" "narrow c'" "getWidth c' = Bool" using ct(4) by auto
            note ih = "1.IH"(2) [OF _ _ c tf ts Some s [symmetric] refl 2 c'(1) p(1) c'(2) p(3) ws(2) c'(3) p(6) ws(8) c'(4) ws(5)]
            show ?thesis using ih c'(1) p(8) ws(5) c tf ts Some s 2 by (subst SelectExpr_create.simps) simp
          next
            case 3
            with c tf ts Some s p show ?thesis by (subst SelectExpr_create.simps) auto
          qed
        next
          case fs: None
          show ?thesis
          proof (cases "getWidth t = Bool")
            case B: True
            obtain z where z: "createIsZero R' c = Some z" "narrow z" "wt z" "getWidth z = Bool"
              using isZero_Bool_total [OF p(2,5,8)] p(1) by blast
            note cf = cond_total [OF p(2,4) p(8) _ p(5,7), folded p(1)] cond_total [OF p(2,3) p(8) B p(5,6), folded p(1)]
              cond_total [OF z(3) p(4) z(4) _ z(2) p(7), folded p(1)] cond_total [OF z(3) p(3) z(4) B z(2) p(6), folded p(1)]
            show ?thesis
            proof (cases "dyn_cast_Constant t")
              case (Some CE)
              obtain b where "ConstantExpr_isTrue CE = Some b" using constant_predicates_narrow(4) [of CE] Some p B by auto
              with Some z cf(2,9) B c tf ts fs p show ?thesis by (cases b; subst SelectExpr_create.simps) auto
            next
              case ct: None
              show ?thesis
              proof (cases "dyn_cast_Constant f")
                case (Some CE)
                obtain b where "ConstantExpr_isTrue CE = Some b" using constant_predicates_narrow(4) [of CE] Some p B by auto
                with Some ct z cf(5,14) B c tf ts fs p show ?thesis by (cases b; subst SelectExpr_create.simps) auto
              qed (use ct B c tf ts fs p in \<open>subst SelectExpr_create.simps; auto\<close>)
            qed
          qed (use c tf ts fs p in \<open>subst SelectExpr_create.simps; auto\<close>)
        qed
      qed
    qed
  qed
qed

lemmas select_total = select_total_aux [OF refl]

lemma ReadExpr_scan_refines:
  assumes "array_ok a" "wt_updates u" "wt i" "getWidth i = Int32" "wt_updates un"
    "ReadExpr_scan R a u i un = Some e"
    "\<And>\<sigma>. P \<sigma> \<Longrightarrow> in_bounds \<sigma> i \<and> in_bounds_updates \<sigma> un
        \<and> eval_updates \<sigma> un a (eval \<sigma> i) = eval_updates \<sigma> u a (eval \<sigma> i)"
  shows "refines_on P Int8 (\<lambda>\<sigma>. eval_updates \<sigma> u a (eval \<sigma> i)) e"
  using assms
proof (induction un rule: update_node_induct)
  case (UpdateNode ui uv rest)
  obtain cond where cond: "EqExpr_create R i ui = Some cond"
    using UpdateNode.prems(6) by (auto simp: option_bind_simps)
  have wu: "wt ui" "getWidth ui = Int32" "wt uv" "getWidth uv = Int8" "wt_updates rest"
    using UpdateNode.prems(5) by auto
  have eq: "refines_on P Bool (\<lambda>\<sigma>. of_bool (eval \<sigma> i = eval \<sigma> ui)) cond"
    using eq_or_refines(1) [OF UpdateNode.prems(3) wu(1) cond] UpdateNode.prems(7)
    by (auto simp: refines_on_def eq_cond_def)
  show ?case
  proof (cases "dyn_cast_Constant cond")
    case (Some CE)
    obtain b where b: "ConstantExpr_isTrue CE = Some b"
      using UpdateNode.prems(6) cond Some by (auto simp: option_bind_simps)
    have "apValue CE = of_bool b" using eq Some isTrue_value [OF _ b] by (simp add: refines_on_def)
    with eq Some have b': "P \<sigma> \<Longrightarrow> eval \<sigma> i = eval \<sigma> ui \<longleftrightarrow> b" for \<sigma>
      by (cases b) (auto simp: refines_on_def)
    show ?thesis
    proof (cases b)
      case True
      with UpdateNode.prems(6) cond Some b have e: "e = uv" by simp
      show ?thesis unfolding refines_on_def e
      proof (intro conjI allI impI)
        fix \<sigma> assume "P \<sigma>"
        with UpdateNode.prems(7) [of \<sigma>] b' [of \<sigma>] True show "eval \<sigma> uv = eval_updates \<sigma> u a (eval \<sigma> i)" by auto
      qed (use wu in auto)
    next
      case False
      with UpdateNode.prems(6) cond Some b have e: "ReadExpr_scan R a u i rest = Some e" by simp
      show ?thesis
      proof (rule UpdateNode.IH [OF UpdateNode.prems(1-4) wu(5) e])
        fix \<sigma> assume "P \<sigma>"
        with UpdateNode.prems(7) [of \<sigma>] b' [of \<sigma>] False show "in_bounds \<sigma> i \<and> in_bounds_updates \<sigma> rest
            \<and> eval_updates \<sigma> rest a (eval \<sigma> i) = eval_updates \<sigma> u a (eval \<sigma> i)" by auto
      qed
    qed
  next
    case None
    with UpdateNode.prems cond show ?thesis by (auto simp: refines_on_def)
  qed
qed (auto simp: refines_on_def)

lemma ReadExpr_scan_total:
  assumes "array_ok a" "wt_updates u" "narrow_updates u" "wt i" "narrow i" "getWidth i = Int32"
    "wt_updates un" "narrow_updates un"
  shows "\<exists>e. ReadExpr_scan R a u i un = Some e \<and> narrow e"
  using assms
proof (induction un rule: update_node_induct)
  case (UpdateNode ui uv rest)
  obtain cond where cond: "EqExpr_create R i ui = Some cond" "narrow cond"
    using eq_or_total(1) [of i ui] UpdateNode.prems by auto
  have "wt cond" "getWidth cond = Bool"
    using eq_or_refines(1) [OF _ _ cond(1)] UpdateNode.prems by (auto simp: refines_on_def)
  with cond UpdateNode constant_predicates_narrow(4) show ?case
    by (cases "dyn_cast_Constant cond") fastforce+
qed auto

lemma read_refines_aux:
  "R' = R \<Longrightarrow> array_ok a \<Longrightarrow> wt_updates u \<Longrightarrow> wt i \<Longrightarrow> getWidth i = Int32 \<Longrightarrow> ReadExpr_create R' a u i = Some e \<Longrightarrow>
     refines_on (\<lambda>\<sigma>. in_bounds \<sigma> i \<and> in_bounds_updates \<sigma> u) Int8 (\<lambda>\<sigma>. eval_updates \<sigma> u a (eval \<sigma> i)) e"
proof (induction R' a u i arbitrary: e rule: ReadExpr_create.induct)
  case (1 R' a u i)
  note p = "1.prems" and S = "1.prems"(6) [unfolded ReadExpr_create.simps [of R' a u i]]
  show ?case
  proof (cases "(\<exists>s. dyn_cast_Select i = Some s) \<and> hasConstantCases i")
    case True
    then obtain c t f where s: "dyn_cast_Select i = Some (c, t, f)" and h: "hasConstantCases i" by auto
    then have i: "i = SelectExpr c t f" by simp
    have w: "wt c" "wt t" "wt f" "getWidth t = Int32" "getWidth f = Int32" using p(4,5) i by auto
    obtain x y where x: "ReadExpr_create R' a u t = Some x" and y: "ReadExpr_create R' a u f = Some y"
      and e: "SelectExpr_create R' c x y = Some e"
      using S s h by (auto simp: option_bind_simps)
    note ix = "1.IH"(1) [OF s refl refl h p(1-3) w(2,4) x] and iy = "1.IH"(2) [OF s refl refl h x p(1-3) w(3,5) y]
    have "refines (getWidth x) (\<lambda>\<sigma>. if eval \<sigma> c \<noteq> 0 then eval \<sigma> x else eval \<sigma> y) e"
      using select_refines [OF w(1) _ _ e [unfolded p(1)]] ix iy by (simp add: refines_on_def)
    with ix iy i show ?thesis by (auto simp: refines_on_def refines_def)
  next
    case False
    then have "ReadExpr_scan R a u i u = Some e" using S p(1) by (auto split: option.splits)
    from ReadExpr_scan_refines [OF p(2-5) p(3) this] show ?thesis by auto
  qed
qed

lemmas read_refines = read_refines_aux [OF refl]

lemma read_total_aux:
  "R' = R \<Longrightarrow> array_ok a \<Longrightarrow> wt_updates u \<Longrightarrow> narrow_updates u \<Longrightarrow> wt i \<Longrightarrow> narrow i \<Longrightarrow> getWidth i = Int32 \<Longrightarrow>
     \<exists>e. ReadExpr_create R' a u i = Some e \<and> narrow e"
proof (induction R' a u i rule: ReadExpr_create.induct)
  case (1 R' a u i)
  note p = "1.prems"
  show ?case
  proof (cases "(\<exists>s. dyn_cast_Select i = Some s) \<and> hasConstantCases i")
    case True
    then obtain c t f where s: "dyn_cast_Select i = Some (c, t, f)" and h: "hasConstantCases i" by auto
    have w: "wt c" "wt t" "wt f" "getWidth t = Int32" "getWidth f = Int32" "narrow c" "narrow t" "narrow f" "getWidth c = Bool"
      using p(5-7) s by auto
    obtain x where x: "ReadExpr_create R' a u t = Some x" "narrow x"
      using "1.IH"(1) [OF s refl refl h p(1-4) w(2,7,4)] by auto
    obtain y where y: "ReadExpr_create R' a u f = Some y" "narrow y"
      using "1.IH"(2) [OF s refl refl h x(1) p(1-4) w(3,8,5)] by auto
    have "wt x" "wt y" "getWidth x = getWidth y"
      using read_refines [OF p(2,3) w(2,4) x(1) [unfolded p(1)]] read_refines [OF p(2,3) w(3,5) y(1) [unfolded p(1)]]
      by (auto simp: refines_on_def)
    with select_total [of c x y] x y w p(1) s h show ?thesis by (subst ReadExpr_create.simps) auto
  next
    case False
    with ReadExpr_scan_total [OF p(2-7) p(3,4)] p(1) show ?thesis
      by (subst ReadExpr_create.simps) (auto split: option.splits)
  qed
qed

lemmas read_total = read_total_aux [OF refl]

text \<open>Concatenation of operands of at most 64 bits in all, with its value.\<close>

lemma concat_correct:
  assumes "wt l" "wt r" "narrow l" "narrow r" "getWidth l + getWidth r \<le> 64"
  shows "\<exists>e. ConcatExpr_create R l r = Some e \<and> wt e \<and> narrow e \<and> getWidth e = getWidth l + getWidth r
    \<and> (\<forall>\<sigma>. eval \<sigma> e = push_bit (getWidth r) (eval \<sigma> l) OR eval \<sigma> r)"
  using bits_create_total(2) [OF assms] bits_create_refines(2) [OF assms(1,2)] by (fastforce simp: refines_def)

lemma temp_byte_eq:
  assumes "i < 2 ^ 32"
  shows "temp_byte R a i = Some (ReadExpr a NoUpdate (ConstantExpr (APInt Int32 (int i))))"
  using assms
  by (simp add: temp_byte_def ReadExpr_create.simps alloc_simp take_bit_int_eq_self unsigned_of_nat take_bit_nat_eq_self)

lemma temp_byte_read:
  assumes "array_ok a" "i < 2 ^ 32"
  shows "wt (ReadExpr a NoUpdate (ConstantExpr (APInt Int32 (int i))))"
    "narrow (ReadExpr a NoUpdate (ConstantExpr (APInt Int32 (int i))))"
  using assms by (auto simp: ap_wf_def bv_def)

text \<open>Prepending the next byte to the concatenation of the bytes below it.\<close>

lemma concat_byte:
  assumes "array_ok a" "n < 8" "wt e" "narrow e" "getWidth e = 8 * n" "\<And>\<sigma>. eval \<sigma> e = array_value \<sigma> a n"
  shows "\<exists>e'. ConcatExpr_create R (ReadExpr a NoUpdate (ConstantExpr (APInt Int32 (int n)))) e = Some e'
    \<and> wt e' \<and> narrow e' \<and> getWidth e' = 8 * Suc n \<and> (\<forall>\<sigma>. eval \<sigma> e' = array_value \<sigma> a (Suc n))"
  using concat_correct [OF temp_byte_read(1) [OF assms(1), of n] assms(3) temp_byte_read(2) [OF assms(1), of n] assms(4)]
    assms(2,5,6) by auto

lemma array_value_1: "array_value \<sigma> a (Suc 0) = initial_value \<sigma> a 0"
  by simp

lemma createTempRead_word:
  assumes "array_ok a" "n \<in> {2, 4, 8}"
  shows "\<exists>e. createTempRead R a (8 * n) = Some e \<and> wt e \<and> narrow e \<and> getWidth e = 8 * n
    \<and> (\<forall>\<sigma>. eval \<sigma> e = array_value \<sigma> a n)"
proof -
  let ?b = "\<lambda>i. ReadExpr a NoUpdate (ConstantExpr (APInt Int32 (int i)))"
  define chain where "chain n e \<longleftrightarrow> wt e \<and> narrow e \<and> getWidth e = 8 * n \<and> (\<forall>\<sigma>. eval \<sigma> e = array_value \<sigma> a n)" for n e
  have step: "\<exists>e'. ConcatExpr_create R (?b n) e = Some e' \<and> chain (Suc n) e'" if "chain n e" "n < 8" for n e
    using concat_byte [OF assms(1) that(2), of e] that(1) unfolding chain_def by blast
  have b0: "chain 1 (?b 0)" using temp_byte_read [OF assms(1), of 0] by (simp add: chain_def)
  obtain e2 where e2: "ConcatExpr_create R (?b 1) (?b 0) = Some e2" "chain 2 e2" using step [OF b0] by (auto simp: numeral_2_eq_2)
  obtain e3 where e3: "ConcatExpr_create R (?b 2) e2 = Some e3" "chain 3 e3" using step [OF e2(2)] by (auto simp: eval_nat_numeral)
  obtain e4 where e4: "ConcatExpr_create R (?b 3) e3 = Some e4" "chain 4 e4" using step [OF e3(2)] by (auto simp: eval_nat_numeral)
  obtain e5 where e5: "ConcatExpr_create R (?b 4) e4 = Some e5" "chain 5 e5" using step [OF e4(2)] by (auto simp: eval_nat_numeral)
  obtain e6 where e6: "ConcatExpr_create R (?b 5) e5 = Some e6" "chain 6 e6" using step [OF e5(2)] by (auto simp: eval_nat_numeral)
  obtain e7 where e7: "ConcatExpr_create R (?b 6) e6 = Some e7" "chain 7 e7" using step [OF e6(2)] by (auto simp: eval_nat_numeral)
  obtain e8 where e8: "ConcatExpr_create R (?b 7) e7 = Some e8" "chain 8 e8" using step [OF e7(2)] by (auto simp: eval_nat_numeral)
  note creates = e2(1) e3(1) e4(1) e5(1) e6(1) e7(1) e8(1)
  consider "n = 2" | "n = 4" | "n = 8" using assms(2) by blast
  then have "\<exists>e. createTempRead R a (8 * n) = Some e \<and> chain n e"
    by cases (use e2(2) e4(2) e8(2) creates in
      \<open>simp_all add: createTempRead_def temp_byte_eq ConcatExpr_create4_def ConcatExpr_create8_def\<close>)
  then show ?thesis unfolding chain_def .
qed

end

section \<open>Properties\<close>

text \<open>
  C19. \<^verbatim>\<open>SelectExpr::create\<close> is correct: on a boolean condition and well-typed cases of one width of at
  most 64 bits no assertion fails, and whatever rewrites apply, the result is well typed and under
  every assignment has the value of the case that the condition selects.
\<close>

theorem SelectExpr_create_correct:
  assumes "klee_rt_laws R" "wt c" "wt t" "wt f" "narrow c" "narrow t" "narrow f" "getWidth c = Bool" "getWidth t = getWidth f"
  shows "\<exists>e. SelectExpr_create R c t f = Some e \<and> wt e \<and> narrow e \<and> getWidth e = getWidth t
    \<and> (\<forall>\<sigma>. eval \<sigma> e = (if eval \<sigma> c \<noteq> 0 then eval \<sigma> t else eval \<sigma> f))"
  using klee_rt_laws.select_total [OF assms] klee_rt_laws.select_refines [OF assms(1-4)]
  by (fastforce simp: refines_def)

theorem SelectExpr_create_correct_witness:
  "\<exists>e. SelectExpr_create klee_rt_ref (NotOptimizedExpr (ConstantExpr (APInt 1 1))) (ConstantExpr (APInt 8 3)) (ConstantExpr (APInt 8 4)) = Some e
    \<and> wt e \<and> narrow e \<and> getWidth e = 8 \<and> (\<forall>\<sigma>. eval \<sigma> e = 3)"
  using SelectExpr_create_correct [OF klee_rt_ref_laws, of "NotOptimizedExpr (ConstantExpr (APInt 1 1))"
      "ConstantExpr (APInt 8 3)" "ConstantExpr (APInt 8 4)"]
  by (simp add: ap_wf_def bv_def)

text \<open>
  C18. \<^verbatim>\<open>ReadExpr::create\<close> is correct: lifting a selection out of the index and skipping updates that are
  known to be elsewhere never changes the byte that the read yields, under every assignment where
  the reads from constant arrays inside the index and the updates are in range.
\<close>

theorem ReadExpr_create_correct:
  assumes "klee_rt_laws R" "array_ok a" "wt_updates u" "narrow_updates u" "wt i" "narrow i" "getWidth i = Int32"
  shows "\<exists>e. ReadExpr_create R a u i = Some e \<and> wt e \<and> narrow e \<and> getWidth e = Int8
    \<and> (\<forall>\<sigma>. in_bounds \<sigma> i \<and> in_bounds_updates \<sigma> u \<longrightarrow> eval \<sigma> e = eval \<sigma> (ReadExpr a u i))"
  using klee_rt_laws.read_total [OF assms] klee_rt_laws.read_refines [OF assms(1-3,5,7)]
  by (fastforce simp: refines_on_def)

theorem ReadExpr_create_correct_witness:
  "\<exists>e. ReadExpr_create klee_rt_ref \<lparr>arr_addr = 1, arr_name = ''a'', arr_size = 4, constantValues = []\<rparr>
        (UpdateNode (ConstantExpr (APInt 32 1)) (ConstantExpr (APInt 8 9)) NoUpdate) (ConstantExpr (APInt 32 1)) = Some e
    \<and> wt e \<and> narrow e \<and> getWidth e = 8 \<and> (\<forall>\<sigma>. eval \<sigma> e = 9)"
  using ReadExpr_create_correct [OF klee_rt_ref_laws, of "\<lparr>arr_addr = 1, arr_name = ''a'', arr_size = 4, constantValues = []\<rparr>"
      "UpdateNode (ConstantExpr (APInt 32 1)) (ConstantExpr (APInt 8 9)) NoUpdate" "ConstantExpr (APInt 32 1)"]
  by (simp add: ap_wf_def bv_def array_ok_def)

text \<open>
  C20. \<^verbatim>\<open>Expr::createTempRead\<close> reads an array as a little-endian number: for each of the five widths it
  returns an expression of that width whose value is the low bits of the number that the first
  bytes of the array make up.
\<close>

theorem createTempRead_correct:
  assumes "klee_rt_laws R" "array_ok a" "w \<in> {Bool, Int8, Int16, Int32, Int64}"
  shows "\<exists>e. createTempRead R a w = Some e \<and> wt e \<and> getWidth e = w
    \<and> (\<forall>\<sigma>. eval \<sigma> e = take_bit w (array_value \<sigma> a ((w + 7) div 8)))"
proof -
  note byte = klee_rt_laws.temp_byte_eq [OF assms(1), of 0 a] and temp_byte = klee_rt_laws.temp_byte_read [OF assms(1,2), of 0]
  note word = klee_rt_laws.createTempRead_word [OF assms(1,2)]
  have v: "take_bit w (eval \<sigma> e) = eval \<sigma> e" if "wt e" "getWidth e = w" for e \<sigma> using that by auto
  consider "w = Bool" | "w = Int8" | "w = 8 * 2" | "w = 8 * 4" | "w = 8 * 8" using assms(3) by auto
  then show ?thesis
  proof cases
    case 1
    with klee_rt_laws.bits_create_total(3) [OF assms(1) temp_byte, of Bool]
      klee_rt_laws.bits_create_refines(3) [OF assms(1) temp_byte(1), of Bool] byte show ?thesis
      by (fastforce simp: createTempRead_def refines_def)
  next
    case 2
    with byte temp_byte v show ?thesis
      by (auto simp: createTempRead_def take_bit_bv initial_value_bv assms(2))
  next
    case 3
    with word [of 2] v show ?thesis by (fastforce simp: numeral_2_eq_2)
  next
    case 4
    with word [of 4] v show ?thesis by fastforce
  next
    case 5
    with word [of 8] v show ?thesis by fastforce
  qed
qed

theorem createTempRead_correct_witness:
  "\<exists>e. createTempRead klee_rt_ref \<lparr>arr_addr = 1, arr_name = ''a'', arr_size = 4, constantValues = []\<rparr> 8 = Some e
    \<and> wt e \<and> getWidth e = 8 \<and> (\<forall>\<sigma>. eval \<sigma> e = take_bit 8 (\<sigma> \<lparr>arr_addr = 1, arr_name = ''a'', arr_size = 4, constantValues = []\<rparr> 0))"
  using createTempRead_correct [OF klee_rt_ref_laws, of "\<lparr>arr_addr = 1, arr_name = ''a'', arr_size = 4, constantValues = []\<rparr>" 8]
  by (simp add: array_ok_def initial_value_def isConstantArray_def isSymbolicArray_def)

lemma rebuild_congruence:
  assumes "klee_rt_laws R" "wt e" "narrow e" "\<not> is_constant e" "kids_like e ks" "rebuild_ok e ks"
  shows "\<exists>e'. rebuild R e ks = Some e' \<and> wt e' \<and> narrow e' \<and> getWidth e' = getWidth e
    \<and> (\<forall>\<sigma>. rebuild_cond e ks \<sigma> \<and> map (eval \<sigma>) ks = map (eval \<sigma>) (kids e) \<longrightarrow> eval \<sigma> e' = eval \<sigma> e)"
proof (cases e)
  case (ConstantExpr c)
  with assms(4) show ?thesis by simp
next
  case (NotOptimizedExpr x)
  with assms(5) show ?thesis by (auto simp: kids_like_def list_all2_Cons1 NotOptimizedExpr_create_def)
next
  case (ReadExpr a u i)
  with assms(5) obtain i' where ks: "ks = [i']" and i': "wt i'" "narrow i'" "getWidth i' = getWidth i"
    by (auto simp: kids_like_def list_all2_Cons1)
  with assms(2,3) ReadExpr klee_rt_laws.read_total [OF assms(1), of a u i'] klee_rt_laws.read_refines [OF assms(1), of a u i']
  show ?thesis by (fastforce simp: rebuild_cond_def refines_on_def)
next
  case (SelectExpr c t f)
  with assms(5) obtain c' t' f' where ks: "ks = [c', t', f']" and k: "wt c'" "wt t'" "wt f'" "narrow c'" "narrow t'" "narrow f'"
    and w: "getWidth c' = getWidth c" "getWidth t' = getWidth t" "getWidth f' = getWidth f"
    by (auto simp: kids_like_def list_all2_Cons1)
  with assms(2) SelectExpr klee_rt_laws.select_total [OF assms(1) k] klee_rt_laws.select_refines [OF assms(1) k(1-3)]
  show ?thesis by (fastforce simp: refines_def)
next
  case (ConcatExpr l r)
  with assms(5) obtain l' r' where ks: "ks = [l', r']" and k: "wt l'" "wt r'" "narrow l'" "narrow r'"
    and w: "getWidth l' = getWidth l" "getWidth r' = getWidth r"
    by (auto simp: kids_like_def list_all2_Cons1)
  with assms(3) ConcatExpr klee_rt_laws.concat_correct [OF assms(1) k] show ?thesis by auto
next
  case (ExtractExpr x off w)
  with assms(5) obtain x' where ks: "ks = [x']" and k: "wt x'" "narrow x'" "getWidth x' = getWidth x"
    by (auto simp: kids_like_def list_all2_Cons1)
  with assms(2) ExtractExpr klee_rt_laws.bits_create_total(1) [OF assms(1) k(1,2), of w off]
    klee_rt_laws.bits_create_refines(1) [OF assms(1) k(1)]
  show ?thesis by (fastforce simp: refines_def)
next
  case (NotExpr x)
  with assms(5) obtain x' where ks: "ks = [x']" and k: "wt x'" "narrow x'" "getWidth x' = getWidth x"
    by (auto simp: kids_like_def list_all2_Cons1)
  with NotExpr klee_rt_laws.NotExpr_create_refines [OF assms(1) k(1)] klee_rt_laws.NotExpr_create_narrow [OF assms(1) k(1,2)]
  show ?thesis by (auto simp: refines_def)
next
  case (CastExpr k x w)
  with assms(5) obtain x' where ks: "ks = [x']" and x': "wt x'" "narrow x'" "getWidth x' = getWidth x"
    by (auto simp: kids_like_def list_all2_Cons1)
  have w: "0 < w" "w \<le> 64" using assms(2,3) CastExpr wt_width_pos [of x] by (auto simp del: wt_width_pos)
  note c = klee_rt_laws.bits_create_total(3,4) [OF assms(1) x'(1,2) w]
    klee_rt_laws.bits_create_refines(3,4) [OF assms(1) x'(1) w(1)]
  show ?thesis using CastExpr ks x' c by (cases k) (fastforce simp: refines_def)+
next
  case (BinaryExpr k l r)
  with assms(5) obtain l' r' where ks: "ks = [l', r']" and k: "wt l'" "wt r'" "narrow l'" "narrow r'"
    and w: "getWidth l' = getWidth l" "getWidth r' = getWidth r"
    by (auto simp: kids_like_def list_all2_Cons1)
  have same: "getWidth l' = getWidth r'" "divisor_ok k r'" using assms(2,6) BinaryExpr w ks by (auto simp: rebuild_ok_def)
  from klee_rt_laws.Binary_create_total [OF assms(1) k same] klee_rt_laws.Binary_create_refines [OF assms(1) k(1,2) same(2)]
  show ?thesis using BinaryExpr ks w by (fastforce simp: rebuild_cond_def refines_on_def)
qed



text \<open>
  \<^verbatim>\<open>Expr::createFromKind\<close> has no case for a negation, although \<^verbatim>\<open>Not\<close> is a kind of expression: with any
  arguments it stops at the assertion for an invalid kind.
\<close>

lemma createFromKind_Not_aborts: "createFromKind R NotKind args = None"
  by simp

end
