(* ===== verification/SolverCore.thy ===== *)
theory SolverCore
  imports ExprMake
begin

text \<open>
  The interface of the constraint solvers (\<^verbatim>\<open>src/klee/include/klee/Solver.h\<close>, \<^verbatim>\<open>SolverImpl.h\<close>) and the
  operations built on it (\<^verbatim>\<open>src/klee/lib/Solver/Solver.cpp\<close>): validity, the \<^verbatim>\<open>must\<close> and \<^verbatim>\<open>may\<close> questions,
  values, and the range of an expression by binary search.

  A solver implementation keeps a state (a cache, a handle to a decision procedure), so each of its
  functions maps a state to an answer and a new state. A function that returns \<^verbatim>\<open>false\<close>, as a decision
  procedure does on a timeout, answers \<^verbatim>\<open>Fail\<close>; a failing assertion is \<^verbatim>\<open>Abort\<close>. The decision procedure
  at the bottom (STP or Z3) is a parameter; what the chain relies on is the locale \<^verbatim>\<open>solver_contract\<close>.
\<close>

section \<open>Answers\<close>

datatype 'a answer = Abort | Fail | Answer 'a

definition and_then :: "('s \<Rightarrow> 'a answer \<times> 's) \<Rightarrow> ('a \<Rightarrow> 's \<Rightarrow> 'b answer \<times> 's) \<Rightarrow> 's \<Rightarrow> 'b answer \<times> 's" where
  "and_then f g s =
     (case f s of
        (Abort, s') \<Rightarrow> (Abort, s')
      | (Fail, s') \<Rightarrow> (Fail, s')
      | (Answer a, s') \<Rightarrow> g a s')"

definition answer :: "'a \<Rightarrow> 's \<Rightarrow> 'a answer \<times> 's" where
  "answer a s = (Answer a, s)"

definition asserted :: "'a option \<Rightarrow> 's \<Rightarrow> 'a answer \<times> 's" where
  "asserted x s = (case x of None \<Rightarrow> Abort | Some a \<Rightarrow> Answer a, s)"

text \<open>A call whose success is asserted.\<close>

definition must_succeed :: "('s \<Rightarrow> 'a answer \<times> 's) \<Rightarrow> 's \<Rightarrow> 'a answer \<times> 's" where
  "must_succeed f s = (case f s of (Fail, s') \<Rightarrow> (Abort, s') | x \<Rightarrow> x)"

lemma answer_simps [simp]:
  "and_then (answer a) g s = g a s"
  "and_then (asserted None) g s = (Abort, s)"
  "and_then (asserted (Some a)) g s = g a s"
  by (simp_all add: and_then_def answer_def asserted_def)

section \<open>Queries and implementations\<close>

text \<open>
  A query copies a \<^verbatim>\<open>ConstraintManager\<close>: the root of its tree of conditions and the conditions on the path to
  its head, the latest first. Two managers are equal when their roots and heads are the same nodes.
  A node is shared by all paths with the same conditions (\<^verbatim>\<open>ConditionNode::getOrCreate\<close>), so under one
  root the path determines the head.
\<close>

record query =
  cm_root :: nat
  constraints :: "expr list"
  query_expr :: expr

definition withExpr :: "query \<Rightarrow> expr \<Rightarrow> query" where
  "withExpr q e = q\<lparr>query_expr := e\<rparr>"

definition withFalse :: "klee_rt \<Rightarrow> query \<Rightarrow> query" where
  "withFalse R q = withExpr q (ConstantExpr (ConstantExpr_alloc R 0 Bool))"

definition negateExpr :: "klee_rt \<Rightarrow> query \<Rightarrow> query option" where
  "negateExpr R q = do { e \<leftarrow> createIsZero R (query_expr q); Some (withExpr q e) }"

datatype validity = VTrue | VFalse | VUnknown

text \<open>\<^verbatim>\<open>computeInitialValues\<close> answers with the values of the objects and the flag \<^verbatim>\<open>hasSolution\<close>.\<close>

record 's solver_impl =
  computeTruth :: "query \<Rightarrow> 's \<Rightarrow> bool answer \<times> 's"
  computeValidity :: "query \<Rightarrow> 's \<Rightarrow> validity answer \<times> 's"
  computeValue :: "query \<Rightarrow> 's \<Rightarrow> expr answer \<times> 's"
  computeInitialValues :: "query \<Rightarrow> klee_array list \<Rightarrow> 's \<Rightarrow> (8 word list list \<times> bool) answer \<times> 's"

text \<open>The implementation of \<^verbatim>\<open>computeValidity\<close> that \<^verbatim>\<open>SolverImpl\<close> provides.\<close>

definition SolverImpl_computeValidity ::
  "klee_rt \<Rightarrow> (query \<Rightarrow> 's \<Rightarrow> bool answer \<times> 's) \<Rightarrow> query \<Rightarrow> 's \<Rightarrow> validity answer \<times> 's" where
  "SolverImpl_computeValidity R truth q =
     and_then (truth q) (\<lambda>isTrue.
       if isTrue then answer VTrue
       else and_then (asserted (negateExpr R q)) (\<lambda>nq.
              and_then (truth nq) (\<lambda>isFalse. answer (if isFalse then VFalse else VUnknown))))"

definition DummySolver :: "'s solver_impl" where
  "DummySolver =
     \<lparr>computeTruth = (\<lambda>q s. (Fail, s)), computeValidity = (\<lambda>q s. (Fail, s)),
      computeValue = (\<lambda>q s. (Fail, s)), computeInitialValues = (\<lambda>q os s. (Fail, s))\<rparr>"

section \<open>The operations of a solver\<close>

definition Solver_evaluate :: "'s solver_impl \<Rightarrow> query \<Rightarrow> 's \<Rightarrow> validity answer \<times> 's" where
  "Solver_evaluate S q =
     and_then (asserted (require (getWidth (query_expr q) = Bool))) (\<lambda>_.
       case dyn_cast_Constant (query_expr q) of
         Some CE \<Rightarrow> and_then (asserted (ConstantExpr_isTrue CE)) (\<lambda>b. answer (if b then VTrue else VFalse))
       | None \<Rightarrow> computeValidity S q)"

definition Solver_mustBeTrue :: "'s solver_impl \<Rightarrow> query \<Rightarrow> 's \<Rightarrow> bool answer \<times> 's" where
  "Solver_mustBeTrue S q =
     and_then (asserted (require (getWidth (query_expr q) = Bool))) (\<lambda>_.
       case dyn_cast_Constant (query_expr q) of
         Some CE \<Rightarrow> asserted (ConstantExpr_isTrue CE)
       | None \<Rightarrow> computeTruth S q)"

definition Solver_mustBeFalse :: "klee_rt \<Rightarrow> 's solver_impl \<Rightarrow> query \<Rightarrow> 's \<Rightarrow> bool answer \<times> 's" where
  "Solver_mustBeFalse R S q = and_then (asserted (negateExpr R q)) (Solver_mustBeTrue S)"

definition Solver_mayBeTrue :: "klee_rt \<Rightarrow> 's solver_impl \<Rightarrow> query \<Rightarrow> 's \<Rightarrow> bool answer \<times> 's" where
  "Solver_mayBeTrue R S q = and_then (Solver_mustBeFalse R S q) (\<lambda>res. answer (\<not> res))"

definition Solver_mayBeFalse :: "'s solver_impl \<Rightarrow> query \<Rightarrow> 's \<Rightarrow> bool answer \<times> 's" where
  "Solver_mayBeFalse S q = and_then (Solver_mustBeTrue S q) (\<lambda>res. answer (\<not> res))"

definition Solver_getValue :: "'s solver_impl \<Rightarrow> query \<Rightarrow> 's \<Rightarrow> apint answer \<times> 's" where
  "Solver_getValue S q =
     (case dyn_cast_Constant (query_expr q) of
        Some CE \<Rightarrow> answer CE
      | None \<Rightarrow> and_then (computeValue S q) (\<lambda>tmp. asserted (dyn_cast_Constant tmp)))"

text \<open>
  When the implementation fails it leaves \<^verbatim>\<open>hasSolution\<close> unset; the function returns \<^verbatim>\<open>false\<close> either way.
\<close>

definition Solver_getInitialValues ::
  "'s solver_impl \<Rightarrow> query \<Rightarrow> klee_array list \<Rightarrow> 's \<Rightarrow> 8 word list list answer \<times> 's" where
  "Solver_getInitialValues S q objects =
     and_then (computeInitialValues S q objects)
       (\<lambda>(values, hasSolution). if \<not> hasSolution then (\<lambda>s. (Fail, s)) else answer values)"

text \<open>The middle of an interval of words, which the binary searches below ask about.\<close>

lemma mid_bounds:
  fixes lo hi :: "64 word"
  assumes "lo < hi"
  shows "unat (lo + (hi - lo) div 2) = unat lo + (unat hi - unat lo) div 2"
    and "lo + (hi - lo) div 2 < hi" and "lo \<le> lo + (hi - lo) div 2"
    and "unat (lo + (hi - lo) div 2 + 1) = unat lo + (unat hi - unat lo) div 2 + 1"
proof -
  have lt: "unat lo < unat hi" using assms by (simp add: word_less_nat_alt)
  have d: "unat ((hi - lo) div 2) = (unat hi - unat lo) div 2"
    using assms by (simp add: unat_div unat_sub order_less_imp_le)
  have "unat lo + (unat hi - unat lo) div 2 < unat hi" using lt by linarith
  moreover have "unat hi < 2 ^ 64" using unsigned_less [of hi, where ?'a = nat] by simp
  ultimately have b: "unat lo + (unat hi - unat lo) div 2 + 1 < 2 ^ 64 + 1" "unat lo + (unat hi - unat lo) div 2 + 1 \<le> unat hi"
    by linarith+
  show m: "unat (lo + (hi - lo) div 2) = unat lo + (unat hi - unat lo) div 2"
    using d b \<open>unat hi < 2 ^ 64\<close> by (simp add: unat_word_ariths)
  show "lo + (hi - lo) div 2 < hi" using m b by (simp add: word_less_nat_alt)
  show "lo \<le> lo + (hi - lo) div 2" using m by (simp add: word_le_nat_alt)
  show "unat (lo + (hi - lo) div 2 + 1) = unat lo + (unat hi - unat lo) div 2 + 1"
    using m b \<open>unat hi < 2 ^ 64\<close> unat_word_ariths(1) [of "lo + (hi - lo) div 2" 1] by simp
qed

lemma mid_decreases:
  fixes lo hi :: "64 word"
  assumes "lo < hi"
  shows "unat (lo + (hi - lo) div 2) - unat lo < unat hi - unat lo"
    and "unat hi - unat (lo + (hi - lo) div 2 + 1) < unat hi - unat lo"
proof -
  have "unat lo < unat hi" using assms by (simp add: word_less_nat_alt)
  then show "unat (lo + (hi - lo) div 2) - unat lo < unat hi - unat lo"
    "unat hi - unat (lo + (hi - lo) div 2 + 1) < unat hi - unat lo"
    unfolding mid_bounds(1,4) [OF assms] by linarith+
qed

text \<open>
  The three binary searches of \<^verbatim>\<open>getRange\<close> differ in the question they ask about the middle; each moves
  the upper end down to the middle on a yes, and the lower end above it on a no.
\<close>

function search_loop :: "(64 word \<Rightarrow> 's \<Rightarrow> bool answer \<times> 's) \<Rightarrow> 64 word \<Rightarrow> 64 word \<Rightarrow> 's \<Rightarrow> 64 word answer \<times> 's" where
  "search_loop test lo hi s =
     (if lo < hi then
        (let mid = lo + (hi - lo) div 2 in
         case must_succeed (test mid) s of
           (Answer res, s') \<Rightarrow> if res then search_loop test lo mid s' else search_loop test (mid + 1) hi s'
         | (_, s') \<Rightarrow> (Abort, s'))
      else (Answer lo, s))"
  by pat_completeness auto

termination
  by (relation "measure (\<lambda>(test, lo, hi, s). unat hi - unat lo)") (simp_all only: in_measure prod.case mid_decreases, simp_all)

declare search_loop.simps [simp del]

text \<open>The questions asked about the middle.\<close>

definition useful_bits_test :: "klee_rt \<Rightarrow> 's solver_impl \<Rightarrow> query \<Rightarrow> 64 word \<Rightarrow> 's \<Rightarrow> bool answer \<times> 's" where
  "useful_bits_test R S q mid =
     (let e = query_expr q; width = getWidth e in
      and_then (asserted (do {
          m \<leftarrow> ConstantExpr_create R mid width;
          z \<leftarrow> ConstantExpr_create R 0 width;
          sh \<leftarrow> LShrExpr_create R e (ConstantExpr m);
          EqExpr_create R sh (ConstantExpr z) }))
        (\<lambda>c. Solver_mustBeTrue S (withExpr q c)))"

definition at_most :: "klee_rt \<Rightarrow> query \<Rightarrow> 64 word \<Rightarrow> expr option" where
  "at_most R q mid =
     do { m \<leftarrow> ConstantExpr_create R mid (getWidth (query_expr q));
          UleExpr_create R (query_expr q) (ConstantExpr m) }"

definition min_test :: "klee_rt \<Rightarrow> 's solver_impl \<Rightarrow> query \<Rightarrow> 64 word \<Rightarrow> 's \<Rightarrow> bool answer \<times> 's" where
  "min_test R S q mid = and_then (asserted (at_most R q mid)) (\<lambda>c. Solver_mayBeTrue R S (withExpr q c))"

definition max_test :: "klee_rt \<Rightarrow> 's solver_impl \<Rightarrow> query \<Rightarrow> 64 word \<Rightarrow> 's \<Rightarrow> bool answer \<times> 's" where
  "max_test R S q mid = and_then (asserted (at_most R q mid)) (\<lambda>c. Solver_mustBeTrue S (withExpr q c))"

definition zero_test :: "klee_rt \<Rightarrow> 's solver_impl \<Rightarrow> query \<Rightarrow> 's \<Rightarrow> bool answer \<times> 's" where
  "zero_test R S q =
     and_then (asserted (do {
         z \<leftarrow> ConstantExpr_create R 0 (getWidth (query_expr q));
         EqExpr_create R (query_expr q) (ConstantExpr z) }))
       (\<lambda>c. Solver_mayBeTrue R S (withExpr q c))"

definition Solver_getRange_wide :: "klee_rt \<Rightarrow> 's solver_impl \<Rightarrow> query \<Rightarrow> 's \<Rightarrow> (64 word \<times> 64 word) answer \<times> 's" where
  "Solver_getRange_wide R S q =
     and_then (search_loop (useful_bits_test R S q) 0 (of_nat (getWidth (query_expr q)))) (\<lambda>bits.
     and_then (must_succeed (zero_test R S q)) (\<lambda>res.
     and_then (asserted (maxValueOfNBits (unat bits))) (\<lambda>top.
     and_then (if res then answer 0 else search_loop (min_test R S q) 0 top) (\<lambda>min.
     and_then (search_loop (max_test R S q) min top) (\<lambda>max. answer (min, max))))))"

definition Solver_getRange :: "klee_rt \<Rightarrow> 's solver_impl \<Rightarrow> query \<Rightarrow> 's \<Rightarrow> (apint \<times> apint) answer \<times> 's" where
  "Solver_getRange R S q =
     (let e = query_expr q; width = getWidth e in
      and_then
        (if width = 1 then
           and_then (must_succeed (Solver_evaluate S q)) (\<lambda>result.
             answer (case result of VTrue \<Rightarrow> (1, 1) | VFalse \<Rightarrow> (0, 0) | VUnknown \<Rightarrow> (0, 1)))
         else case dyn_cast_Constant e of
           Some CE \<Rightarrow> and_then (asserted (ConstantExpr_getZExtValue CE 64)) (\<lambda>v. answer (v, v))
         | None \<Rightarrow> Solver_getRange_wide R S q)
        (\<lambda>(min, max). asserted (do {
           a \<leftarrow> ConstantExpr_create R min width;
           b \<leftarrow> ConstantExpr_create R max width;
           Some (a, b) })))"

section \<open>What a query means\<close>

definition sat :: "assignment \<Rightarrow> expr list \<Rightarrow> bool" where
  "sat \<sigma> cs \<longleftrightarrow> (\<forall>c\<in>set cs. eval \<sigma> c = 1)"

definition must_be :: "query \<Rightarrow> bool" where
  "must_be q \<longleftrightarrow> (\<forall>\<sigma>. sat \<sigma> (constraints q) \<longrightarrow> eval \<sigma> (query_expr q) = 1)"

definition must_be_not :: "query \<Rightarrow> bool" where
  "must_be_not q \<longleftrightarrow> (\<forall>\<sigma>. sat \<sigma> (constraints q) \<longrightarrow> eval \<sigma> (query_expr q) = 0)"

definition validity_of :: "query \<Rightarrow> validity" where
  "validity_of q = (if must_be q then VTrue else if must_be_not q then VFalse else VUnknown)"

text \<open>
  A well-formed query has satisfiable boolean constraints over expressions of at most 64 bits: the
  path constraints of a state that can be reached.
\<close>

definition query_ok :: "query \<Rightarrow> bool" where
  "query_ok q \<longleftrightarrow>
     (\<forall>c\<in>set (constraints q). wt c \<and> narrow c \<and> getWidth c = Bool) \<and> (\<exists>\<sigma>. sat \<sigma> (constraints q))
     \<and> wt (query_expr q) \<and> narrow (query_expr q)"

definition bool_query :: "query \<Rightarrow> bool" where
  "bool_query q \<longleftrightarrow> query_ok q \<and> getWidth (query_expr q) = Bool"

text \<open>The values an expression takes under the constraints.\<close>

definition feasible :: "query \<Rightarrow> int set" where
  "feasible q = {eval \<sigma> (query_expr q) |\<sigma>. sat \<sigma> (constraints q)}"

text \<open>An assignment that gives the objects the listed bytes.\<close>

definition assigns :: "klee_array list \<Rightarrow> 8 word list list \<Rightarrow> assignment \<Rightarrow> bool" where
  "assigns objects values \<sigma> \<longleftrightarrow>
     length values = length objects
     \<and> (\<forall>i < length objects. length (values ! i) = arr_size (objects ! i)
          \<and> (\<forall>j < arr_size (objects ! i). \<sigma> (objects ! i) j = uint (values ! i ! j)))"

section \<open>Negated and constant queries\<close>

context klee_rt_laws
begin

lemma negateExpr_total:
  assumes "bool_query q"
  obtains nq where "negateExpr R q = Some nq" and "bool_query nq" and "constraints nq = constraints q"
    and "must_be nq = must_be_not q" and "must_be_not nq = must_be q"
    and "createIsZero R (query_expr q) = Some (query_expr nq)" and "nq = withExpr q (query_expr nq)"
    and "\<And>\<sigma>. eval \<sigma> (query_expr nq) = of_bool (eval \<sigma> (query_expr q) = 0)"
proof -
  have w: "wt (query_expr q)" "narrow (query_expr q)" "getWidth (query_expr q) = Bool"
    using assms by (auto simp: bool_query_def query_ok_def)
  obtain e where e: "createIsZero R (query_expr q) = Some e" "narrow e" using eq_or_total(2) [OF w(1,2)] by blast
  have r: "refines Bool (\<lambda>\<sigma>. of_bool (eval \<sigma> (query_expr q) = 0)) e" using isZero_Bool_refines [OF w(1,3) e(1)] .
  have v: "eval \<sigma> (query_expr q) = 0 \<or> eval \<sigma> (query_expr q) = 1" for \<sigma>
    by (rule eval_Bool_cases [OF w(1,3), of \<sigma>]) auto
  have m: "of_bool (eval \<sigma> (query_expr q) = 0) = (1 :: int) \<longleftrightarrow> eval \<sigma> (query_expr q) = 0"
    "of_bool (eval \<sigma> (query_expr q) = 0) = (0 :: int) \<longleftrightarrow> eval \<sigma> (query_expr q) = 1" for \<sigma>
    using v [of \<sigma>] by auto
  show ?thesis
    using e r assms m
    by (intro that [of "withExpr q e"])
      (simp_all add: negateExpr_def withExpr_def bool_query_def query_ok_def refines_def must_be_def must_be_not_def)
qed

lemma constant_query:
  assumes "bool_query q" and "query_expr q = ConstantExpr c"
  shows "ConstantExpr_isTrue c = Some (must_be q)" and "must_be_not q \<longleftrightarrow> \<not> must_be q"
proof -
  have c: "ap_wf c" "getBitWidth c = Bool" using assms by (auto simp: bool_query_def query_ok_def)
  then have v: "apValue c = 0 \<or> apValue c = 1" by (simp add: ap_wf_def bv_Suc_0_iff)
  obtain \<sigma> where "sat \<sigma> (constraints q)" using assms by (auto simp: bool_query_def query_ok_def)
  with assms(2) have m: "must_be q \<longleftrightarrow> apValue c = 1" "must_be_not q \<longleftrightarrow> apValue c = 0"
    by (auto simp: must_be_def must_be_not_def)
  from m v show "must_be_not q \<longleftrightarrow> \<not> must_be q" by auto
  from m v c show "ConstantExpr_isTrue c = Some (must_be q)"
    by (auto simp: ConstantExpr_isTrue_def ConstantExpr_getZExtValue_def ap_getZExtValue_def)
qed

end

section \<open>The contract of an implementation\<close>

definition value_ok :: "query \<Rightarrow> expr \<Rightarrow> bool" where
  "value_ok q e \<longleftrightarrow> (\<exists>c. e = ConstantExpr c \<and> ap_wf c \<and> getBitWidth c = getWidth (query_expr q) \<and> apValue c \<in> feasible q)"

definition initial_ok :: "query \<Rightarrow> klee_array list \<Rightarrow> 8 word list list \<times> bool \<Rightarrow> bool" where
  "initial_ok q objects a \<longleftrightarrow> (snd a \<longleftrightarrow> \<not> must_be q) \<and>
     (snd a \<longrightarrow> (\<exists>\<sigma>. sat \<sigma> (constraints q) \<and> eval \<sigma> (query_expr q) = 0 \<and> assigns objects (fst a) \<sigma>))"

text \<open>
  An outcome that keeps an invariant and does not abort, whose answer, if any, is right, and which
  is an answer when the solver is known to answer (\<^verbatim>\<open>live\<close>).
\<close>

definition outcome_ok :: "bool \<Rightarrow> ('s \<Rightarrow> bool) \<Rightarrow> ('a \<Rightarrow> bool) \<Rightarrow> 'a answer \<times> 's \<Rightarrow> bool" where
  "outcome_ok live I P x \<longleftrightarrow>
     I (snd x) \<and> fst x \<noteq> Abort \<and> (live \<longrightarrow> fst x \<noteq> Fail) \<and> (\<forall>a. fst x = Answer a \<longrightarrow> P a)"

text \<open>The rules that carry the proofs: an outcome through sequencing and through the parts of a pair.\<close>

lemma outcome_and_then:
  assumes "outcome_ok live I P (f s)" and "\<And>a s'. P a \<Longrightarrow> I s' \<Longrightarrow> outcome_ok live I Q (g a s')"
  shows "outcome_ok live I Q (and_then f g s)"
  using assms by (cases "f s"; cases "fst (f s)") (auto simp: outcome_ok_def and_then_def)

lemma outcome_answer [simp]: "outcome_ok live I P (answer a s) \<longleftrightarrow> I s \<and> P a"
  by (auto simp: outcome_ok_def answer_def)

lemma outcome_eq:
  "outcome_ok live I P x \<Longrightarrow> x = (r, s') \<Longrightarrow> I s' \<and> r \<noteq> Abort \<and> (live \<longrightarrow> r \<noteq> Fail) \<and> (\<forall>a. r = Answer a \<longrightarrow> P a)"
  by (simp add: outcome_ok_def)

lemma outcomeI:
  "(\<And>r s'. x = (r, s') \<Longrightarrow> I s' \<and> r \<noteq> Abort \<and> (live \<longrightarrow> r \<noteq> Fail) \<and> (\<forall>a. r = Answer a \<longrightarrow> P a)) \<Longrightarrow> outcome_ok live I P x"
  by (cases x) (simp add: outcome_ok_def)

lemma outcome_live: "outcome_ok True I P x \<Longrightarrow> \<exists>a s'. x = (Answer a, s') \<and> I s' \<and> P a"
  by (cases x; cases "fst x") (auto simp: outcome_ok_def)

text \<open>
  What the chain relies on: every function keeps the invariant of the state and runs into no
  assertion; an answer about the truth or the validity of a boolean query is right; a value is one
  the expression takes; initial values, when the query is not valid, refute it. A \<^verbatim>\<open>live\<close> solver answers
  every question about truth and validity.
\<close>

locale solver_contract = klee_rt_laws R for R :: klee_rt +
  fixes S :: "'s solver_impl" and sinv :: "'s \<Rightarrow> bool" and live :: bool
  assumes truth_ok: "sinv s \<Longrightarrow> bool_query q \<Longrightarrow> outcome_ok live sinv (\<lambda>b. b = must_be q) (computeTruth S q s)"
    and validity_ok: "sinv s \<Longrightarrow> bool_query q \<Longrightarrow> outcome_ok live sinv (\<lambda>v. v = validity_of q) (computeValidity S q s)"
    and valuation_ok: "sinv s \<Longrightarrow> query_ok q \<Longrightarrow> outcome_ok False sinv (value_ok q) (computeValue S q s)"
    and refutation_ok: "sinv s \<Longrightarrow> bool_query q \<Longrightarrow> outcome_ok False sinv (initial_ok q objects) (computeInitialValues S q objects s)"
begin

lemmas truth_contract = outcome_eq [OF truth_ok]
lemmas validity_contract = outcome_eq [OF validity_ok]
lemmas value_contract = outcome_eq [OF valuation_ok, unfolded value_ok_def]

text \<open>The laws of the questions a client asks.\<close>

lemma mustBeTrue_contract:
  assumes "sinv s" and "bool_query q" and "Solver_mustBeTrue S q s = (r, s')"
  shows "sinv s' \<and> r \<noteq> Abort \<and> (live \<longrightarrow> r \<noteq> Fail) \<and> (\<forall>b. r = Answer b \<longrightarrow> b = must_be q)"
proof (cases "dyn_cast_Constant (query_expr q)")
  case None
  with assms truth_contract [OF assms(1,2)] show ?thesis
    by (simp add: Solver_mustBeTrue_def bool_query_def)
next
  case (Some c)
  with assms constant_query(1) [OF assms(2), of c] show ?thesis
    by (auto simp: Solver_mustBeTrue_def bool_query_def asserted_def)
qed

lemma mustBeFalse_contract:
  assumes "sinv s" and "bool_query q" and "Solver_mustBeFalse R S q s = (r, s')"
  shows "sinv s' \<and> r \<noteq> Abort \<and> (live \<longrightarrow> r \<noteq> Fail) \<and> (\<forall>b. r = Answer b \<longrightarrow> b = must_be_not q)"
proof -
  obtain nq where nq: "negateExpr R q = Some nq" "bool_query nq" "must_be nq = must_be_not q"
    using negateExpr_total [OF assms(2)] .
  with assms(3) mustBeTrue_contract [OF assms(1) nq(2)] show ?thesis by (simp add: Solver_mustBeFalse_def)
qed

lemma mayBeTrue_contract:
  assumes "sinv s" and "bool_query q" and "Solver_mayBeTrue R S q s = (r, s')"
  shows "sinv s' \<and> r \<noteq> Abort \<and> (live \<longrightarrow> r \<noteq> Fail) \<and> (\<forall>b. r = Answer b \<longrightarrow> b = (\<not> must_be_not q))"
  using assms(3) mustBeFalse_contract [OF assms(1,2)]
  by (cases "Solver_mustBeFalse R S q s")
    (auto simp: Solver_mayBeTrue_def and_then_def answer_def split: answer.splits)

lemma mayBeFalse_contract:
  assumes "sinv s" and "bool_query q" and "Solver_mayBeFalse S q s = (r, s')"
  shows "sinv s' \<and> r \<noteq> Abort \<and> (live \<longrightarrow> r \<noteq> Fail) \<and> (\<forall>b. r = Answer b \<longrightarrow> b = (\<not> must_be q))"
  using assms(3) mustBeTrue_contract [OF assms(1,2)]
  by (cases "Solver_mustBeTrue S q s")
    (auto simp: Solver_mayBeFalse_def and_then_def answer_def split: answer.splits)

lemma evaluate_contract:
  assumes "sinv s" and "bool_query q" and "Solver_evaluate S q s = (r, s')"
  shows "sinv s' \<and> r \<noteq> Abort \<and> (live \<longrightarrow> r \<noteq> Fail) \<and> (\<forall>v. r = Answer v \<longrightarrow> v = validity_of q)"
proof (cases "dyn_cast_Constant (query_expr q)")
  case None
  with assms validity_contract [OF assms(1,2)] show ?thesis
    by (simp add: Solver_evaluate_def bool_query_def)
next
  case (Some c)
  with assms constant_query [OF assms(2), of c] show ?thesis
    by (auto simp: Solver_evaluate_def bool_query_def answer_def validity_of_def)
qed

lemma getValue_contract:
  assumes "sinv s" and "query_ok q" and "Solver_getValue S q s = (r, s')"
  shows "sinv s' \<and> r \<noteq> Abort \<and> (\<forall>c. r = Answer c \<longrightarrow>
    ap_wf c \<and> getBitWidth c = getWidth (query_expr q) \<and> apValue c \<in> feasible q)"
proof (cases "dyn_cast_Constant (query_expr q)")
  case None
  obtain r' s'' where v: "computeValue S q s = (r', s'')" by fastforce
  with value_contract [OF assms(1,2) v] assms(3) None show ?thesis
    by (cases r') (auto simp: Solver_getValue_def and_then_def asserted_def)
next
  case (Some c)
  with assms show ?thesis
    by (auto simp: Solver_getValue_def answer_def query_ok_def feasible_def)
qed

text \<open>The default implementation of validity meets the contract whenever the truth does.\<close>

lemma default_validity_contract:
  assumes "sinv s" and "bool_query q" and "SolverImpl_computeValidity R (computeTruth S) q s = (r, s')"
  shows "sinv s' \<and> r \<noteq> Abort \<and> (live \<longrightarrow> r \<noteq> Fail) \<and> (\<forall>v. r = Answer v \<longrightarrow> v = validity_of q)"
proof -
  obtain nq where nq: "negateExpr R q = Some nq" "bool_query nq" "must_be nq = must_be_not q"
    using negateExpr_total [OF assms(2)] .
  obtain r1 s1 where t1: "computeTruth S q s = (r1, s1)" by fastforce
  note c1 = truth_contract [OF assms(1,2) t1]
  obtain r2 s2 where t2: "computeTruth S nq s1 = (r2, s2)" by fastforce
  have c2: "sinv s2 \<and> r2 \<noteq> Abort \<and> (live \<longrightarrow> r2 \<noteq> Fail) \<and> (\<forall>b. r2 = Answer b \<longrightarrow> b = must_be nq)"
    using truth_contract [OF _ nq(2) t2] c1 by blast
  show ?thesis
    using assms(3) c1 c2 t1 t2 nq
    by (auto simp: SolverImpl_computeValidity_def and_then_def answer_def asserted_def validity_of_def
        split: answer.splits if_splits)
qed

end

lemma dummy_contract: "klee_rt_laws R \<Longrightarrow> solver_contract R (DummySolver :: 's solver_impl) I False"
  by (intro solver_contract.intro solver_contract_axioms.intro) (auto simp: DummySolver_def outcome_ok_def)

interpretation dummy: solver_contract klee_rt_ref "DummySolver :: unit solver_impl" "\<lambda>_. True" False
  by (rule dummy_contract [OF klee_rt_ref_laws])

end
