(* ===== verification/SolverRange.thy ===== *)
theory SolverRange
  imports SolverCore
begin

text \<open>
  \<^verbatim>\<open>Solver::getRange\<close> (\<^verbatim>\<open>src/klee/lib/Solver/Solver.cpp\<close>) is exact: with a solver that answers every query
  the binary searches end and return the least and the greatest value that the expression takes
  under the constraints.
\<close>

text \<open>Reads of constant arrays stay in range under the constraints.\<close>

definition query_safe :: "query \<Rightarrow> bool" where
  "query_safe q \<longleftrightarrow> (\<forall>\<sigma>. sat \<sigma> (constraints q) \<longrightarrow> in_bounds \<sigma> (query_expr q))"

section \<open>Binary search\<close>

lemma search_loop_least:
  fixes lo hi :: "64 word"
  assumes test: "\<And>mid s. I s \<Longrightarrow> lo \<le> mid \<Longrightarrow> mid < hi \<Longrightarrow> \<exists>s'. test mid s = (Answer (P mid), s') \<and> I s'"
    and mono: "\<And>a b. a \<le> b \<Longrightarrow> P a \<Longrightarrow> P b" and "P hi" and "lo \<le> hi" and "I s"
  shows "\<exists>x s'. search_loop test lo hi s = (Answer x, s') \<and> I s' \<and> lo \<le> x \<and> x \<le> hi \<and> P x \<and> (\<forall>y. lo \<le> y \<longrightarrow> y < x \<longrightarrow> \<not> P y)"
  using assms
proof (induction test lo hi s rule: search_loop.induct)
  case (1 test lo hi s)
  show ?case
  proof (cases "lo < hi")
    case True
    define mid where "mid = lo + (hi - lo) div 2"
    have mid: "lo \<le> mid" "mid < hi" using mid_bounds(2,3) [OF True] by (simp_all add: mid_def)
    have "unat (mid + 1) = unat mid + 1" using mid_bounds(1,4) [OF True] by (simp add: mid_def)
    then have above: "y < mid + 1 \<longleftrightarrow> y \<le> mid" for y by (auto simp: word_less_nat_alt word_le_nat_alt)
    have mid1: "mid + 1 \<le> hi" "lo \<le> mid + 1"
      using mid \<open>unat (mid + 1) = unat mid + 1\<close> by (auto simp: word_less_nat_alt word_le_nat_alt)
    obtain s' where s': "test mid s = (Answer (P mid), s')" "I s'" using "1.prems"(1) [OF "1.prems"(5) mid] by blast
    then have t: "must_succeed (test mid) s = (Answer (P mid), s')" by (simp add: must_succeed_def)
    have unfold: "search_loop test lo hi s = (if P mid then search_loop test lo mid s' else search_loop test (mid + 1) hi s')"
      using True t by (subst search_loop.simps) (simp add: mid_def Let_def)
    show ?thesis
    proof (cases "P mid")
      case yes: True
      have "\<exists>x s''. search_loop test lo mid s' = (Answer x, s'') \<and> I s'' \<and> lo \<le> x \<and> x \<le> mid \<and> P x \<and> (\<forall>y. lo \<le> y \<longrightarrow> y < x \<longrightarrow> \<not> P y)"
        by (rule "1.IH"(1) [OF True mid_def t [symmetric] refl yes _ "1.prems"(2) yes mid(1) s'(2)])
          (use "1.prems"(1) mid(2) in \<open>auto intro: order.strict_trans\<close>)
      with unfold yes mid(2) show ?thesis by (auto intro: order_trans less_imp_le)
    next
      case no: False
      have "\<exists>x s''. search_loop test (mid + 1) hi s' = (Answer x, s'') \<and> I s'' \<and> mid + 1 \<le> x \<and> x \<le> hi \<and> P x \<and> (\<forall>y. mid + 1 \<le> y \<longrightarrow> y < x \<longrightarrow> \<not> P y)"
        by (rule "1.IH"(2) [OF True mid_def t [symmetric] refl no _ "1.prems"(2,3) mid1(1) s'(2)])
          (use "1.prems"(1) mid1(2) in \<open>auto intro: order_trans\<close>)
      then obtain x s'' where x: "search_loop test (mid + 1) hi s' = (Answer x, s'')" "I s''" "mid + 1 \<le> x"
        "x \<le> hi" "P x" "\<forall>y. mid + 1 \<le> y \<longrightarrow> y < x \<longrightarrow> \<not> P y" by blast
      have "\<not> P y" if "lo \<le> y" "y < x" for y
        using x(6) that no "1.prems"(2) above by (meson not_less)
      with x unfold no mid1(2) show ?thesis by (auto intro: order_trans)
    qed
  next
    case False
    with "1.prems"(3-5) show ?thesis by (subst search_loop.simps) auto
  qed
qed

section \<open>The questions of the searches\<close>

context solver_contract
begin

lemma create_word:
  assumes "uint x < 2 ^ w" and "0 < w" and "w \<le> 64"
  shows "ConstantExpr_create R x w = Some (APInt w (uint x))" and "ap_wf (APInt w (uint x))"
proof -
  have u: "take_bit w (uint x) = uint x" using assms(1) by (simp add: take_bit_int_eq_self)
  then have "take_bit w x = x" by (simp add: word_uint_eq_iff unsigned_take_bit_eq)
  with u assms show "ConstantExpr_create R x w = Some (APInt w (uint x))"
    by (simp add: ConstantExpr_create_def truncateToNBits_eq alloc_simp)
  show "ap_wf (APInt w (uint x))" using assms by (simp add: ap_wf_def bv_def)
qed

text \<open>A condition on the value of the expression, asked as a query.\<close>

lemma asked:
  assumes "query_ok q" and "wt c" and "narrow c" and "getWidth c = Bool"
    and "\<And>\<sigma>. sat \<sigma> (constraints q) \<Longrightarrow> eval \<sigma> c = of_bool (Q (eval \<sigma> (query_expr q)))"
  shows "bool_query (withExpr q c)" and "must_be (withExpr q c) \<longleftrightarrow> (\<forall>v\<in>feasible q. Q v)"
    and "must_be_not (withExpr q c) \<longleftrightarrow> (\<forall>v\<in>feasible q. \<not> Q v)"
proof -
  show "bool_query (withExpr q c)" using assms by (simp add: bool_query_def query_ok_def withExpr_def)
  show "must_be (withExpr q c) \<longleftrightarrow> (\<forall>v\<in>feasible q. Q v)"
    using assms(5) by (auto simp: must_be_def feasible_def withExpr_def)
  show "must_be_not (withExpr q c) \<longleftrightarrow> (\<forall>v\<in>feasible q. \<not> Q v)"
    using assms(5) by (auto simp: must_be_not_def feasible_def withExpr_def)
qed

lemma mustBeTrue_answers:
  assumes "live" and "sinv s" and "bool_query q"
  shows "\<exists>s'. Solver_mustBeTrue S q s = (Answer (must_be q), s') \<and> sinv s'"
  using outcome_live [OF outcomeI, of "Solver_mustBeTrue S q s" sinv "\<lambda>b. b = must_be q"]
    mustBeTrue_contract [OF assms(2,3)] assms(1) by blast

lemma mayBeTrue_answers:
  assumes "live" and "sinv s" and "bool_query q"
  shows "\<exists>s'. Solver_mayBeTrue R S q s = (Answer (\<not> must_be_not q), s') \<and> sinv s'"
  using outcome_live [OF outcomeI, of "Solver_mayBeTrue R S q s" sinv "\<lambda>b. b = (\<not> must_be_not q)"]
    mayBeTrue_contract [OF assms(2,3)] assms(1) by blast

lemma evaluate_answers:
  assumes "live" and "sinv s" and "bool_query q"
  shows "\<exists>s'. Solver_evaluate S q s = (Answer (validity_of q), s') \<and> sinv s'"
  using outcome_live [OF outcomeI, of "Solver_evaluate S q s" sinv "\<lambda>v. v = validity_of q"]
    evaluate_contract [OF assms(2,3)] assms(1) by blast

text \<open>The comparison of the expression with a constant.\<close>

lemma at_most_create:
  assumes "query_ok q" and "uint mid < 2 ^ getWidth (query_expr q)"
  obtains c where "at_most R q mid = Some c" and "wt c" and "narrow c" and "getWidth c = Bool"
    and "\<And>\<sigma>. eval \<sigma> c = of_bool (eval \<sigma> (query_expr q) \<le> uint mid)"
proof -
  let ?w = "getWidth (query_expr q)"
  have e: "wt (query_expr q)" "narrow (query_expr q)" using assms(1) by (auto simp: query_ok_def)
  then have w: "0 < ?w" "?w \<le> 64" using narrow_width by auto
  note m = create_word [OF assms(2) w]
  let ?r = "ConstantExpr (APInt ?w (uint mid))"
  have r: "wt ?r" "narrow ?r" "?w = getWidth ?r" "divisor_ok Ule ?r" using m w by (simp_all add: divisor_ok_def)
  obtain c where c: "Binary_create R Ule (query_expr q) ?r = Some c" "narrow c"
    using Binary_create_total [OF e(1) r(1) e(2) r(2-4)] by blast
  with Binary_create_refines [OF e(1) r(1,4) c(1)] m show ?thesis
    by (intro that [of c]) (auto simp: at_most_def refines_on_def binary_cond_def is_cmp_def)
qed

lemma zero_create:
  assumes "query_ok q" and "query_safe q"
  obtains c where "do { z \<leftarrow> ConstantExpr_create R 0 (getWidth (query_expr q)); EqExpr_create R (query_expr q) (ConstantExpr z) } = Some c"
    and "wt c" and "narrow c" and "getWidth c = Bool"
    and "\<And>\<sigma>. sat \<sigma> (constraints q) \<Longrightarrow> eval \<sigma> c = of_bool (eval \<sigma> (query_expr q) = 0)"
proof -
  let ?w = "getWidth (query_expr q)"
  have e: "wt (query_expr q)" "narrow (query_expr q)" using assms(1) by (auto simp: query_ok_def)
  then have w: "0 < ?w" "?w \<le> 64" using narrow_width by auto
  let ?r = "ConstantExpr (APInt ?w 0)"
  have r: "wt ?r" "narrow ?r" "?w = getWidth ?r" "divisor_ok Eq ?r" using w by (simp_all add: divisor_ok_def ap_wf_def)
  obtain c where c: "Binary_create R Eq (query_expr q) ?r = Some c" "narrow c"
    using Binary_create_total [OF e(1) r(1) e(2) r(2-4)] by blast
  with Binary_create_refines [OF e(1) r(1,4) c(1)] w assms(2) show ?thesis
    by (intro that [of c]) (auto simp: create_0 refines_on_def binary_cond_def is_cmp_def eq_cond_def query_safe_def)
qed

lemma shifted_create:
  assumes "query_ok q" and "query_safe q" and "getWidth (query_expr q) \<noteq> Bool" and "dyn_cast_Constant (query_expr q) = None"
    and "uint mid < int (getWidth (query_expr q))"
  obtains c where "do { m \<leftarrow> ConstantExpr_create R mid (getWidth (query_expr q));
        z \<leftarrow> ConstantExpr_create R 0 (getWidth (query_expr q));
        sh \<leftarrow> LShrExpr_create R (query_expr q) (ConstantExpr m);
        EqExpr_create R sh (ConstantExpr z) } = Some c"
    and "wt c" and "narrow c" and "getWidth c = Bool"
    and "\<And>\<sigma>. sat \<sigma> (constraints q) \<Longrightarrow> eval \<sigma> c = of_bool (drop_bit (unat mid) (eval \<sigma> (query_expr q)) = 0)"
proof -
  let ?e = "query_expr q" and ?w = "getWidth (query_expr q)"
  have e: "wt ?e" "narrow ?e" using assms(1) by (auto simp: query_ok_def)
  then have w: "0 < ?w" "?w \<le> 64" using narrow_width by auto
  have "int ?w < 2 ^ ?w" using less_exp [of ?w] by (metis of_nat_less_iff of_nat_numeral of_nat_power)
  then have "uint mid < 2 ^ ?w" using assms(5) by linarith
  note m = create_word [OF this w]
  let ?sh = "LShrExpr ?e (ConstantExpr (APInt ?w (uint mid)))"
  have sh: "LShrExpr_create R ?e (ConstantExpr (APInt ?w (uint mid))) = Some ?sh"
    using assms(3,4) by (simp add: LShrExpr_create_def BCREATE_def static_LShrExpr_create_def)
  have qs: "query_ok (withExpr q ?sh)" "query_safe (withExpr q ?sh)"
    using assms(1,2) m w by (auto simp: query_ok_def query_safe_def withExpr_def)
  have gw: "getWidth ?sh = ?w" by (simp add: is_cmp_def)
  obtain c where c: "do { z \<leftarrow> ConstantExpr_create R 0 (getWidth ?sh); EqExpr_create R ?sh (ConstantExpr z) } = Some c"
    "wt c" "narrow c" "getWidth c = Bool" "\<And>\<sigma>. sat \<sigma> (constraints q) \<Longrightarrow> eval \<sigma> c = of_bool (eval \<sigma> ?sh = 0)"
    using zero_create [OF qs] by (auto simp: withExpr_def)
  have "nat (uint mid) = unat mid" by simp
  with c sh m gw assms(5) show ?thesis by (intro that [of c]) auto
qed

lemma useful_bits_answers:
  assumes "live" and "sinv s" and "query_ok q" and "query_safe q" and "getWidth (query_expr q) \<noteq> Bool"
    and "dyn_cast_Constant (query_expr q) = None" and "uint mid < int (getWidth (query_expr q))"
  shows "\<exists>s'. useful_bits_test R S q mid s = (Answer (\<forall>v\<in>feasible q. drop_bit (unat mid) v = 0), s') \<and> sinv s'"
proof -
  obtain c where c: "do { m \<leftarrow> ConstantExpr_create R mid (getWidth (query_expr q));
        z \<leftarrow> ConstantExpr_create R 0 (getWidth (query_expr q));
        sh \<leftarrow> LShrExpr_create R (query_expr q) (ConstantExpr m);
        EqExpr_create R sh (ConstantExpr z) } = Some c" "wt c" "narrow c" "getWidth c = Bool"
    "\<And>\<sigma>. sat \<sigma> (constraints q) \<Longrightarrow> eval \<sigma> c = of_bool (drop_bit (unat mid) (eval \<sigma> (query_expr q)) = 0)"
    by (rule shifted_create [OF assms(3-7)]) blast
  note a = asked [OF assms(3) c(2-5)]
  from mustBeTrue_answers [OF assms(1,2) a(1)] c(1) a(2) show ?thesis by (simp add: useful_bits_test_def Let_def)
qed

lemma min_answers:
  assumes "live" and "sinv s" and "query_ok q" and "uint mid < 2 ^ getWidth (query_expr q)"
  shows "\<exists>s'. min_test R S q mid s = (Answer (\<exists>v\<in>feasible q. v \<le> uint mid), s') \<and> sinv s'"
proof -
  obtain c where c: "at_most R q mid = Some c" "wt c" "narrow c" "getWidth c = Bool"
    "\<And>\<sigma>. eval \<sigma> c = of_bool (eval \<sigma> (query_expr q) \<le> uint mid)" by (rule at_most_create [OF assms(3,4)]) blast
  note a = asked [OF assms(3) c(2-5)]
  from mayBeTrue_answers [OF assms(1,2) a(1)] c(1) a(3) show ?thesis by (simp add: min_test_def)
qed

lemma max_answers:
  assumes "live" and "sinv s" and "query_ok q" and "uint mid < 2 ^ getWidth (query_expr q)"
  shows "\<exists>s'. max_test R S q mid s = (Answer (\<forall>v\<in>feasible q. v \<le> uint mid), s') \<and> sinv s'"
proof -
  obtain c where c: "at_most R q mid = Some c" "wt c" "narrow c" "getWidth c = Bool"
    "\<And>\<sigma>. eval \<sigma> c = of_bool (eval \<sigma> (query_expr q) \<le> uint mid)" by (rule at_most_create [OF assms(3,4)]) blast
  note a = asked [OF assms(3) c(2-5)]
  from mustBeTrue_answers [OF assms(1,2) a(1)] c(1) a(2) show ?thesis by (simp add: max_test_def)
qed

lemma zero_answers:
  assumes "live" and "sinv s" and "query_ok q" and "query_safe q"
  shows "\<exists>s'. must_succeed (zero_test R S q) s = (Answer (0 \<in> feasible q), s') \<and> sinv s'"
proof -
  obtain c where c: "do { z \<leftarrow> ConstantExpr_create R 0 (getWidth (query_expr q)); EqExpr_create R (query_expr q) (ConstantExpr z) } = Some c"
    "wt c" "narrow c" "getWidth c = Bool"
    "\<And>\<sigma>. sat \<sigma> (constraints q) \<Longrightarrow> eval \<sigma> c = of_bool (eval \<sigma> (query_expr q) = 0)" by (rule zero_create [OF assms(3,4)]) blast
  note a = asked [OF assms(3) c(2-5)]
  have "(\<not> (\<forall>v\<in>feasible q. \<not> v = 0)) = (0 \<in> feasible q)" by auto
  with mayBeTrue_answers [OF assms(1,2) a(1)] c(1) a(3) show ?thesis
    by (auto simp: zero_test_def must_succeed_def)
qed

text \<open>The feasible values of a query: at least one, and all below the power of two of the width.\<close>

lemma feasible_bounds: "query_ok q \<Longrightarrow> v \<in> feasible q \<Longrightarrow> 0 \<le> v \<and> v < 2 ^ getWidth (query_expr q)"
  using eval_bv by (auto simp: feasible_def query_ok_def bv_def)

lemma feasible_nonempty: "query_ok q \<Longrightarrow> \<exists>v. v \<in> feasible q"
  by (auto simp: feasible_def query_ok_def)

lemma bits_search:
  assumes "live" and "sinv s" and "query_ok q" and "query_safe q" and "getWidth (query_expr q) \<noteq> Bool"
    and "dyn_cast_Constant (query_expr q) = None"
  shows "\<exists>bits s'. search_loop (useful_bits_test R S q) 0 (of_nat (getWidth (query_expr q))) s = (Answer bits, s')
    \<and> sinv s' \<and> unat bits \<le> getWidth (query_expr q) \<and> (\<forall>v\<in>feasible q. v < 2 ^ unat bits)"
proof -
  let ?w = "getWidth (query_expr q)"
  define P where "P b \<longleftrightarrow> (\<forall>v\<in>feasible q. drop_bit (unat b) v = 0)" for b :: "64 word"
  have w: "?w \<le> 64" using assms(3) narrow_width by (simp add: query_ok_def)
  then have hi: "unat (of_nat ?w :: 64 word) = ?w" by (simp add: unat_of_nat)
  have z: "drop_bit n v = 0 \<longleftrightarrow> v < 2 ^ n" if "0 \<le> v" for n and v :: int
    using that by (auto simp: drop_bit_eq_div div_eq_0_iff zdiv_eq_0_iff)
  have P: "P b \<longleftrightarrow> (\<forall>v\<in>feasible q. v < 2 ^ unat b)" for b
    using feasible_bounds [OF assms(3)] z by (auto simp: P_def)
  have test: "\<exists>s'. useful_bits_test R S q mid s = (Answer (P mid), s') \<and> sinv s'"
    if "sinv s" "mid < of_nat ?w" for mid s
  proof -
    have "unat mid < ?w" using that(2) hi by (simp add: word_less_nat_alt)
    then have "int (unat mid) < int ?w" by (simp only: of_nat_less_iff)
    then have "uint mid < int ?w" by simp
    from useful_bits_answers [OF assms(1) that(1) assms(3-6) this] show ?thesis by (simp add: P_def)
  qed
  have mono: "P b" if "a \<le> b" "P a" for a b
  proof -
    have "(2 :: int) ^ unat a \<le> 2 ^ unat b" using that(1) by (simp add: word_le_nat_alt)
    with that(2) P show ?thesis by (meson order_less_le_trans)
  qed
  have top: "P (of_nat ?w)" using feasible_bounds [OF assms(3)] hi by (auto simp: P)
  have "\<exists>x s'. search_loop (useful_bits_test R S q) 0 (of_nat ?w) s = (Answer x, s') \<and> sinv s' \<and> 0 \<le> x \<and> x \<le> (of_nat ?w) \<and> P x \<and> (\<forall>y. 0 \<le> y \<longrightarrow> y < x \<longrightarrow> \<not> P y)"
    by (rule search_loop_least [where I = sinv and P = P]) (use test mono top assms(2) in auto)
  then
  obtain bits s' where "search_loop (useful_bits_test R S q) 0 (of_nat ?w) s = (Answer bits, s')" "sinv s'"
    "bits \<le> of_nat ?w" "P bits" by auto
  with hi P show ?thesis by (auto simp: word_le_nat_alt)
qed

lemma min_search:
  assumes "live" and "sinv s" and "query_ok q" and "uint hi < 2 ^ getWidth (query_expr q)"
    and "\<forall>v\<in>feasible q. v \<le> uint hi"
  shows "\<exists>m s'. search_loop (min_test R S q) 0 hi s = (Answer m, s') \<and> sinv s' \<and> m \<le> hi
    \<and> uint m \<in> feasible q \<and> (\<forall>v\<in>feasible q. uint m \<le> v)"
proof -
  define P where "P b \<longleftrightarrow> (\<exists>v\<in>feasible q. v \<le> uint b)" for b :: "64 word"
  have test: "\<exists>s'. min_test R S q mid s = (Answer (P mid), s') \<and> sinv s'" if "sinv s" "mid < hi" for mid s
  proof -
    have "uint mid < 2 ^ getWidth (query_expr q)" using that(2) assms(4) unfolding word_less_def by linarith
    from min_answers [OF assms(1) that(1) assms(3) this] show ?thesis by (simp add: P_def)
  qed
  have mono: "P b" if "a \<le> b" "P a" for a b
    using that by (auto simp: P_def word_le_def intro: order_trans)
  have ptop: "P hi" using feasible_nonempty [OF assms(3)] assms(5) by (auto simp: P_def)
  have "\<exists>x s'. search_loop (min_test R S q) 0 hi s = (Answer x, s') \<and> sinv s' \<and> 0 \<le> x \<and> x \<le> hi \<and> P x \<and> (\<forall>y. 0 \<le> y \<longrightarrow> y < x \<longrightarrow> \<not> P y)"
    by (rule search_loop_least [where I = sinv and P = P]) (use test mono ptop assms(2) in auto)
  then
  obtain m s' where m: "search_loop (min_test R S q) 0 hi s = (Answer m, s')" "sinv s'" "m \<le> hi" "P m"
    "\<forall>y<m. \<not> P y" by auto
  have low: "uint m \<le> v" if "v \<in> feasible q" for v
  proof (rule ccontr)
    assume "\<not> uint m \<le> v"
    then have v: "uint (word_of_int v :: 64 word) = v" "v < uint m"
      using feasible_bounds [OF assms(3) that] uint_lt2p [of m] by (auto simp: uint_word_of_int take_bit_int_eq_self)
    then have "word_of_int v < m" "P (word_of_int v)" using that by (auto simp: P_def word_less_def)
    with m(5) show False by blast
  qed
  moreover obtain v where "v \<in> feasible q" "v \<le> uint m" using m(4) by (auto simp: P_def)
  ultimately show ?thesis using m by (metis order_antisym)
qed

lemma max_search:
  assumes "live" and "sinv s" and "query_ok q" and "uint hi < 2 ^ getWidth (query_expr q)"
    and "\<forall>v\<in>feasible q. v \<le> uint hi" and "lo \<le> hi" and "uint lo \<in> feasible q"
  shows "\<exists>m s'. search_loop (max_test R S q) lo hi s = (Answer m, s') \<and> sinv s' \<and> m \<le> hi
    \<and> uint m \<in> feasible q \<and> (\<forall>v\<in>feasible q. v \<le> uint m)"
proof -
  define P where "P b \<longleftrightarrow> (\<forall>v\<in>feasible q. v \<le> uint b)" for b :: "64 word"
  have test: "\<exists>s'. max_test R S q mid s = (Answer (P mid), s') \<and> sinv s'" if "sinv s" "mid < hi" for mid s
  proof -
    have "uint mid < 2 ^ getWidth (query_expr q)" using that(2) assms(4) unfolding word_less_def by linarith
    from max_answers [OF assms(1) that(1) assms(3) this] show ?thesis by (simp add: P_def)
  qed
  have mono: "P b" if "a \<le> b" "P a" for a b
    using that by (auto simp: P_def word_le_def intro: order_trans)
  have ptop: "P hi" using assms(5) by (simp add: P_def)
  have "\<exists>x s'. search_loop (max_test R S q) lo hi s = (Answer x, s') \<and> sinv s' \<and> lo \<le> x \<and> x \<le> hi \<and> P x \<and> (\<forall>y. lo \<le> y \<longrightarrow> y < x \<longrightarrow> \<not> P y)"
    by (rule search_loop_least [where I = sinv and P = P]) (use test mono ptop assms(2,6) in auto)
  then
  obtain m s' where m: "search_loop (max_test R S q) lo hi s = (Answer m, s')" "sinv s'" "m \<le> hi" "P m" "lo \<le> m"
    "\<forall>y. lo \<le> y \<longrightarrow> y < m \<longrightarrow> \<not> P y" by auto
  have "uint m \<in> feasible q"
  proof (rule ccontr)
    assume no: "uint m \<notin> feasible q"
    then have "lo < m" using assms(7) m(5) by (metis order_le_less)
    then have lt: "0 \<le> uint lo" "uint lo < uint m" by (auto simp: word_less_def)
    define y :: "64 word" where "y = word_of_int (uint m - 1)"
    have y: "uint y = uint m - 1"
      by (rule word_of_int_inverse [OF y_def [symmetric]]) (use lt uint_lt2p [of m] in linarith)+
    have "P y" using m(4) no y by (auto simp: P_def) (metis order_le_less)
    moreover have "lo \<le> y" "y < m" using y lt by (auto simp: word_le_def word_less_def)
    ultimately show False using m(6) by blast
  qed
  with m show ?thesis by (auto simp: P_def)
qed

lemma getRange_wide_exact:
  assumes "live" and "sinv s" and "query_ok q" and "query_safe q" and "getWidth (query_expr q) \<noteq> Bool"
    and "dyn_cast_Constant (query_expr q) = None"
  shows "\<exists>lo hi s'. Solver_getRange_wide R S q s = (Answer (lo, hi), s') \<and> sinv s'
    \<and> uint lo \<in> feasible q \<and> uint hi \<in> feasible q \<and> (\<forall>v\<in>feasible q. uint lo \<le> v \<and> v \<le> uint hi)"
proof -
  let ?w = "getWidth (query_expr q)"
  have w: "?w \<le> 64" using assms(3) narrow_width by (simp add: query_ok_def)
  obtain bits s1 where b: "search_loop (useful_bits_test R S q) 0 (of_nat ?w) s = (Answer bits, s1)" "sinv s1"
    "unat bits \<le> ?w" "\<forall>v\<in>feasible q. v < 2 ^ unat bits" using bits_search [OF assms] by blast
  obtain s2 where z: "must_succeed (zero_test R S q) s1 = (Answer (0 \<in> feasible q), s2)" "sinv s2"
    using zero_answers [OF assms(1) b(2) assms(3,4)] by blast
  define hi :: "64 word" where "hi = mask (unat bits)"
  have top: "maxValueOfNBits (unat bits) = Some hi" "uint hi = 2 ^ unat bits - 1"
    using b(3) w by (simp_all add: hi_def maxValueOfNBits_eq uint_mask_64)
  have "(2 :: int) ^ unat bits \<le> 2 ^ ?w" using b(3) by simp
  then have tw: "uint hi < 2 ^ ?w" using top(2) by linarith
  have tv: "\<forall>v\<in>feasible q. v \<le> uint hi" using b(4) top(2) by auto
  have "\<exists>m s3. (if 0 \<in> feasible q then answer 0 else search_loop (min_test R S q) 0 hi) s2 = (Answer m, s3)
      \<and> sinv s3 \<and> m \<le> hi \<and> uint m \<in> feasible q \<and> (\<forall>v\<in>feasible q. uint m \<le> v)"
  proof (cases "0 \<in> feasible q")
    case True
    with z(2) feasible_bounds [OF assms(3)] show ?thesis by (auto simp: answer_def)
  next
    case False
    with min_search [OF assms(1) z(2) assms(3) tw tv] show ?thesis by simp
  qed
  then obtain m s3 where m: "(if 0 \<in> feasible q then answer 0 else search_loop (min_test R S q) 0 hi) s2 = (Answer m, s3)"
    "sinv s3" "m \<le> hi" "uint m \<in> feasible q" "\<forall>v\<in>feasible q. uint m \<le> v" by blast
  obtain x s4 where x: "search_loop (max_test R S q) m hi s3 = (Answer x, s4)" "sinv s4" "uint x \<in> feasible q"
    "\<forall>v\<in>feasible q. v \<le> uint x" using max_search [OF assms(1) m(2) assms(3) tw tv m(3,4)] by blast
  have "Solver_getRange_wide R S q s = (Answer (m, x), s4)"
    unfolding Solver_getRange_wide_def
    by (subst and_then_def, simp only: b(1) prod.case answer.case)
      (subst and_then_def, simp only: z(1) prod.case answer.case,
        simp only: top(1) answer_simps, subst and_then_def, simp only: m(1) prod.case answer.case,
        subst and_then_def, simp add: x(1) answer_def)
  with x m show ?thesis by blast
qed

lemma feasible_Bool:
  assumes "bool_query q"
  shows "feasible q = (case validity_of q of VTrue \<Rightarrow> {1} | VFalse \<Rightarrow> {0} | VUnknown \<Rightarrow> {0, 1})"
proof -
  have w: "wt (query_expr q)" "getWidth (query_expr q) = Bool" and ex: "\<exists>\<sigma>. sat \<sigma> (constraints q)"
    using assms by (auto simp: bool_query_def query_ok_def)
  have v: "eval \<sigma> (query_expr q) = 0 \<or> eval \<sigma> (query_expr q) = 1" for \<sigma>
    by (rule eval_Bool_cases [OF w, of \<sigma>]) auto
  have sub: "feasible q \<subseteq> {0, 1}" using v by (auto simp: feasible_def)
  have one: "1 \<in> feasible q \<longleftrightarrow> \<not> must_be_not q" and zero: "0 \<in> feasible q \<longleftrightarrow> \<not> must_be q"
    using v by (force simp: feasible_def must_be_not_def must_be_def)+
  have "must_be q \<Longrightarrow> \<not> must_be_not q" using ex by (auto simp: must_be_def must_be_not_def)
  with sub one zero show ?thesis by (auto simp: validity_of_def)
qed

lemma getRange_exact:
  assumes "live" and "sinv s" and "query_ok q" and "query_safe q"
  shows "\<exists>a b s'. Solver_getRange R S q s = (Answer (a, b), s') \<and> sinv s'
    \<and> getBitWidth a = getWidth (query_expr q) \<and> getBitWidth b = getWidth (query_expr q)
    \<and> apValue a \<in> feasible q \<and> apValue b \<in> feasible q \<and> (\<forall>v\<in>feasible q. apValue a \<le> v \<and> v \<le> apValue b)"
proof -
  let ?e = "query_expr q" and ?w = "getWidth (query_expr q)"
  have w: "0 < ?w" "?w \<le> 64" using assms(3) narrow_width by (auto simp: query_ok_def)
  define f where "f = (if ?w = 1 then
           and_then (must_succeed (Solver_evaluate S q)) (\<lambda>result.
             answer (case result of VTrue \<Rightarrow> (1, 1) | VFalse \<Rightarrow> (0, 0) | VUnknown \<Rightarrow> (0, 1)))
         else case dyn_cast_Constant ?e of
           Some CE \<Rightarrow> and_then (asserted (ConstantExpr_getZExtValue CE 64)) (\<lambda>v. answer (v, v))
         | None \<Rightarrow> Solver_getRange_wide R S q)"
  have "\<exists>lo hi s'. f s = (Answer (lo, hi), s') \<and> sinv s' \<and> uint lo \<in> feasible q \<and> uint hi \<in> feasible q
      \<and> (\<forall>v\<in>feasible q. uint lo \<le> v \<and> v \<le> uint hi)"
  proof (cases "?w = 1")
    case True
    then have q: "bool_query q" using assms(3) by (simp add: bool_query_def)
    obtain s' where "Solver_evaluate S q s = (Answer (validity_of q), s')" "sinv s'"
      using evaluate_answers [OF assms(1,2) q] by blast
    with True feasible_Bool [OF q] show ?thesis
      by (cases "validity_of q") (simp_all add: f_def and_then_def must_succeed_def answer_def)
  next
    case False
    show ?thesis
    proof (cases "dyn_cast_Constant ?e")
      case None
      with False getRange_wide_exact [OF assms] show ?thesis by (simp add: f_def)
    next
      case (Some c)
      then have c: "ap_wf c" "getBitWidth c \<le> 64" "?e = ConstantExpr c" using assms(3) by (auto simp: query_ok_def)
      obtain v where v: "ConstantExpr_getZExtValue c 64 = Some v" using getZExtValue_narrow [OF c(1,2,2)] by blast
      have "feasible q = {apValue c}" using c(3) assms(3) by (auto simp: feasible_def query_ok_def)
      with v c False Some getZExtValue_Some(2) [OF c(1) v] assms(2) show ?thesis
        by (simp add: f_def answer_def)
    qed
  qed
  then obtain lo hi s' where r: "f s = (Answer (lo, hi), s')" "sinv s'" "uint lo \<in> feasible q" "uint hi \<in> feasible q"
      "\<forall>v\<in>feasible q. uint lo \<le> v \<and> v \<le> uint hi" by blast
  have "ConstantExpr_create R lo ?w = Some (APInt ?w (uint lo))" "ConstantExpr_create R hi ?w = Some (APInt ?w (uint hi))"
    using create_word(1) [OF _ w] feasible_bounds [OF assms(3)] r(3,4) by blast+
  then have "Solver_getRange R S q s = (Answer (APInt ?w (uint lo), APInt ?w (uint hi)), s')"
    unfolding Solver_getRange_def Let_def f_def [symmetric]
    by (subst and_then_def) (simp add: r(1) asserted_def)
  with r show ?thesis by force
qed

end

section \<open>The specification as a solver\<close>

text \<open>
  A solver that answers the two questions of truth and validity by definition and declines to
  produce values: it meets the contract and answers every query.
\<close>

definition ideal_solver :: "'s solver_impl" where
  "ideal_solver =
     \<lparr>computeTruth = (\<lambda>q s. (Answer (must_be q), s)), computeValidity = (\<lambda>q s. (Answer (validity_of q), s)),
      computeValue = (\<lambda>q s. (Fail, s)), computeInitialValues = (\<lambda>q os s. (Fail, s))\<rparr>"

lemma ideal_contract: "klee_rt_laws R \<Longrightarrow> solver_contract R (ideal_solver :: 's solver_impl) I live"
  by (intro solver_contract.intro solver_contract_axioms.intro) (auto simp: ideal_solver_def outcome_ok_def)

interpretation ideal: solver_contract klee_rt_ref "ideal_solver :: unit solver_impl" "\<lambda>_. True" True
  by (rule ideal_contract [OF klee_rt_ref_laws])

definition input_array :: klee_array where
  "input_array = \<lparr>arr_addr = 1, arr_name = ''input'', arr_size = 4, constantValues = []\<rparr>"

definition input_byte :: "nat \<Rightarrow> expr" where
  "input_byte i = ReadExpr input_array NoUpdate (ConstantExpr (APInt Int32 (int i)))"

lemma input_byte_simps [simp]:
  "i < 4 \<Longrightarrow> wt (input_byte i)" "narrow (input_byte i)" "getWidth (input_byte i) = Int8"
  "in_bounds \<sigma> (input_byte i)" "eval \<sigma> (input_byte i) = take_bit Int8 (\<sigma> input_array i)"
  "dyn_cast_Constant (input_byte i) = None"
  by (auto simp: input_byte_def input_array_def array_ok_def ap_wf_def bv_def isConstantArray_def
      isSymbolicArray_def initial_value_def)

lemma input_byte_values: "{take_bit Int8 (\<sigma> input_array 0) |\<sigma>. True} = {0..<256 :: int}"
proof (intro equalityI subsetI)
  fix v :: int assume "v \<in> {0..<256}"
  then show "v \<in> {take_bit Int8 (\<sigma> input_array 0) |\<sigma>. True}"
    by (auto intro!: exI [of _ "\<lambda>_ _. v"] simp: take_bit_int_eq_self)
qed (auto simp: take_bit_eq_mod)

section \<open>Properties\<close>

text \<open>
  C30. The questions a client asks a solver are answered correctly: if the implementation meets its contract,
  then \<^verbatim>\<open>mustBeTrue\<close>, \<^verbatim>\<open>mustBeFalse\<close>, \<^verbatim>\<open>mayBeTrue\<close>, \<^verbatim>\<open>mayBeFalse\<close> and \<^verbatim>\<open>evaluate\<close> on a boolean query over
  satisfiable constraints run into no assertion, and an answer, when there is one, is what holds of
  all assignments that satisfy the constraints; a solver that always answers its implementation's
  questions always answers these.
\<close>

theorem solver_questions_sound:
  assumes "solver_contract R S I live" and "I s" and "bool_query q"
  shows "(case Solver_mustBeTrue S q s of (r, s') \<Rightarrow> I s' \<and> r \<noteq> Abort \<and> (live \<longrightarrow> r \<noteq> Fail) \<and> (\<forall>b. r = Answer b \<longrightarrow> b = must_be q))
    \<and> (case Solver_mustBeFalse R S q s of (r, s') \<Rightarrow> I s' \<and> r \<noteq> Abort \<and> (live \<longrightarrow> r \<noteq> Fail) \<and> (\<forall>b. r = Answer b \<longrightarrow> b = must_be_not q))
    \<and> (case Solver_mayBeTrue R S q s of (r, s') \<Rightarrow> I s' \<and> r \<noteq> Abort \<and> (live \<longrightarrow> r \<noteq> Fail) \<and> (\<forall>b. r = Answer b \<longrightarrow> b = (1 \<in> feasible q)))
    \<and> (case Solver_mayBeFalse S q s of (r, s') \<Rightarrow> I s' \<and> r \<noteq> Abort \<and> (live \<longrightarrow> r \<noteq> Fail) \<and> (\<forall>b. r = Answer b \<longrightarrow> b = (0 \<in> feasible q)))
    \<and> (case Solver_evaluate S q s of (r, s') \<Rightarrow> I s' \<and> r \<noteq> Abort \<and> (live \<longrightarrow> r \<noteq> Fail) \<and> (\<forall>v. r = Answer v \<longrightarrow> v = validity_of q))"
proof -
  have w: "wt (query_expr q)" "getWidth (query_expr q) = Bool" using assms(3) by (auto simp: bool_query_def query_ok_def)
  have v: "eval \<sigma> (query_expr q) = 0 \<or> eval \<sigma> (query_expr q) = 1" for \<sigma>
    by (rule eval_Bool_cases [OF w, of \<sigma>]) auto
  have f: "(\<not> must_be_not q) = (1 \<in> feasible q)" "(\<not> must_be q) = (0 \<in> feasible q)"
    using v by (force simp: feasible_def must_be_not_def must_be_def)+
  note c = solver_contract.mustBeTrue_contract [OF assms] solver_contract.mustBeFalse_contract [OF assms]
    solver_contract.mayBeTrue_contract [OF assms, unfolded f] solver_contract.mayBeFalse_contract [OF assms, unfolded f]
    solver_contract.evaluate_contract [OF assms]
  show ?thesis by (intro conjI; clarsimp; drule c; simp)
qed

theorem solver_questions_sound_witness:
  "case Solver_mayBeTrue klee_rt_ref ideal_solver
      \<lparr>cm_root = 0, constraints = [], query_expr = NotOptimizedExpr (ConstantExpr (APInt Bool 1))\<rparr> () of
     (r, s') \<Rightarrow> r \<noteq> Abort \<and> r \<noteq> Fail \<and> (\<forall>b. r = Answer b \<longrightarrow> b)"
proof -
  let ?q = "\<lparr>cm_root = 0, constraints = [], query_expr = NotOptimizedExpr (ConstantExpr (APInt Bool 1))\<rparr>"
  have "bool_query ?q" by (simp add: bool_query_def query_ok_def sat_def ap_wf_def)
  moreover have "1 \<in> feasible ?q" by (simp add: feasible_def sat_def)
  ultimately show ?thesis
    using solver_questions_sound [OF ideal.solver_contract_axioms, where s = "()" and q = ?q] by auto
qed

text \<open>
  C6. \<^verbatim>\<open>Solver::getRange\<close> is exact: over satisfiable constraints, with a solver that meets its contract and
  answers every query, no assertion fails, the three binary searches end, and the two constants
  returned are the least and the greatest value of the expression under the constraints.
\<close>

theorem getRange_correct:
  assumes "solver_contract R S I True" and "I s" and "query_ok q" and "query_safe q"
  shows "\<exists>a b s'. Solver_getRange R S q s = (Answer (a, b), s') \<and> I s'
    \<and> getBitWidth a = getWidth (query_expr q) \<and> getBitWidth b = getWidth (query_expr q)
    \<and> apValue a \<in> feasible q \<and> apValue b \<in> feasible q \<and> (\<forall>v\<in>feasible q. apValue a \<le> v \<and> v \<le> apValue b)"
  using solver_contract.getRange_exact [OF assms(1) TrueI assms(2-4)] .

theorem getRange_correct_witness:
  "\<exists>a b s'. Solver_getRange klee_rt_ref ideal_solver \<lparr>cm_root = 0, constraints = [], query_expr = input_byte 0\<rparr> () = (Answer (a, b), s')
    \<and> apValue a = 0 \<and> apValue b = 255"
proof -
  let ?q = "\<lparr>cm_root = 0, constraints = [], query_expr = input_byte 0\<rparr>"
  have q: "query_ok ?q" "query_safe ?q" by (simp_all add: query_ok_def query_safe_def sat_def)
  have f: "feasible ?q = {0..<256}" using input_byte_values by (simp add: feasible_def sat_def)
  obtain a b s' where r: "Solver_getRange klee_rt_ref ideal_solver ?q () = (Answer (a, b), s')"
    "apValue a \<in> {0..<256}" "apValue b \<in> {0..<256}" "\<forall>v\<in>{0..<256}. apValue a \<le> v \<and> v \<le> apValue b"
    using getRange_correct [OF ideal.solver_contract_axioms TrueI q, where s = "()"] f by auto
  then have "apValue a \<le> 0" "255 \<le> apValue b" using bspec [OF r(4), of 0] bspec [OF r(4), of 255] by auto
  with r show ?thesis by auto
qed

end
