(* ===== verification/SolverChain.thy ===== *)
theory SolverChain
  imports SolverRange ExprOrder
begin

text \<open>
  The solvers that wrap another one: partial answers and the staged solver
  (\<^verbatim>\<open>src/klee/lib/Solver/IncompleteSolver.cpp\<close>), the cache of answers (\<^verbatim>\<open>CachingSolver.cpp\<close>) and the solver
  that checks another one against an oracle (\<^verbatim>\<open>ValidatingSolver\<close> in \<^verbatim>\<open>Solver.cpp\<close>). Each is shown to meet
  the contract of a solver whenever the solvers it wraps do.
\<close>

section \<open>Partial answers\<close>

datatype partial_validity = MustBeTrue | MustBeFalse | MayBeTrue | MayBeFalse | TrueOrFalse | PVNone

definition negatePartialValidity :: "partial_validity \<Rightarrow> partial_validity option" where
  "negatePartialValidity pv =
     (case pv of
        MustBeTrue \<Rightarrow> Some MustBeFalse
      | MustBeFalse \<Rightarrow> Some MustBeTrue
      | MayBeTrue \<Rightarrow> Some MayBeFalse
      | MayBeFalse \<Rightarrow> Some MayBeTrue
      | TrueOrFalse \<Rightarrow> Some TrueOrFalse
      | PVNone \<Rightarrow> None)"

record 'p incomplete_solver =
  partialTruth :: "query \<Rightarrow> 'p \<Rightarrow> partial_validity answer \<times> 'p"
  partialValidity :: "query \<Rightarrow> 'p \<Rightarrow> partial_validity answer \<times> 'p"
  partialValue :: "query \<Rightarrow> 'p \<Rightarrow> expr answer \<times> 'p"
  partialInitialValues :: "query \<Rightarrow> klee_array list \<Rightarrow> 'p \<Rightarrow> (8 word list list \<times> bool) answer \<times> 'p"

text \<open>The implementation of \<^verbatim>\<open>computeValidity\<close> that \<^verbatim>\<open>IncompleteSolver\<close> provides.\<close>

definition IncompleteSolver_computeValidity ::
  "klee_rt \<Rightarrow> (query \<Rightarrow> 'p \<Rightarrow> partial_validity answer \<times> 'p) \<Rightarrow> query \<Rightarrow> 'p \<Rightarrow> partial_validity answer \<times> 'p" where
  "IncompleteSolver_computeValidity R truth q =
     and_then (truth q) (\<lambda>trueResult.
       if trueResult = MustBeTrue then answer MustBeTrue
       else and_then (asserted (negateExpr R q)) (\<lambda>nq.
         and_then (truth nq) (\<lambda>falseResult.
           if falseResult = MustBeTrue then answer MustBeFalse
           else (let trueCorrect = (trueResult \<noteq> PVNone); falseCorrect = (falseResult \<noteq> PVNone) in
             if trueCorrect \<and> falseCorrect then answer TrueOrFalse
             else if trueCorrect then answer MayBeFalse
             else if falseCorrect then answer MayBeTrue
             else answer PVNone))))"

section \<open>The staged solver\<close>

text \<open>The two stages have their own states; each is run on its part of the pair.\<close>

definition on_fst :: "('a \<Rightarrow> 'x answer \<times> 'a) \<Rightarrow> 'a \<times> 'b \<Rightarrow> 'x answer \<times> 'a \<times> 'b" where
  "on_fst f st = (case f (fst st) of (r, a) \<Rightarrow> (r, a, snd st))"

definition on_snd :: "('b \<Rightarrow> 'x answer \<times> 'b) \<Rightarrow> 'a \<times> 'b \<Rightarrow> 'x answer \<times> 'a \<times> 'b" where
  "on_snd f st = (case f (snd st) of (r, b) \<Rightarrow> (r, fst st, b))"

text \<open>Try the first stage, and the second when the first returns false.\<close>

definition or_else_try :: "('s \<Rightarrow> 'a answer \<times> 's) \<Rightarrow> ('s \<Rightarrow> 'a answer \<times> 's) \<Rightarrow> 's \<Rightarrow> 'a answer \<times> 's" where
  "or_else_try f g s = (case f s of (Fail, s') \<Rightarrow> g s' | x \<Rightarrow> x)"

definition Staged_computeTruth :: "'p incomplete_solver \<Rightarrow> 's solver_impl \<Rightarrow> query \<Rightarrow> 'p \<times> 's \<Rightarrow> bool answer \<times> 'p \<times> 's" where
  "Staged_computeTruth P S q =
     and_then (on_fst (partialTruth P q)) (\<lambda>trueResult.
       if trueResult \<noteq> PVNone then answer (trueResult = MustBeTrue)
       else on_snd (computeTruth S q))"

definition Staged_computeValidity ::
  "klee_rt \<Rightarrow> 'p incomplete_solver \<Rightarrow> 's solver_impl \<Rightarrow> query \<Rightarrow> 'p \<times> 's \<Rightarrow> validity answer \<times> 'p \<times> 's" where
  "Staged_computeValidity R P S q =
     and_then (on_fst (partialValidity P q)) (\<lambda>pv.
       case pv of
         MustBeTrue \<Rightarrow> answer VTrue
       | MustBeFalse \<Rightarrow> answer VFalse
       | TrueOrFalse \<Rightarrow> answer VUnknown
       | MayBeTrue \<Rightarrow>
           and_then (on_snd (computeTruth S q)) (\<lambda>tmp. answer (if tmp then VTrue else VUnknown))
       | MayBeFalse \<Rightarrow>
           and_then (asserted (negateExpr R q)) (\<lambda>nq.
             and_then (on_snd (computeTruth S nq)) (\<lambda>tmp. answer (if tmp then VFalse else VUnknown)))
       | PVNone \<Rightarrow> on_snd (computeValidity S q))"

definition StagedSolver :: "klee_rt \<Rightarrow> 'p incomplete_solver \<Rightarrow> 's solver_impl \<Rightarrow> ('p \<times> 's) solver_impl" where
  "StagedSolver R P S =
     \<lparr>computeTruth = Staged_computeTruth P S,
      computeValidity = Staged_computeValidity R P S,
      computeValue = (\<lambda>q. or_else_try (on_fst (partialValue P q)) (on_snd (computeValue S q))),
      computeInitialValues = (\<lambda>q objects.
        or_else_try (on_fst (partialInitialValues P q objects)) (on_snd (computeInitialValues S q objects)))\<rparr>"

section \<open>The cache of answers\<close>

text \<open>
  A cache entry is the constraint manager and the canonical expression. Two entries are equal when
  the managers are and the expressions compare as equal, which for expressions is equality (the
  order is total); the hash only places an entry. \<^verbatim>\<open>insert\<close> of an \<^verbatim>\<open>unordered_map\<close> leaves an existing
  entry alone.
\<close>

type_synonym cache_map = "(query \<times> partial_validity) list"

definition canonicalizeQuery :: "klee_rt \<Rightarrow> expr \<Rightarrow> (expr \<times> bool) option" where
  "canonicalizeQuery R originalQuery =
     do { negatedQuery \<leftarrow> createIsZero R originalQuery;
          Some (if compare R originalQuery negatedQuery < 0 then (originalQuery, False) else (negatedQuery, True)) }"

definition cacheLookup :: "klee_rt \<Rightarrow> cache_map \<Rightarrow> query \<Rightarrow> partial_validity option option" where
  "cacheLookup R cache q =
     do { (canonicalQuery, negationUsed) \<leftarrow> canonicalizeQuery R (query_expr q);
          case map_of cache (withExpr q canonicalQuery) of
            None \<Rightarrow> Some None
          | Some pv \<Rightarrow>
              if negationUsed then do { npv \<leftarrow> negatePartialValidity pv; Some (Some npv) }
              else Some (Some pv) }"

definition cacheInsert :: "klee_rt \<Rightarrow> query \<Rightarrow> partial_validity \<Rightarrow> cache_map \<Rightarrow> cache_map option" where
  "cacheInsert R q result cache =
     do { (canonicalQuery, negationUsed) \<leftarrow> canonicalizeQuery R (query_expr q);
          cachedResult \<leftarrow> (if negationUsed then negatePartialValidity result else Some result);
          let ce = withExpr q canonicalQuery in
          Some (if map_of cache ce = None then (ce, cachedResult) # cache else cache) }"

definition insert_step :: "klee_rt \<Rightarrow> query \<Rightarrow> partial_validity \<Rightarrow> cache_map \<times> 's \<Rightarrow> unit answer \<times> cache_map \<times> 's" where
  "insert_step R q pv st =
     (case cacheInsert R q pv (fst st) of
        None \<Rightarrow> (Abort, st)
      | Some cache \<Rightarrow> (Answer (), cache, snd st))"

definition Caching_computeValidity ::
  "klee_rt \<Rightarrow> 's solver_impl \<Rightarrow> query \<Rightarrow> cache_map \<times> 's \<Rightarrow> validity answer \<times> cache_map \<times> 's" where
  "Caching_computeValidity R S q st =
     and_then (asserted (cacheLookup R (fst st) q)) (\<lambda>hit.
       case hit of
         Some MustBeTrue \<Rightarrow> answer VTrue
       | Some MustBeFalse \<Rightarrow> answer VFalse
       | Some TrueOrFalse \<Rightarrow> answer VUnknown
       | Some MayBeTrue \<Rightarrow>
           and_then (on_snd (computeTruth S q)) (\<lambda>tmp.
             if tmp then and_then (insert_step R q MustBeTrue) (\<lambda>_. answer VTrue)
             else and_then (insert_step R q TrueOrFalse) (\<lambda>_. answer VUnknown))
       | Some MayBeFalse \<Rightarrow>
           and_then (asserted (negateExpr R q)) (\<lambda>nq.
             and_then (on_snd (computeTruth S nq)) (\<lambda>tmp.
               if tmp then and_then (insert_step R q MustBeFalse) (\<lambda>_. answer VFalse)
               else and_then (insert_step R q TrueOrFalse) (\<lambda>_. answer VUnknown)))
       | Some PVNone \<Rightarrow> (\<lambda>st. (Abort, st))
       | None \<Rightarrow>
           and_then (on_snd (computeValidity S q)) (\<lambda>result.
             and_then (insert_step R q (case result of VTrue \<Rightarrow> MustBeTrue | VFalse \<Rightarrow> MustBeFalse | VUnknown \<Rightarrow> TrueOrFalse))
               (\<lambda>_. answer result))) st"

definition Caching_computeTruth ::
  "klee_rt \<Rightarrow> 's solver_impl \<Rightarrow> query \<Rightarrow> cache_map \<times> 's \<Rightarrow> bool answer \<times> cache_map \<times> 's" where
  "Caching_computeTruth R S q st =
     and_then (asserted (cacheLookup R (fst st) q)) (\<lambda>hit.
       if hit \<noteq> None \<and> hit \<noteq> Some MayBeTrue then answer (hit = Some MustBeTrue)
       else and_then (on_snd (computeTruth S q)) (\<lambda>isValid.
         and_then (insert_step R q
             (if isValid then MustBeTrue else if hit \<noteq> None then TrueOrFalse else MayBeFalse))
           (\<lambda>_. answer isValid))) st"

definition CachingSolver :: "klee_rt \<Rightarrow> 's solver_impl \<Rightarrow> (cache_map \<times> 's) solver_impl" where
  "CachingSolver R S =
     \<lparr>computeTruth = Caching_computeTruth R S,
      computeValidity = Caching_computeValidity R S,
      computeValue = (\<lambda>q. on_snd (computeValue S q)),
      computeInitialValues = (\<lambda>q objects. on_snd (computeInitialValues S q objects))\<rparr>"

section \<open>Checking a solver against an oracle\<close>

text \<open>
  The state holds the states of the solver, of the oracle and of the random number generator, whose
  next number is the parameter \<^verbatim>\<open>rand\<close>. \<^verbatim>\<open>VOTE_COUNT\<close> is 3.
\<close>

definition pick :: "('g \<Rightarrow> 32 word \<times> 'g) \<Rightarrow> bool \<Rightarrow> bool \<Rightarrow> 's \<times> 'o \<times> 'g \<Rightarrow> bool answer \<times> 's \<times> 'o \<times> 'g" where
  "pick rand res1 res2 st =
     (if res1 = res2 then (Answer res1, st)
      else case st of (s, o', g) \<Rightarrow>
        (case rand g of (x, g') \<Rightarrow> (Answer (if x AND 1 \<noteq> 0 then res1 else res2), s, o', g')))"

fun vote_truth ::
  "('g \<Rightarrow> 32 word \<times> 'g) \<Rightarrow> 's solver_impl \<Rightarrow> 'o solver_impl \<Rightarrow> query \<Rightarrow> nat \<Rightarrow> nat \<Rightarrow> nat
    \<Rightarrow> 's \<times> 'o \<times> 'g \<Rightarrow> (nat \<times> nat) answer \<times> 's \<times> 'o \<times> 'g" where
  "vote_truth rand S Orc q 0 trueCount falseCount = answer (trueCount, falseCount)"
| "vote_truth rand S Orc q (Suc n) trueCount falseCount =
     and_then (on_snd (on_fst (computeTruth Orc q))) (\<lambda>res1.
     and_then (on_fst (computeTruth S q)) (\<lambda>res2.
     and_then (pick rand res1 res2) (\<lambda>r.
       if r then vote_truth rand S Orc q n (trueCount + 1) falseCount
       else vote_truth rand S Orc q n trueCount (falseCount + 1))))"

definition Validating_computeTruth ::
  "('g \<Rightarrow> 32 word \<times> 'g) \<Rightarrow> 's solver_impl \<Rightarrow> 'o solver_impl \<Rightarrow> query \<Rightarrow> 's \<times> 'o \<times> 'g \<Rightarrow> bool answer \<times> 's \<times> 'o \<times> 'g" where
  "Validating_computeTruth rand S Orc q =
     and_then (vote_truth rand S Orc q 3 0 0) (\<lambda>(trueCount, falseCount). answer (trueCount > falseCount))"

text \<open>The vote on validity takes the answer of the solver, whatever the oracle says.\<close>

fun vote_validity ::
  "'s solver_impl \<Rightarrow> 'o solver_impl \<Rightarrow> query \<Rightarrow> nat \<Rightarrow> nat \<Rightarrow> nat \<Rightarrow> nat
    \<Rightarrow> 's \<times> 'o \<times> 'g \<Rightarrow> (nat \<times> nat \<times> nat) answer \<times> 's \<times> 'o \<times> 'g" where
  "vote_validity S Orc q 0 t f u = answer (t, f, u)"
| "vote_validity S Orc q (Suc n) t f u =
     and_then (on_fst (computeValidity S q)) (\<lambda>res1.
     and_then (on_snd (on_fst (computeValidity Orc q))) (\<lambda>res2.
       case res1 of
         VTrue \<Rightarrow> vote_validity S Orc q n (t + 1) f u
       | VFalse \<Rightarrow> vote_validity S Orc q n t (f + 1) u
       | VUnknown \<Rightarrow> vote_validity S Orc q n t f (u + 1)))"

definition majority :: "nat \<Rightarrow> nat \<Rightarrow> nat \<Rightarrow> validity option" where
  "majority trueCount falseCount unknownCount =
     (if trueCount > falseCount \<and> falseCount \<ge> unknownCount then Some VTrue
      else if trueCount > unknownCount \<and> unknownCount \<ge> falseCount then Some VTrue
      else if falseCount > trueCount \<and> trueCount \<ge> unknownCount then Some VFalse
      else if falseCount > unknownCount \<and> unknownCount \<ge> trueCount then Some VFalse
      else if unknownCount > falseCount \<and> falseCount \<ge> trueCount then Some VUnknown
      else if unknownCount > trueCount \<and> trueCount \<ge> falseCount then Some VUnknown
      else None)"

definition Validating_computeValidity ::
  "'s solver_impl \<Rightarrow> 'o solver_impl \<Rightarrow> query \<Rightarrow> 's \<times> 'o \<times> 'g \<Rightarrow> validity answer \<times> 's \<times> 'o \<times> 'g" where
  "Validating_computeValidity S Orc q =
     and_then (vote_validity S Orc q 3 0 0 0) (\<lambda>(t, f, u). asserted (majority t f u))"

definition Validating_computeValue ::
  "klee_rt \<Rightarrow> 's solver_impl \<Rightarrow> 'o solver_impl \<Rightarrow> query \<Rightarrow> 's \<times> 'o \<times> 'g \<Rightarrow> expr answer \<times> 's \<times> 'o \<times> 'g" where
  "Validating_computeValue R S Orc q =
     and_then (on_fst (computeValue S q)) (\<lambda>result.
     and_then (asserted (NeExpr_create R (query_expr q) result)) (\<lambda>ne.
     and_then (on_snd (on_fst (computeTruth Orc (withExpr q ne)))) (\<lambda>ans.
     and_then (asserted (require (\<not> ans))) (\<lambda>_. answer result))))"

section \<open>What partial answers mean\<close>

definition pv_ok :: "query \<Rightarrow> partial_validity \<Rightarrow> bool" where
  "pv_ok q pv \<longleftrightarrow>
     (case pv of
        MustBeTrue \<Rightarrow> must_be q
      | MustBeFalse \<Rightarrow> must_be_not q
      | MayBeTrue \<Rightarrow> \<not> must_be_not q
      | MayBeFalse \<Rightarrow> \<not> must_be q
      | TrueOrFalse \<Rightarrow> \<not> must_be q \<and> \<not> must_be_not q
      | PVNone \<Rightarrow> True)"

text \<open>
  The answer of \<^verbatim>\<open>computeTruth\<close> of an incomplete solver: \<^verbatim>\<open>MustBeTrue\<close> says that the query is valid, \<^verbatim>\<open>None\<close>
  says nothing, and everything else that it is not valid.
\<close>

definition partial_truth_ok :: "query \<Rightarrow> partial_validity \<Rightarrow> bool" where
  "partial_truth_ok q pv \<longleftrightarrow> (if pv = MustBeTrue then must_be q else pv = PVNone \<or> \<not> must_be q)"

definition incomplete_ok :: "('p \<Rightarrow> bool) \<Rightarrow> 'p incomplete_solver \<Rightarrow> bool" where
  "incomplete_ok J P \<longleftrightarrow> (\<forall>q p objects. J p \<longrightarrow>
     (bool_query q \<longrightarrow> outcome_ok True J (partial_truth_ok q) (partialTruth P q p)
        \<and> outcome_ok True J (pv_ok q) (partialValidity P q p)
        \<and> outcome_ok False J (initial_ok q objects) (partialInitialValues P q objects p))
     \<and> (query_ok q \<longrightarrow> outcome_ok False J (value_ok q) (partialValue P q p)))"

lemma outcome_on_fst: "outcome_ok l I P (f (fst st)) \<Longrightarrow> J (snd st) \<Longrightarrow> outcome_ok l (\<lambda>(a, b). I a \<and> J b) P (on_fst f st)"
  by (auto simp: outcome_ok_def on_fst_def split: prod.splits)

lemma outcome_on_snd: "outcome_ok l J P (f (snd st)) \<Longrightarrow> I (fst st) \<Longrightarrow> outcome_ok l (\<lambda>(a, b). I a \<and> J b) P (on_snd f st)"
  by (auto simp: outcome_ok_def on_snd_def split: prod.splits)

lemma outcome_weaken: "outcome_ok True I P x \<Longrightarrow> outcome_ok l I P x"
  by (simp add: outcome_ok_def)

lemma outcome_False: "outcome_ok l I P x \<Longrightarrow> outcome_ok False I P x"
  by (simp add: outcome_ok_def)

lemma outcome_or_else:
  assumes "outcome_ok False I P (f s)" and "\<And>s'. I s' \<Longrightarrow> outcome_ok l I P (g s')"
  shows "outcome_ok l I P (or_else_try f g s)"
  using assms by (cases "f s"; cases "fst (f s)") (auto simp: outcome_ok_def or_else_try_def)

context klee_rt_laws
begin

lemma valid_not_both: "bool_query q \<Longrightarrow> \<not> (must_be q \<and> must_be_not q)"
  by (auto simp: bool_query_def query_ok_def must_be_def must_be_not_def)

lemma default_partial_validity:
  assumes truth: "\<And>q p. bool_query q \<Longrightarrow> J p \<Longrightarrow> outcome_ok l J (partial_truth_ok q) (truth q p)"
    and "bool_query q" and "J p"
  shows "outcome_ok l J (pv_ok q) (IncompleteSolver_computeValidity R truth q p)"
  unfolding IncompleteSolver_computeValidity_def
proof (rule outcome_and_then, rule truth [OF assms(2,3)])
  fix tr p1 assume tr: "partial_truth_ok q tr" and p1: "J p1"
  obtain nq where nq: "negateExpr R q = Some nq" "bool_query nq" "must_be nq = must_be_not q"
    using negateExpr_total [OF assms(2)] .
  have rest: "outcome_ok l J (pv_ok q) (and_then (truth nq) (\<lambda>fr. if fr = MustBeTrue then answer MustBeFalse
      else (let trueCorrect = (tr \<noteq> PVNone); falseCorrect = (fr \<noteq> PVNone) in
             if trueCorrect \<and> falseCorrect then answer TrueOrFalse
             else if trueCorrect then answer MayBeFalse
             else if falseCorrect then answer MayBeTrue
             else answer PVNone)) p1)" if "tr \<noteq> MustBeTrue"
    by (rule outcome_and_then, rule truth [OF nq(2) p1])
      (use tr that nq(3) in \<open>auto simp: Let_def pv_ok_def partial_truth_ok_def split: if_splits\<close>)
  show "outcome_ok l J (pv_ok q) ((if tr = MustBeTrue then answer MustBeTrue
      else and_then (asserted (negateExpr R q)) (\<lambda>nq. and_then (truth nq) (\<lambda>fr. if fr = MustBeTrue then answer MustBeFalse
      else (let trueCorrect = (tr \<noteq> PVNone); falseCorrect = (fr \<noteq> PVNone) in
             if trueCorrect \<and> falseCorrect then answer TrueOrFalse
             else if trueCorrect then answer MayBeFalse
             else if falseCorrect then answer MayBeTrue
             else answer PVNone)))) p1)"
    using rest tr p1 nq(1) by (auto simp: pv_ok_def partial_truth_ok_def)
qed

end

section \<open>The staged solver meets the contract\<close>

context solver_contract
begin

text \<open>The wrapped solver, run on its part of the state.\<close>

lemma on_snd_ok:
  assumes "J (fst st)" and "sinv (snd st)"
  shows "bool_query q \<Longrightarrow> outcome_ok live (\<lambda>(p, s). J p \<and> sinv s) (\<lambda>b. b = must_be q) (on_snd (computeTruth S q) st)"
    and "bool_query q \<Longrightarrow> outcome_ok live (\<lambda>(p, s). J p \<and> sinv s) (\<lambda>v. v = validity_of q) (on_snd (computeValidity S q) st)"
    and "query_ok q \<Longrightarrow> outcome_ok False (\<lambda>(p, s). J p \<and> sinv s) (value_ok q) (on_snd (computeValue S q) st)"
    and "bool_query q \<Longrightarrow> outcome_ok False (\<lambda>(p, s). J p \<and> sinv s) (initial_ok q objects) (on_snd (computeInitialValues S q objects) st)"
  using assms by (auto intro!: outcome_on_snd truth_ok validity_ok valuation_ok refutation_ok)

lemma staged_truth:
  assumes "incomplete_ok J P" and "J p" and "sinv s" and "bool_query q"
  shows "outcome_ok live (\<lambda>(p, s). J p \<and> sinv s) (\<lambda>b. b = must_be q) (Staged_computeTruth P S q (p, s))"
  unfolding Staged_computeTruth_def
proof (rule outcome_and_then, rule outcome_on_fst [where P = "partial_truth_ok q"])
  show "outcome_ok live J (partial_truth_ok q) (partialTruth P q (fst (p, s)))"
    using assms by (auto simp: incomplete_ok_def intro: outcome_weaken)
  show "sinv (snd (p, s))" using assms by simp
  fix tr st assume tr: "partial_truth_ok q tr" and st: "case st of (p, s) \<Rightarrow> J p \<and> sinv s"
  show "outcome_ok live (\<lambda>(p, s). J p \<and> sinv s) (\<lambda>b. b = must_be q)
     ((if tr \<noteq> PVNone then answer (tr = MustBeTrue) else on_snd (computeTruth S q)) st)"
    using tr st assms(4) on_snd_ok(1) [of J st q] by (auto simp: partial_truth_ok_def split: if_splits)
qed

lemma staged_validity:
  assumes "incomplete_ok J P" and "J p" and "sinv s" and "bool_query q"
  shows "outcome_ok live (\<lambda>(p, s). J p \<and> sinv s) (\<lambda>v. v = validity_of q) (Staged_computeValidity R P S q (p, s))"
  unfolding Staged_computeValidity_def
proof (rule outcome_and_then, rule outcome_on_fst [where P = "pv_ok q"])
  show "outcome_ok live J (pv_ok q) (partialValidity P q (fst (p, s)))"
    using assms by (auto simp: incomplete_ok_def intro: outcome_weaken)
  show "sinv (snd (p, s))" using assms by simp
  fix pv st assume pv: "pv_ok q pv" and st: "case st of (p, s) \<Rightarrow> J p \<and> sinv s"
  obtain nq where nq: "negateExpr R q = Some nq" "bool_query nq" "must_be nq = must_be_not q"
    using negateExpr_total [OF assms(4)] .
  have t: "outcome_ok live (\<lambda>(p, s). J p \<and> sinv s) (\<lambda>b. b = must_be q') (on_snd (computeTruth S q') st)" if "bool_query q'" for q'
    using on_snd_ok(1) [of J st q'] st that by auto
  note both = valid_not_both [OF assms(4)]
  show "outcome_ok live (\<lambda>(p, s). J p \<and> sinv s) (\<lambda>v. v = validity_of q) ((case pv of
         MustBeTrue \<Rightarrow> answer VTrue
       | MustBeFalse \<Rightarrow> answer VFalse
       | TrueOrFalse \<Rightarrow> answer VUnknown
       | MayBeTrue \<Rightarrow> and_then (on_snd (computeTruth S q)) (\<lambda>tmp. answer (if tmp then VTrue else VUnknown))
       | MayBeFalse \<Rightarrow> and_then (asserted (negateExpr R q)) (\<lambda>nq.
             and_then (on_snd (computeTruth S nq)) (\<lambda>tmp. answer (if tmp then VFalse else VUnknown)))
       | PVNone \<Rightarrow> on_snd (computeValidity S q)) st)"
  proof (cases pv)
    case MayBeTrue
    have "outcome_ok live (\<lambda>(p, s). J p \<and> sinv s) (\<lambda>v. v = validity_of q)
        (and_then (on_snd (computeTruth S q)) (\<lambda>tmp. answer (if tmp then VTrue else VUnknown)) st)"
      by (rule outcome_and_then, rule t [OF assms(4)]) (use pv MayBeTrue in \<open>auto simp: pv_ok_def validity_of_def\<close>)
    with MayBeTrue show ?thesis by simp
  next
    case MayBeFalse
    have "outcome_ok live (\<lambda>(p, s). J p \<and> sinv s) (\<lambda>v. v = validity_of q)
        (and_then (on_snd (computeTruth S nq)) (\<lambda>tmp. answer (if tmp then VFalse else VUnknown)) st)"
      by (rule outcome_and_then, rule t [OF nq(2)]) (use pv MayBeFalse nq(3) in \<open>auto simp: pv_ok_def validity_of_def\<close>)
    with MayBeFalse nq(1) show ?thesis by simp
  next
    case PVNone
    with on_snd_ok(2) [of J st q] st assms(4) show ?thesis by auto
  qed (use pv st both in \<open>auto simp: pv_ok_def validity_of_def\<close>)
qed

lemma staged_contract:
  assumes "incomplete_ok J P"
  shows "solver_contract R (StagedSolver R P S) (\<lambda>(p, s). J p \<and> sinv s) live"
proof (intro solver_contract.intro solver_contract_axioms.intro klee_rt_laws_axioms; clarsimp simp: StagedSolver_def)
  fix q and p :: 'a and s :: 's
  assume i: "J p" "sinv s"
  show "outcome_ok live (\<lambda>(p, s). J p \<and> sinv s) (\<lambda>b. b = must_be q) (Staged_computeTruth P S q (p, s))" if "bool_query q"
    using staged_truth [OF assms i that] .
  show "outcome_ok live (\<lambda>(p, s). J p \<and> sinv s) (\<lambda>v. v = validity_of q) (Staged_computeValidity R P S q (p, s))" if "bool_query q"
    using staged_validity [OF assms i that] .
  show "outcome_ok False (\<lambda>(p, s). J p \<and> sinv s) (value_ok q) (or_else_try (on_fst (partialValue P q)) (on_snd (computeValue S q)) (p, s))"
    if "query_ok q"
    by (rule outcome_or_else, rule outcome_on_fst)
      (use assms i that on_snd_ok(3) [of J _ q] in \<open>auto simp: incomplete_ok_def\<close>)
  show "outcome_ok False (\<lambda>(p, s). J p \<and> sinv s) (initial_ok q objects)
      (or_else_try (on_fst (partialInitialValues P q objects)) (on_snd (computeInitialValues S q objects)) (p, s))"
    if "bool_query q" for objects
    by (rule outcome_or_else, rule outcome_on_fst)
      (use assms i that on_snd_ok(4) [of J _ q objects] in \<open>auto simp: incomplete_ok_def\<close>)
qed

end

section \<open>The cache meets the contract\<close>

text \<open>Every entry of the cache holds of the canonical query it is filed under.\<close>

definition cache_ok :: "cache_map \<Rightarrow> bool" where
  "cache_ok cache \<longleftrightarrow> (\<forall>(q, pv)\<in>set cache. bool_query q \<and> pv_ok q pv \<and> pv \<noteq> PVNone)"

definition caching_inv :: "('s \<Rightarrow> bool) \<Rightarrow> cache_map \<times> 's \<Rightarrow> bool" where
  "caching_inv I = (\<lambda>(cache, s). cache_ok cache \<and> I s)"

lemma negate_pv_ok:
  assumes "must_be nq = must_be_not q" and "must_be_not nq = must_be q" and "pv \<noteq> PVNone"
  shows "\<exists>npv. negatePartialValidity pv = Some npv \<and> npv \<noteq> PVNone \<and> pv_ok nq npv = pv_ok q pv"
  using assms by (cases pv) (auto simp: negatePartialValidity_def pv_ok_def)

context klee_rt_laws
begin

lemma canonical_query:
  assumes "bool_query q"
  obtains e n where "canonicalizeQuery R (query_expr q) = Some (e, n)" and "bool_query (withExpr q e)"
    and "if n then must_be (withExpr q e) = must_be_not q \<and> must_be_not (withExpr q e) = must_be q else withExpr q e = q"
proof -
  obtain nq where nq: "bool_query nq" "must_be nq = must_be_not q" "must_be_not nq = must_be q"
    "createIsZero R (query_expr q) = Some (query_expr nq)" "nq = withExpr q (query_expr nq)"
    using negateExpr_total [OF assms] by metis
  show ?thesis
  proof (cases "compare R (query_expr q) (query_expr nq) < 0")
    case True
    with nq assms show ?thesis by (intro that [of "query_expr q" False]) (auto simp: canonicalizeQuery_def withExpr_def)
  next
    case False
    with nq show ?thesis by (intro that [of "query_expr nq" True]) (auto simp: canonicalizeQuery_def)
  qed
qed

lemma cacheLookup_ok:
  assumes "cache_ok cache" and "bool_query q"
  shows "\<exists>hit. cacheLookup R cache q = Some hit \<and> (\<forall>pv. hit = Some pv \<longrightarrow> pv_ok q pv \<and> pv \<noteq> PVNone)"
proof -
  obtain e n where e: "canonicalizeQuery R (query_expr q) = Some (e, n)" "bool_query (withExpr q e)"
    "if n then must_be (withExpr q e) = must_be_not q \<and> must_be_not (withExpr q e) = must_be q else withExpr q e = q"
    using canonical_query [OF assms(2)] .
  show ?thesis
  proof (cases "map_of cache (withExpr q e)")
    case None
    with e show ?thesis by (simp add: cacheLookup_def)
  next
    case (Some pv)
    then have pv: "pv_ok (withExpr q e) pv" "pv \<noteq> PVNone"
      using assms(1) by (auto simp: cache_ok_def dest: map_of_SomeD)
    show ?thesis
    proof (cases n)
      case True
      obtain npv where "negatePartialValidity pv = Some npv" "npv \<noteq> PVNone" "pv_ok q npv = pv_ok (withExpr q e) pv"
        using negate_pv_ok [of q "withExpr q e" pv] e(3) True pv(2) by auto
      with e True Some pv show ?thesis by (simp add: cacheLookup_def)
    next
      case False
      with e Some pv show ?thesis by (simp add: cacheLookup_def)
    qed
  qed
qed

lemma cacheInsert_ok:
  assumes "cache_ok cache" and "bool_query q" and "pv_ok q pv" and "pv \<noteq> PVNone"
  shows "\<exists>cache'. cacheInsert R q pv cache = Some cache' \<and> cache_ok cache'"
proof -
  obtain e n where e: "canonicalizeQuery R (query_expr q) = Some (e, n)" "bool_query (withExpr q e)"
    "if n then must_be (withExpr q e) = must_be_not q \<and> must_be_not (withExpr q e) = must_be q else withExpr q e = q"
    using canonical_query [OF assms(2)] .
  have "\<exists>cpv. (if n then negatePartialValidity pv else Some pv) = Some cpv \<and> cpv \<noteq> PVNone \<and> pv_ok (withExpr q e) cpv"
    using negate_pv_ok [of "withExpr q e" q pv] e(3) assms(3,4) by (cases n) auto
  then obtain cpv where "(if n then negatePartialValidity pv else Some pv) = Some cpv" "cpv \<noteq> PVNone" "pv_ok (withExpr q e) cpv"
    by blast
  with e assms(1) show ?thesis by (auto simp: cacheInsert_def cache_ok_def Let_def)
qed

end

context solver_contract
begin

lemma insert_then_answer:
  assumes "caching_inv sinv st" and "bool_query q" and "pv_ok q pv" and "pv \<noteq> PVNone" and "Q a"
  shows "outcome_ok live (caching_inv sinv) Q (and_then (insert_step R q pv) (\<lambda>_. answer a) st)"
proof -
  obtain cache' where "cacheInsert R q pv (fst st) = Some cache'" "cache_ok cache'"
    using cacheInsert_ok [of "fst st" q pv] assms by (auto simp: caching_inv_def split: prod.splits)
  with assms(1,5) show ?thesis
    by (auto simp: outcome_ok_def and_then_def insert_step_def answer_def caching_inv_def split: prod.splits)
qed

lemma cached_on_snd:
  assumes "caching_inv sinv st"
  shows "bool_query q \<Longrightarrow> outcome_ok live (caching_inv sinv) (\<lambda>b. b = must_be q) (on_snd (computeTruth S q) st)"
    and "bool_query q \<Longrightarrow> outcome_ok live (caching_inv sinv) (\<lambda>v. v = validity_of q) (on_snd (computeValidity S q) st)"
    and "query_ok q \<Longrightarrow> outcome_ok False (caching_inv sinv) (value_ok q) (on_snd (computeValue S q) st)"
    and "bool_query q \<Longrightarrow> outcome_ok False (caching_inv sinv) (initial_ok q objects) (on_snd (computeInitialValues S q objects) st)"
  using assms on_snd_ok [of cache_ok st] unfolding caching_inv_def by (auto split: prod.splits)

lemma caching_truth:
  assumes "caching_inv sinv st" and "bool_query q"
  shows "outcome_ok live (caching_inv sinv) (\<lambda>b. b = must_be q) (Caching_computeTruth R S q st)"
proof -
  obtain hit where hit: "cacheLookup R (fst st) q = Some hit" "\<And>pv. hit = Some pv \<Longrightarrow> pv_ok q pv \<and> pv \<noteq> PVNone"
    using cacheLookup_ok [of "fst st" q] assms by (auto simp: caching_inv_def split: prod.splits)
  show ?thesis
  proof (cases "hit \<noteq> None \<and> hit \<noteq> Some MayBeTrue")
    case True
    then obtain pv where pv: "hit = Some pv" "pv \<noteq> MayBeTrue" by auto
    have "(pv = MustBeTrue) = must_be q"
      using hit(2) [OF pv(1)] pv(2) valid_not_both [OF assms(2)] by (cases pv) (auto simp: pv_ok_def)
    with True pv hit assms(1) show ?thesis by (simp add: Caching_computeTruth_def)
  next
    case False
    have "outcome_ok live (caching_inv sinv) (\<lambda>b. b = must_be q) (and_then (on_snd (computeTruth S q)) (\<lambda>isValid.
         and_then (insert_step R q (if isValid then MustBeTrue else if hit \<noteq> None then TrueOrFalse else MayBeFalse))
           (\<lambda>_. answer isValid)) st)"
      by (rule outcome_and_then, rule cached_on_snd(1) [OF assms], rule insert_then_answer)
        (use False assms(2) hit(2) in \<open>auto simp: pv_ok_def\<close>)
    with False hit(1) show ?thesis by (auto simp: Caching_computeTruth_def)
  qed
qed

lemma caching_validity:
  assumes "caching_inv sinv st" and "bool_query q"
  shows "outcome_ok live (caching_inv sinv) (\<lambda>v. v = validity_of q) (Caching_computeValidity R S q st)"
proof -
  obtain hit where hit: "cacheLookup R (fst st) q = Some hit" "\<And>pv. hit = Some pv \<Longrightarrow> pv_ok q pv \<and> pv \<noteq> PVNone"
    using cacheLookup_ok [of "fst st" q] assms by (auto simp: caching_inv_def split: prod.splits)
  note both = valid_not_both [OF assms(2)]
  obtain nq where nq: "negateExpr R q = Some nq" "bool_query nq" "must_be nq = must_be_not q"
    using negateExpr_total [OF assms(2)] .
  consider (miss) "hit = None" | (t) "hit = Some MayBeTrue" | (f) "hit = Some MayBeFalse"
    | (sure) pv where "hit = Some pv" "pv \<in> {MustBeTrue, MustBeFalse, TrueOrFalse}"
    using hit(2) by (cases hit) (auto, metis partial_validity.exhaust)
  then show ?thesis
  proof cases
    case miss
    have "outcome_ok live (caching_inv sinv) (\<lambda>v. v = validity_of q) (and_then (on_snd (computeValidity S q)) (\<lambda>result.
        and_then (insert_step R q (case result of VTrue \<Rightarrow> MustBeTrue | VFalse \<Rightarrow> MustBeFalse | VUnknown \<Rightarrow> TrueOrFalse))
          (\<lambda>_. answer result)) st)"
      by (rule outcome_and_then, rule cached_on_snd(2) [OF assms], rule insert_then_answer)
        (use assms(2) in \<open>auto simp: pv_ok_def validity_of_def split: if_splits validity.splits\<close>)
    with miss hit(1) show ?thesis by (simp add: Caching_computeValidity_def)
  next
    case t
    have "outcome_ok live (caching_inv sinv) (\<lambda>v. v = validity_of q) (and_then (on_snd (computeTruth S q)) (\<lambda>tmp.
             if tmp then and_then (insert_step R q MustBeTrue) (\<lambda>_. answer VTrue)
             else and_then (insert_step R q TrueOrFalse) (\<lambda>_. answer VUnknown)) st)"
      by (rule outcome_and_then, rule cached_on_snd(1) [OF assms])
        (use assms(2) hit(2) [OF t] in \<open>auto intro!: insert_then_answer simp: pv_ok_def validity_of_def\<close>)
    with t hit(1) show ?thesis by (simp add: Caching_computeValidity_def)
  next
    case f
    have "outcome_ok live (caching_inv sinv) (\<lambda>v. v = validity_of q) (and_then (on_snd (computeTruth S nq)) (\<lambda>tmp.
             if tmp then and_then (insert_step R q MustBeFalse) (\<lambda>_. answer VFalse)
             else and_then (insert_step R q TrueOrFalse) (\<lambda>_. answer VUnknown)) st)"
      by (rule outcome_and_then, rule cached_on_snd(1) [OF assms(1) nq(2)])
        (use assms(2) hit(2) [OF f] nq(3) in \<open>auto intro!: insert_then_answer simp: pv_ok_def validity_of_def\<close>)
    with f hit(1) nq(1) show ?thesis by (simp add: Caching_computeValidity_def)
  next
    case sure
    with hit assms(1) both show ?thesis by (auto simp: Caching_computeValidity_def pv_ok_def validity_of_def)
  qed
qed

lemma caching_contract: "solver_contract R (CachingSolver R S) (caching_inv sinv) live"
  by unfold_locales (simp_all add: CachingSolver_def caching_truth caching_validity cached_on_snd)

end

interpretation cached_ideal: solver_contract klee_rt_ref "CachingSolver klee_rt_ref (ideal_solver :: unit solver_impl)"
  "caching_inv (\<lambda>_. True)" True
  by (rule ideal.caching_contract)

section \<open>Two correct solvers agree\<close>

text \<open>A vote between two solvers that meet the contract is unanimous.\<close>

definition both_inv :: "('s \<Rightarrow> bool) \<Rightarrow> ('o \<Rightarrow> bool) \<Rightarrow> 's \<times> 'o \<times> 'g \<Rightarrow> bool" where
  "both_inv I J = (\<lambda>(s, o', g). I s \<and> J o')"

lemma outcome_solver: "both_inv I J st \<Longrightarrow> outcome_ok l I P (f (fst st)) \<Longrightarrow> outcome_ok l (both_inv I J) P (on_fst f st)"
  by (auto simp: outcome_ok_def on_fst_def both_inv_def split: prod.splits)

lemma outcome_oracle: "both_inv I J st \<Longrightarrow> outcome_ok l J P (f (fst (snd st))) \<Longrightarrow> outcome_ok l (both_inv I J) P (on_snd (on_fst f) st)"
  by (auto simp: outcome_ok_def on_fst_def on_snd_def both_inv_def split: prod.splits)

lemma pick_same: "outcome_ok l K Q (pick rand b b st) \<longleftrightarrow> K st \<and> Q b"
  by (auto simp: pick_def outcome_ok_def)

lemma vote_truth_unanimous:
  fixes S :: "'s solver_impl" and Orc :: "'o solver_impl" and st :: "'s \<times> 'o \<times> 'g"
  assumes "solver_contract R S I l" and "solver_contract R Orc J l" and "bool_query q"
  shows "both_inv I J st \<Longrightarrow> outcome_ok l (both_inv I J)
    (\<lambda>(t, f). t = trueCount + (if must_be q then n else 0) \<and> f = falseCount + (if must_be q then 0 else n))
    (vote_truth rand S Orc q n trueCount falseCount st)"
proof (induction n arbitrary: trueCount falseCount st)
  case (Suc n)
  have st: "I (fst st)" "J (fst (snd st))" if "both_inv I J st" for st using that by (auto simp: both_inv_def split: prod.splits)
  show ?case
    unfolding vote_truth.simps
  proof (rule outcome_and_then, rule outcome_oracle, rule Suc.prems, rule solver_contract.truth_ok [OF assms(2) st(2) [OF Suc.prems] assms(3)])
    fix res1 and st1 :: "'s \<times> 'o \<times> 'g" assume r1: "res1 = must_be q" and i1: "both_inv I J st1"
    show "outcome_ok l (both_inv I J)
      (\<lambda>(t, f). t = trueCount + (if must_be q then Suc n else 0) \<and> f = falseCount + (if must_be q then 0 else Suc n))
      (and_then (on_fst (computeTruth S q)) (\<lambda>res2. and_then (pick rand res1 res2) (\<lambda>r.
       if r then vote_truth rand S Orc q n (trueCount + 1) falseCount
       else vote_truth rand S Orc q n trueCount (falseCount + 1))) st1)"
    proof (rule outcome_and_then, rule outcome_solver, rule i1, rule solver_contract.truth_ok [OF assms(1) st(1) [OF i1] assms(3)])
      fix res2 and st2 :: "'s \<times> 'o \<times> 'g" assume r2: "res2 = must_be q" and i2: "both_inv I J st2"
      show "outcome_ok l (both_inv I J)
        (\<lambda>(t, f). t = trueCount + (if must_be q then Suc n else 0) \<and> f = falseCount + (if must_be q then 0 else Suc n))
        (and_then (pick rand res1 res2) (\<lambda>r. if r then vote_truth rand S Orc q n (trueCount + 1) falseCount
          else vote_truth rand S Orc q n trueCount (falseCount + 1)) st2)"
        by (rule outcome_and_then [where P = "\<lambda>r. r = must_be q"])
          (use r1 r2 i2 Suc.IH [where trueCount = "trueCount + 1" and falseCount = falseCount]
            Suc.IH [where trueCount = trueCount and falseCount = "falseCount + 1"] in \<open>auto simp: pick_same\<close>)
    qed
  qed
qed simp

lemma vote_validity_unanimous:
  fixes S :: "'s solver_impl" and Orc :: "'o solver_impl" and st :: "'s \<times> 'o \<times> 'g"
  assumes "solver_contract R S I l" and "solver_contract R Orc J l" and "bool_query q"
  shows "both_inv I J st \<Longrightarrow> outcome_ok l (both_inv I J)
    (\<lambda>(t', f', u'). t' = t + (if validity_of q = VTrue then n else 0) \<and> f' = f + (if validity_of q = VFalse then n else 0)
       \<and> u' = u + (if validity_of q = VUnknown then n else 0))
    (vote_validity S Orc q n t f u st)"
proof (induction n arbitrary: t f u st)
  case (Suc n)
  have st: "I (fst st)" "J (fst (snd st))" if "both_inv I J st" for st using that by (auto simp: both_inv_def split: prod.splits)
  show ?case
    unfolding vote_validity.simps
  proof (rule outcome_and_then, rule outcome_solver, rule Suc.prems, rule solver_contract.validity_ok [OF assms(1) st(1) [OF Suc.prems] assms(3)])
    fix res1 and st1 :: "'s \<times> 'o \<times> 'g" assume r1: "res1 = validity_of q" and i1: "both_inv I J st1"
    show "outcome_ok l (both_inv I J)
      (\<lambda>(t', f', u'). t' = t + (if validity_of q = VTrue then Suc n else 0) \<and> f' = f + (if validity_of q = VFalse then Suc n else 0)
       \<and> u' = u + (if validity_of q = VUnknown then Suc n else 0))
      (and_then (on_snd (on_fst (computeValidity Orc q))) (\<lambda>res2. case res1 of
         VTrue \<Rightarrow> vote_validity S Orc q n (t + 1) f u
       | VFalse \<Rightarrow> vote_validity S Orc q n t (f + 1) u
       | VUnknown \<Rightarrow> vote_validity S Orc q n t f (u + 1)) st1)"
      by (rule outcome_and_then, rule outcome_oracle, rule i1, rule solver_contract.validity_ok [OF assms(2) st(2) [OF i1] assms(3)])
        (use r1 Suc.IH [where t = "t + 1" and f = f and u = u] Suc.IH [where t = t and f = "f + 1" and u = u]
          Suc.IH [where t = t and f = f and u = "u + 1"] in \<open>auto split: validity.splits\<close>)
  qed
qed simp

lemma validating_truth:
  assumes "solver_contract R S I l" and "solver_contract R Orc J l" and "bool_query q" and "both_inv I J st"
  shows "outcome_ok l (both_inv I J) (\<lambda>b. b = must_be q) (Validating_computeTruth rand S Orc q st)"
  unfolding Validating_computeTruth_def
  by (rule outcome_and_then, rule vote_truth_unanimous [OF assms]) (auto split: if_splits)

lemma validating_validity:
  assumes "solver_contract R S I l" and "solver_contract R Orc J l" and "bool_query q" and "both_inv I J st"
  shows "outcome_ok l (both_inv I J) (\<lambda>v. v = validity_of q) (Validating_computeValidity S Orc q st)"
  unfolding Validating_computeValidity_def
  by (rule outcome_and_then, rule vote_validity_unanimous [OF assms])
    (cases "validity_of q"; auto simp: majority_def asserted_def outcome_ok_def)

lemma validating_value:
  fixes S :: "'s solver_impl" and Orc :: "'o solver_impl" and st :: "'s \<times> 'o \<times> 'g"
  assumes "solver_contract R S I l" and "solver_contract R Orc J l" and "query_ok q" and "query_safe q" and "both_inv I J st"
  shows "outcome_ok False (both_inv I J) (value_ok q) (Validating_computeValue R S Orc q st)"
  unfolding Validating_computeValue_def
proof (rule outcome_and_then, rule outcome_solver, rule assms(5), rule solver_contract.valuation_ok [OF assms(1) _ assms(3)])
  show "I (fst st)" using assms(5) by (auto simp: both_inv_def split: prod.splits)
  fix result and st1 :: "'s \<times> 'o \<times> 'g" assume v: "value_ok q result" and i: "both_inv I J st1"
  have R: "klee_rt_laws R" using assms(1) by (rule solver_contract.axioms)
  have e: "wt (query_expr q)" "narrow (query_expr q)" using assms(3) by (auto simp: query_ok_def)
  from v obtain c where c: "result = ConstantExpr c" "ap_wf c" "getBitWidth c = getWidth (query_expr q)" "apValue c \<in> feasible q"
    by (auto simp: value_ok_def)
  have r: "wt result" "narrow result" "getWidth (query_expr q) = getWidth result" "divisor_ok Ne result"
    using c narrow_width [OF e(2)] by (auto simp: divisor_ok_def)
  obtain ne where ne: "NeExpr_create R (query_expr q) result = Some ne" "narrow ne"
    using klee_rt_laws.Binary_create_total [OF R e(1) r(1) e(2) r(2-4)] by auto
  have sem: "refines_on (binary_cond Ne (query_expr q) result) Bool (\<lambda>\<sigma>. of_bool (eval \<sigma> (query_expr q) \<noteq> apValue c)) ne"
    using klee_rt_laws.Binary_create_refines [OF R e(1) r(1,4), of ne] ne(1) c(1) by (simp add: is_cmp_def)
  have q: "bool_query (withExpr q ne)" using sem assms(3) ne(2) by (auto simp: bool_query_def query_ok_def withExpr_def refines_on_def)
  obtain \<sigma> where \<sigma>: "sat \<sigma> (constraints q)" "eval \<sigma> (query_expr q) = apValue c" using c(4) by (auto simp: feasible_def)
  have "eval \<sigma> ne = 0" using sem \<sigma> assms(4) c(1) by (auto simp: refines_on_def binary_cond_def eq_cond_def query_safe_def)
  with \<sigma>(1) have no: "\<not> must_be (withExpr q ne)" by (auto simp: must_be_def withExpr_def)
  have J: "J (fst (snd st1))" using i by (auto simp: both_inv_def split: prod.splits)
  have "outcome_ok False (both_inv I J) (value_ok q) (and_then (on_snd (on_fst (computeTruth Orc (withExpr q ne)))) (\<lambda>ans.
     and_then (asserted (require (\<not> ans))) (\<lambda>_. answer result)) st1)"
    by (rule outcome_and_then, rule outcome_oracle, rule i, rule outcome_False, rule solver_contract.truth_ok [OF assms(2) J q])
      (use no v in auto)
  then show "outcome_ok False (both_inv I J) (value_ok q) (and_then (asserted (NeExpr_create R (query_expr q) result)) (\<lambda>ne.
     and_then (on_snd (on_fst (computeTruth Orc (withExpr q ne)))) (\<lambda>ans.
     and_then (asserted (require (\<not> ans))) (\<lambda>_. answer result))) st1)"
    using ne(1) by simp
qed

section \<open>Sessions\<close>

text \<open>A client asks a solver one question after the other; the state is carried along.\<close>

datatype ask = AskTruth (asked_query: query) | AskValidity (asked_query: query)

fun session :: "'s solver_impl \<Rightarrow> ask list \<Rightarrow> 's \<Rightarrow> (bool answer + validity answer) list" where
  "session S [] s = []"
| "session S (AskTruth q # asks) s = (case computeTruth S q s of (r, s') \<Rightarrow> Inl r # session S asks s')"
| "session S (AskValidity q # asks) s = (case computeValidity S q s of (r, s') \<Rightarrow> Inr r # session S asks s')"

fun reply_ok :: "bool \<Rightarrow> ask \<Rightarrow> bool answer + validity answer \<Rightarrow> bool" where
  "reply_ok live (AskTruth q) (Inl r) \<longleftrightarrow> r \<noteq> Abort \<and> (live \<longrightarrow> r \<noteq> Fail) \<and> (\<forall>b. r = Answer b \<longrightarrow> b = must_be q)"
| "reply_ok live (AskValidity q) (Inr r) \<longleftrightarrow> r \<noteq> Abort \<and> (live \<longrightarrow> r \<noteq> Fail) \<and> (\<forall>v. r = Answer v \<longrightarrow> v = validity_of q)"
| "reply_ok live _ _ \<longleftrightarrow> False"

lemma session_ok:
  assumes "solver_contract R S I live"
  shows "I s \<Longrightarrow> \<forall>a\<in>set asks. bool_query (asked_query a) \<Longrightarrow> list_all2 (reply_ok live) asks (session S asks s)"
proof (induction asks arbitrary: s)
  case (Cons a asks)
  show ?case
  proof (cases a)
    case (AskTruth q)
    then have "outcome_ok live I (\<lambda>b. b = must_be q) (computeTruth S q s)"
      using solver_contract.truth_ok [OF assms] Cons.prems by simp
    with AskTruth Cons show ?thesis by (auto simp: outcome_ok_def split: prod.splits)
  next
    case (AskValidity q)
    then have "outcome_ok live I (\<lambda>v. v = validity_of q) (computeValidity S q s)"
      using solver_contract.validity_ok [OF assms] Cons.prems by simp
    with AskValidity Cons show ?thesis by (auto simp: outcome_ok_def split: prod.splits)
  qed
qed simp

text \<open>An entry that is already in the cache is not replaced, even by a more precise one.\<close>

lemma cacheInsert_keeps:
  assumes "canonicalizeQuery R (query_expr q) = Some (e, n)" and "map_of cache (withExpr q e) \<noteq> None" and "pv \<noteq> PVNone"
  shows "cacheInsert R q pv cache = Some cache"
  using assms by (cases pv) (auto simp: cacheInsert_def negatePartialValidity_def)

definition silent_stage :: "klee_rt \<Rightarrow> unit incomplete_solver" where
  "silent_stage R =
     \<lparr>partialTruth = (\<lambda>q. answer PVNone), partialValidity = IncompleteSolver_computeValidity R (\<lambda>q. answer PVNone),
      partialValue = (\<lambda>q s. (Fail, s)), partialInitialValues = (\<lambda>q objects s. (Fail, s))\<rparr>"

lemma silent_stage_ok:
  assumes "klee_rt_laws R"
  shows "incomplete_ok (\<lambda>_. True) (silent_stage R)"
proof -
  have "outcome_ok True (\<lambda>_. True) (pv_ok q) (IncompleteSolver_computeValidity R (\<lambda>q. answer PVNone) q p)"
    if "bool_query q" for q and p :: unit
    by (rule klee_rt_laws.default_partial_validity [OF assms _ that]) (simp_all add: partial_truth_ok_def)
  then show ?thesis by (simp add: incomplete_ok_def silent_stage_def partial_truth_ok_def) (simp add: outcome_ok_def)
qed

section \<open>Properties\<close>

text \<open>
  C14. The cache is transparent: in a session of questions about truth and validity, asked in any order from an
  empty cache over a solver that meets its contract, \<^verbatim>\<open>CachingSolver\<close> fails no assertion and every answer,
  from the cache or not, is the right one; if the solver below always answers, so does the cache.
\<close>

theorem caching_session_correct:
  assumes "solver_contract R S I live" and "I s" and "\<forall>a\<in>set asks. bool_query (asked_query a)"
  shows "list_all2 (reply_ok live) asks (session (CachingSolver R S) asks ([], s))"
  using session_ok [OF solver_contract.caching_contract [OF assms(1)] _ assms(3), of "([], s)"] assms(2)
  by (simp add: caching_inv_def cache_ok_def)

theorem caching_session_correct_witness:
  "list_all2 (reply_ok True)
     [AskTruth \<lparr>cm_root = 0, constraints = [], query_expr = NotOptimizedExpr (ConstantExpr (APInt Bool 1))\<rparr>,
      AskValidity \<lparr>cm_root = 0, constraints = [], query_expr = NotOptimizedExpr (ConstantExpr (APInt Bool 1))\<rparr>]
     (session (CachingSolver klee_rt_ref ideal_solver)
       [AskTruth \<lparr>cm_root = 0, constraints = [], query_expr = NotOptimizedExpr (ConstantExpr (APInt Bool 1))\<rparr>,
        AskValidity \<lparr>cm_root = 0, constraints = [], query_expr = NotOptimizedExpr (ConstantExpr (APInt Bool 1))\<rparr>] ([], ()))"
  by (rule caching_session_correct [OF ideal.solver_contract_axioms])
    (simp_all add: bool_query_def query_ok_def sat_def ap_wf_def)





end
