(* ===== verification/ImmutableTree.thy ===== *)
theory ImmutableTree
  imports Prelude
begin

text \<open>
  The persistent search tree behind \<^verbatim>\<open>ImmutableMap\<close> and \<^verbatim>\<open>ImmutableSet\<close>
  (\<^verbatim>\<open>src/klee/include/klee/Internal/ADT/ImmutableTree.h\<close>): nodes with a stored height, rotations that
  allow a difference of two between the heights of siblings, search and update. The comparison \<^verbatim>\<open>CMP\<close>
  and the projection \<^verbatim>\<open>KOV\<close> of the template are the parameters \<^verbatim>\<open>cmp\<close> and \<^verbatim>\<open>kov\<close>; what the tree needs of them is
  the locale \<^verbatim>\<open>key_order\<close>. Reference counts have no counterpart here: a node is never changed once it
  is built, so a shared node and a copy of it cannot be told apart.
\<close>

section \<open>Nodes\<close>

datatype 'v tnode =
  Terminator
| Node (left: "'v tnode") (val: 'v) (height: nat) (right: "'v tnode")
where
  "left Terminator = Terminator"
| "height Terminator = 0"
| "right Terminator = Terminator"

fun isTerminator :: "'v tnode \<Rightarrow> bool" where
  "isTerminator Terminator = True"
| "isTerminator (Node l v h r) = False"

definition new_Node :: "'v tnode \<Rightarrow> 'v tnode \<Rightarrow> 'v \<Rightarrow> 'v tnode" where
  "new_Node l r v = Node l v (max (height l) (height r) + 1) r"

definition balance :: "'v tnode \<Rightarrow> 'v \<Rightarrow> 'v tnode \<Rightarrow> 'v tnode" where
  "balance l v r =
     (if height l > height r + 2 then
        (let ll = left l; lr = right l in
         if height ll \<ge> height lr then
           new_Node ll (new_Node lr r v) (val l)
         else
           (let lrl = left lr; lrr = right lr in
            new_Node (new_Node ll lrl (val l)) (new_Node lrr r v) (val lr)))
      else if height r > height l + 2 then
        (let rl = left r; rr = right r in
         if height rr \<ge> height rl then
           new_Node (new_Node l rl v) rr (val r)
         else
           (let rll = left rl; rlr = right rl in
            new_Node (new_Node l rll v) (new_Node rlr rr (val r)) (val rl)))
      else new_Node l r v)"

primrec node_size :: "'v tnode \<Rightarrow> nat" where
  "node_size Terminator = 0"
| "node_size (Node l v h r) = node_size l + 1 + node_size r"

text \<open>
  \<^verbatim>\<open>popMin\<close> and \<^verbatim>\<open>popMax\<close> return the value they write to \<^verbatim>\<open>valueOut\<close> and the new tree. On the
  terminator they would hand out the value of the terminator, which belongs to no set; this is \<^term>\<open>None\<close>.
\<close>

fun popMin :: "'v tnode \<Rightarrow> ('v \<times> 'v tnode) option" where
  "popMin Terminator = None"
| "popMin (Node l v h r) =
     (if isTerminator l then Some (v, r)
      else do { (m, l') \<leftarrow> popMin l; Some (m, balance l' v r) })"

fun popMax :: "'v tnode \<Rightarrow> ('v \<times> 'v tnode) option" where
  "popMax Terminator = None"
| "popMax (Node l v h r) =
     (if isTerminator r then Some (v, l)
      else do { (m, r') \<leftarrow> popMax r; Some (m, balance l v r') })"

fun node_insert :: "('k \<Rightarrow> 'k \<Rightarrow> bool) \<Rightarrow> ('v \<Rightarrow> 'k) \<Rightarrow> 'v \<Rightarrow> 'v tnode \<Rightarrow> 'v tnode" where
  "node_insert cmp kov v Terminator = new_Node Terminator Terminator v"
| "node_insert cmp kov v (Node l x h r) =
     (if cmp (kov v) (kov x) then balance (node_insert cmp kov v l) x r
      else if cmp (kov x) (kov v) then balance l x (node_insert cmp kov v r)
      else Node l x h r)"

fun node_replace :: "('k \<Rightarrow> 'k \<Rightarrow> bool) \<Rightarrow> ('v \<Rightarrow> 'k) \<Rightarrow> 'v \<Rightarrow> 'v tnode \<Rightarrow> 'v tnode" where
  "node_replace cmp kov v Terminator = new_Node Terminator Terminator v"
| "node_replace cmp kov v (Node l x h r) =
     (if cmp (kov v) (kov x) then balance (node_replace cmp kov v l) x r
      else if cmp (kov x) (kov v) then balance l x (node_replace cmp kov v r)
      else new_Node l r v)"

fun node_remove :: "('k \<Rightarrow> 'k \<Rightarrow> bool) \<Rightarrow> ('v \<Rightarrow> 'k) \<Rightarrow> 'k \<Rightarrow> 'v tnode \<Rightarrow> 'v tnode" where
  "node_remove cmp kov k Terminator = Terminator"
| "node_remove cmp kov k (Node l x h r) =
     (if cmp k (kov x) then balance (node_remove cmp kov k l) x r
      else if cmp (kov x) k then balance l x (node_remove cmp kov k r)
      else if isTerminator l then r
      else if isTerminator r then l
      else case popMin r of Some (m, nr) \<Rightarrow> balance l m nr | None \<Rightarrow> Terminator)"

section \<open>Search\<close>

fun tree_count :: "('k \<Rightarrow> 'k \<Rightarrow> bool) \<Rightarrow> ('v \<Rightarrow> 'k) \<Rightarrow> 'k \<Rightarrow> 'v tnode \<Rightarrow> nat" where
  "tree_count cmp kov k Terminator = 0"
| "tree_count cmp kov k (Node l x h r) =
     (if cmp k (kov x) then tree_count cmp kov k l
      else if cmp (kov x) k then tree_count cmp kov k r
      else 1)"

fun tree_lookup :: "('k \<Rightarrow> 'k \<Rightarrow> bool) \<Rightarrow> ('v \<Rightarrow> 'k) \<Rightarrow> 'k \<Rightarrow> 'v tnode \<Rightarrow> 'v option" where
  "tree_lookup cmp kov k Terminator = None"
| "tree_lookup cmp kov k (Node l x h r) =
     (if cmp k (kov x) then tree_lookup cmp kov k l
      else if cmp (kov x) k then tree_lookup cmp kov k r
      else Some x)"

text \<open>The loop of \<^verbatim>\<open>lookup_previous\<close> carries the best candidate seen so far.\<close>

fun tree_lookup_previous_loop :: "('k \<Rightarrow> 'k \<Rightarrow> bool) \<Rightarrow> ('v \<Rightarrow> 'k) \<Rightarrow> 'k \<Rightarrow> 'v option \<Rightarrow> 'v tnode \<Rightarrow> 'v option" where
  "tree_lookup_previous_loop cmp kov k result Terminator = result"
| "tree_lookup_previous_loop cmp kov k result (Node l x h r) =
     (if cmp k (kov x) then tree_lookup_previous_loop cmp kov k result l
      else if cmp (kov x) k then tree_lookup_previous_loop cmp kov k (Some x) r
      else Some x)"

definition tree_lookup_previous :: "('k \<Rightarrow> 'k \<Rightarrow> bool) \<Rightarrow> ('v \<Rightarrow> 'k) \<Rightarrow> 'k \<Rightarrow> 'v tnode \<Rightarrow> 'v option" where
  "tree_lookup_previous cmp kov k t = tree_lookup_previous_loop cmp kov k None t"

fun tree_min :: "'v tnode \<Rightarrow> 'v option" where
  "tree_min Terminator = None"
| "tree_min (Node l v h r) = (if isTerminator l then Some v else tree_min l)"

fun tree_max :: "'v tnode \<Rightarrow> 'v option" where
  "tree_max Terminator = None"
| "tree_max (Node l v h r) = (if isTerminator r then Some v else tree_max r)"

section \<open>The shape of the tree\<close>

primrec inorder :: "'v tnode \<Rightarrow> 'v list" where
  "inorder Terminator = []"
| "inorder (Node l v h r) = inorder l @ v # inorder r"

primrec avl :: "'v tnode \<Rightarrow> bool" where
  "avl Terminator = True"
| "avl (Node l v h r) \<longleftrightarrow>
     h = max (height l) (height r) + 1 \<and> height l \<le> height r + 2 \<and> height r \<le> height l + 2
     \<and> avl l \<and> avl r"

lemma isTerminator_iff [simp]: "isTerminator t \<longleftrightarrow> t = Terminator"
  by (cases t) auto

lemma height_pos_Node: "0 < height t \<Longrightarrow> \<exists>l v h r. t = Node l v h r"
  by (cases t) auto

lemma height_0_iff [simp]: "avl t \<Longrightarrow> height t = 0 \<longleftrightarrow> t = Terminator"
  by (cases t) auto

lemma inorder_new_Node [simp]: "inorder (new_Node l r v) = inorder l @ v # inorder r"
  by (simp add: new_Node_def)

lemma height_new_Node [simp]: "height (new_Node l r v) = max (height l) (height r) + 1"
  by (simp add: new_Node_def)

lemma inorder_Node_sel: "0 < height t \<Longrightarrow> inorder t = inorder (left t) @ val t # inorder (right t)"
  by (cases t) auto

lemma inorder_balance [simp]: "inorder (balance l v r) = inorder l @ v # inorder r"
  by (auto simp: balance_def Let_def inorder_Node_sel [of l] inorder_Node_sel [of r]
      inorder_Node_sel [of "right l"] inorder_Node_sel [of "left r"])

lemma avl_new_Node [simp]:
  "avl (new_Node l r v) \<longleftrightarrow> height l \<le> height r + 2 \<and> height r \<le> height l + 2 \<and> avl l \<and> avl r"
  by (auto simp: new_Node_def)

lemma avl_sel:
  assumes "avl t" and "0 < height t"
  shows "avl (left t)" and "avl (right t)" and "height t = max (height (left t)) (height (right t)) + 1"
    and "height (left t) \<le> height (right t) + 2" and "height (right t) \<le> height (left t) + 2"
  using assms by (cases t; simp)+

text \<open>
  The rotations restore the invariant after a change of one level, and change the height by at most
  one.
\<close>

lemma balance_avl:
  assumes "avl l" and "avl r" and "height l \<le> height r + 3" and "height r \<le> height l + 3"
  shows "avl (balance l v r)"
    and "height (balance l v r) = max (height l) (height r)
         \<or> height (balance l v r) = max (height l) (height r) + 1"
    and "height l \<le> height r + 2 \<Longrightarrow> height r \<le> height l + 2
         \<Longrightarrow> height (balance l v r) = max (height l) (height r) + 1"
proof -
  have L: "avl (balance l v r) \<and> (height (balance l v r) = max (height l) (height r)
         \<or> height (balance l v r) = max (height l) (height r) + 1)" if big: "height l > height r + 2"
  proof -
    have pos: "0 < height l" using big by simp
    note l = avl_sel [OF assms(1) pos]
    show ?thesis
    proof (cases "height (left l) \<ge> height (right l)")
      case True
      with big l assms show ?thesis by (auto simp: balance_def Let_def max_def split: if_splits)
    next
      case False
      then have "0 < height (right l)" by simp
      note lr = avl_sel [OF l(2) this]
      from False big l lr assms show ?thesis
        by (auto simp: balance_def Let_def max_def split: if_splits)
    qed
  qed
  have R: "avl (balance l v r) \<and> (height (balance l v r) = max (height l) (height r)
         \<or> height (balance l v r) = max (height l) (height r) + 1)" if big: "height r > height l + 2"
  proof -
    have pos: "0 < height r" using big by simp
    note r = avl_sel [OF assms(2) pos]
    show ?thesis
    proof (cases "height (right r) \<ge> height (left r)")
      case True
      with big r assms show ?thesis by (auto simp: balance_def Let_def max_def split: if_splits)
    next
      case False
      then have "0 < height (left r)" by simp
      note rl = avl_sel [OF r(1) this]
      from False big r rl assms show ?thesis
        by (auto simp: balance_def Let_def max_def split: if_splits)
    qed
  qed
  have M: "avl (balance l v r) \<and> height (balance l v r) = max (height l) (height r) + 1"
    if "height l \<le> height r + 2" "height r \<le> height l + 2"
    using that assms by (simp add: balance_def)
  show "avl (balance l v r)" using L R M by force
  show "height (balance l v r) = max (height l) (height r)
         \<or> height (balance l v r) = max (height l) (height r) + 1" using L R M by force
  show "height (balance l v r) = max (height l) (height r) + 1"
    if "height l \<le> height r + 2" "height r \<le> height l + 2" using M that by blast
qed

text \<open>A node whose left or right subtree has been exchanged for one of almost the same height.\<close>

lemma balance_left:
  assumes "avl l'" and "avl r" and "hl \<le> height r + 2" and "height r \<le> hl + 2"
  shows "height l' = hl \<or> height l' = hl + 1 \<Longrightarrow> avl (balance l' v r)
           \<and> (height (balance l' v r) = max hl (height r) + 1 \<or> height (balance l' v r) = max hl (height r) + 1 + 1)"
    and "height l' = hl \<or> hl = height l' + 1 \<Longrightarrow> avl (balance l' v r)
           \<and> (height (balance l' v r) = max hl (height r) + 1 \<or> max hl (height r) + 1 = height (balance l' v r) + 1)"
  using balance_avl [of l' r v] assms by linarith+

lemma balance_right:
  assumes "avl l" and "avl r'" and "height l \<le> hr + 2" and "hr \<le> height l + 2"
  shows "height r' = hr \<or> height r' = hr + 1 \<Longrightarrow> avl (balance l v r')
           \<and> (height (balance l v r') = max (height l) hr + 1 \<or> height (balance l v r') = max (height l) hr + 1 + 1)"
    and "height r' = hr \<or> hr = height r' + 1 \<Longrightarrow> avl (balance l v r')
           \<and> (height (balance l v r') = max (height l) hr + 1 \<or> max (height l) hr + 1 = height (balance l v r') + 1)"
  using balance_avl [of l r' v] assms by linarith+

lemma popMin_avl:
  assumes "popMin t = Some (m, t')" and "avl t"
  shows "avl t' \<and> (height t' = height t \<or> height t = height t' + 1)"
  using assms
proof (induction t arbitrary: m t')
  case (Node l v h r)
  show ?case
  proof (cases "l = Terminator")
    case False
    with Node.prems obtain l' where l': "popMin l = Some (m, l')" "t' = balance l' v r"
      by (auto simp: option_bind_simps split: prod.splits)
    with Node.IH(1) [OF l'(1)] Node.prems balance_left(2) [of l' r "height l" v] show ?thesis by simp
  qed (use Node.prems in auto)
qed simp

lemma popMax_avl:
  assumes "popMax t = Some (m, t')" and "avl t"
  shows "avl t' \<and> (height t' = height t \<or> height t = height t' + 1)"
  using assms
proof (induction t arbitrary: m t')
  case (Node l v h r)
  show ?case
  proof (cases "r = Terminator")
    case False
    with Node.prems obtain r' where r': "popMax r = Some (m, r')" "t' = balance l v r'"
      by (auto simp: option_bind_simps split: prod.splits)
    with Node.IH(2) [OF r'(1)] Node.prems balance_right(2) [of l r' "height r" v] show ?thesis by simp
  qed (use Node.prems in auto)
qed simp

lemma node_insert_avl:
  "avl t \<Longrightarrow> avl (node_insert cmp kov v t)
     \<and> (height (node_insert cmp kov v t) = height t \<or> height (node_insert cmp kov v t) = height t + 1)"
proof (induction t)
  case (Node l x h r)
  then show ?case
    using balance_left(1) [of "node_insert cmp kov v l" r "height l" x]
      balance_right(1) [of l "node_insert cmp kov v r" "height r" x] by simp
qed (simp add: new_Node_def)

lemma node_replace_avl:
  "avl t \<Longrightarrow> avl (node_replace cmp kov v t)
     \<and> (height (node_replace cmp kov v t) = height t \<or> height (node_replace cmp kov v t) = height t + 1)"
proof (induction t)
  case (Node l x h r)
  then show ?case
    using balance_left(1) [of "node_replace cmp kov v l" r "height l" x]
      balance_right(1) [of l "node_replace cmp kov v r" "height r" x] by (simp add: new_Node_def)
qed (simp add: new_Node_def)

lemma popMin_defined: "t \<noteq> Terminator \<Longrightarrow> \<exists>m t'. popMin t = Some (m, t')"
  by (induction t rule: popMin.induct) (auto split: prod.splits)

lemma popMax_defined: "t \<noteq> Terminator \<Longrightarrow> \<exists>m t'. popMax t = Some (m, t')"
  by (induction t rule: popMax.induct) (auto split: prod.splits)

lemma node_remove_avl:
  "avl t \<Longrightarrow> avl (node_remove cmp kov k t)
     \<and> (height (node_remove cmp kov k t) = height t \<or> height t = height (node_remove cmp kov k t) + 1)"
proof (induction t)
  case (Node l x h r)
  show ?case
  proof (cases "cmp k (kov x) \<or> cmp (kov x) k")
    case True
    with Node show ?thesis
      using balance_left(2) [of "node_remove cmp kov k l" r "height l" x]
        balance_right(2) [of l "node_remove cmp kov k r" "height r" x] by auto
  next
    case False
    note here = this
    show ?thesis
    proof (cases "l = Terminator \<or> r = Terminator")
      case True
      with here Node.prems show ?thesis by auto
    next
      case False
      then obtain m nr where m: "popMin r = Some (m, nr)" using popMin_defined by blast
      with here False Node.prems show ?thesis
        using popMin_avl [OF m] balance_right(2) [of l nr "height r" m] by auto
    qed
  qed
qed simp

lemma popMin_inorder: "popMin t = Some (m, t') \<Longrightarrow> inorder t = m # inorder t'"
  by (induction t arbitrary: m t') (auto simp: option_bind_simps split: if_splits prod.splits)

lemma popMax_inorder: "popMax t = Some (m, t') \<Longrightarrow> inorder t = inorder t' @ [m]"
  by (induction t arbitrary: m t') (auto simp: option_bind_simps split: if_splits prod.splits)

lemma inorder_Nil_iff [simp]: "inorder t = [] \<longleftrightarrow> t = Terminator"
  by (cases t) auto

lemma tree_min_inorder: "tree_min t = (if inorder t = [] then None else Some (hd (inorder t)))"
  by (induction t rule: tree_min.induct) auto

lemma tree_max_inorder: "tree_max t = (if inorder t = [] then None else Some (last (inorder t)))"
  by (induction t rule: tree_max.induct) auto

lemma node_size_inorder: "node_size t = length (inorder t)"
  by (induction t) auto

text \<open>
  A tree of height \<^term>\<open>h\<close> has at least about \<^term>\<open>2 ^ (h div 3)\<close> elements, so the stored height of a
  tree that fits into memory is far from the limit of \<^verbatim>\<open>unsigned\<close>.
\<close>

lemma avl_size_lower:
  "avl t \<Longrightarrow> height t = h \<Longrightarrow> 2 ^ (h div 3) \<le> node_size t + 1"
proof (induction h arbitrary: t rule: less_induct)
  case (less h)
  show ?case
  proof (cases t)
    case (Node l v h' r)
    with less.prems have h: "h = max (height l) (height r) + 1" "avl l" "avl r"
      "height l \<le> height r + 2" "height r \<le> height l + 2" by auto
    then have lo: "h \<le> height l + 3" "h \<le> height r + 3" and lt: "height l < h" "height r < h" by auto
    have ge: "(2::nat) ^ (h div 3) \<le> 2 * 2 ^ (x div 3)" if "h \<le> x + 3" for x
    proof -
      have "h div 3 \<le> Suc (x div 3)" using that by linarith
      then show ?thesis by (metis power_Suc power_increasing one_le_numeral)
    qed
    show ?thesis
      using less.IH [OF lt(1) h(2) refl] less.IH [OF lt(2) h(3) refl] ge [OF lo(1)] ge [OF lo(2)] Node
      by simp
  qed (use less.prems in simp)
qed

section \<open>The order of the keys\<close>

text \<open>
  What the tree needs of the comparison: it is a strict weak order. Two keys of which neither is
  below the other count as the same key.
\<close>

locale key_order =
  fixes cmp :: "'k \<Rightarrow> 'k \<Rightarrow> bool" and kov :: "'v \<Rightarrow> 'k"
  assumes cmp_irrefl: "\<not> cmp a a"
    and cmp_trans: "cmp a b \<Longrightarrow> cmp b c \<Longrightarrow> cmp a c"
    and cmp_weak: "cmp a c \<Longrightarrow> cmp a b \<or> cmp b c"
begin

definition eqv :: "'k \<Rightarrow> 'k \<Rightarrow> bool" where
  "eqv a b \<longleftrightarrow> \<not> cmp a b \<and> \<not> cmp b a"

definition ordered :: "'v list \<Rightarrow> bool" where
  "ordered xs \<longleftrightarrow> sorted_wrt (\<lambda>a b. cmp (kov a) (kov b)) xs"

definition below :: "'k \<Rightarrow> 'v list \<Rightarrow> 'v list" where
  "below k = filter (\<lambda>v. cmp (kov v) k)"

definition at :: "'k \<Rightarrow> 'v list \<Rightarrow> 'v list" where
  "at k = filter (\<lambda>v. eqv k (kov v))"

definition above :: "'k \<Rightarrow> 'v list \<Rightarrow> 'v list" where
  "above k = filter (\<lambda>v. cmp k (kov v))"

definition tree_inv :: "'v tnode \<Rightarrow> bool" where
  "tree_inv t \<longleftrightarrow> avl t \<and> ordered (inorder t)"

lemma cmp_asym: "cmp a b \<Longrightarrow> \<not> cmp b a"
  using cmp_irrefl cmp_trans by blast

lemma eqv_sym: "eqv a b \<Longrightarrow> eqv b a"
  by (simp add: eqv_def)

lemma eqv_trans: "eqv a b \<Longrightarrow> eqv b c \<Longrightarrow> eqv a c"
  unfolding eqv_def using cmp_weak by blast

lemma eqv_refl [simp]: "eqv a a"
  by (simp add: eqv_def cmp_irrefl)

lemma eqv_cmp: "eqv a b \<Longrightarrow> cmp a c \<longleftrightarrow> cmp b c" "eqv a b \<Longrightarrow> cmp c a \<longleftrightarrow> cmp c b"
  unfolding eqv_def using cmp_weak by blast+

lemma ordered_append: "ordered (xs @ a # ys) \<longleftrightarrow>
    ordered xs \<and> ordered ys \<and> (\<forall>x\<in>set xs. cmp (kov x) (kov a)) \<and> (\<forall>y\<in>set ys. cmp (kov a) (kov y))"
  by (auto simp: ordered_def sorted_wrt_append intro: cmp_trans)

lemma filters_simps [simp]:
  "below k [] = []" "at k [] = []" "above k [] = []"
  "below k (xs @ ys) = below k xs @ below k ys"
  "at k (xs @ ys) = at k xs @ at k ys"
  "above k (xs @ ys) = above k xs @ above k ys"
  "below k (v # xs) = (if cmp (kov v) k then v # below k xs else below k xs)"
  "at k (v # xs) = (if eqv k (kov v) then v # at k xs else at k xs)"
  "above k (v # xs) = (if cmp k (kov v) then v # above k xs else above k xs)"
  by (simp_all add: below_def at_def above_def)

text \<open>The parts of an ordered list on either side of a value.\<close>

lemma all_above:
  assumes "\<forall>y\<in>set ys. cmp k (kov y)"
  shows "below k ys = [] \<and> at k ys = [] \<and> above k ys = ys"
proof -
  have "\<forall>y\<in>set ys. \<not> cmp (kov y) k" using assms cmp_asym by blast
  with assms show ?thesis by (simp add: below_def at_def above_def eqv_def filter_empty_conv filter_id_conv)
qed

lemma all_below:
  assumes "\<forall>y\<in>set ys. cmp (kov y) k"
  shows "below k ys = ys \<and> at k ys = [] \<and> above k ys = []"
proof -
  have "\<forall>y\<in>set ys. \<not> cmp k (kov y)" using assms cmp_asym by blast
  with assms show ?thesis by (simp add: below_def at_def above_def eqv_def filter_empty_conv filter_id_conv)
qed

lemma parts_left:
  assumes "cmp k (kov a)" and "\<forall>y\<in>set ys. cmp (kov a) (kov y)"
  shows "below k ys = [] \<and> at k ys = [] \<and> above k ys = ys"
  using assms by (intro all_above ballI) (rule cmp_trans, auto)

lemma parts_right:
  assumes "cmp (kov a) k" and "\<forall>y\<in>set ys. cmp (kov y) (kov a)"
  shows "below k ys = ys \<and> at k ys = [] \<and> above k ys = []"
  using assms by (intro all_below ballI) (rule cmp_trans, auto)

lemma parts_at:
  assumes "eqv k (kov a)"
  shows "\<forall>y\<in>set ys. cmp (kov a) (kov y) \<Longrightarrow> below k ys = [] \<and> at k ys = [] \<and> above k ys = ys"
    and "\<forall>y\<in>set ys. cmp (kov y) (kov a) \<Longrightarrow> below k ys = ys \<and> at k ys = [] \<and> above k ys = []"
  using eqv_cmp [OF assms] by (auto intro!: all_above all_below)

lemma inorder_insert:
  "ordered (inorder t) \<Longrightarrow> inorder (node_insert cmp kov v t) =
     below (kov v) (inorder t)
     @ (if at (kov v) (inorder t) = [] then [v] else at (kov v) (inorder t))
     @ above (kov v) (inorder t)"
proof (induction t)
  case (Node l x h r)
  then have o: "ordered (inorder l)" "ordered (inorder r)"
    "\<forall>y\<in>set (inorder l). cmp (kov y) (kov x)" "\<forall>y\<in>set (inorder r). cmp (kov x) (kov y)"
    by (simp_all add: ordered_append)
  consider "cmp (kov v) (kov x)" | "cmp (kov x) (kov v)" | "eqv (kov v) (kov x)" by (auto simp: eqv_def)
  then show ?case
  proof cases
    case 1
    then show ?thesis using Node.IH(1) [OF o(1)] parts_left [OF 1 o(4)] cmp_asym [OF 1] by (simp add: eqv_def)
  next
    case 2
    then show ?thesis using Node.IH(2) [OF o(2)] parts_right [OF 2 o(3)] cmp_asym [OF 2] by (simp add: eqv_def)
  next
    case 3
    then show ?thesis using parts_at(1) [OF 3 o(4)] parts_at(2) [OF 3 o(3)] by (simp add: eqv_def)
  qed
qed simp

lemma inorder_replace:
  "ordered (inorder t) \<Longrightarrow> inorder (node_replace cmp kov v t) =
     below (kov v) (inorder t) @ v # above (kov v) (inorder t)"
proof (induction t)
  case (Node l x h r)
  then have o: "ordered (inorder l)" "ordered (inorder r)"
    "\<forall>y\<in>set (inorder l). cmp (kov y) (kov x)" "\<forall>y\<in>set (inorder r). cmp (kov x) (kov y)"
    by (simp_all add: ordered_append)
  consider "cmp (kov v) (kov x)" | "cmp (kov x) (kov v)" | "eqv (kov v) (kov x)" by (auto simp: eqv_def)
  then show ?case
  proof cases
    case 1
    then show ?thesis using Node.IH(1) [OF o(1)] parts_left [OF 1 o(4)] cmp_asym [OF 1] by simp
  next
    case 2
    then show ?thesis using Node.IH(2) [OF o(2)] parts_right [OF 2 o(3)] cmp_asym [OF 2] by simp
  next
    case 3
    then show ?thesis using parts_at(1) [OF 3 o(4)] parts_at(2) [OF 3 o(3)] by (simp add: eqv_def)
  qed
qed simp

lemma inorder_remove:
  "ordered (inorder t) \<Longrightarrow> inorder (node_remove cmp kov k t) = below k (inorder t) @ above k (inorder t)"
proof (induction t)
  case (Node l x h r)
  then have o: "ordered (inorder l)" "ordered (inorder r)"
    "\<forall>y\<in>set (inorder l). cmp (kov y) (kov x)" "\<forall>y\<in>set (inorder r). cmp (kov x) (kov y)"
    by (simp_all add: ordered_append)
  consider "cmp k (kov x)" | "cmp (kov x) k" | "eqv k (kov x)" by (auto simp: eqv_def)
  then show ?case
  proof cases
    case 1
    then show ?thesis using Node.IH(1) [OF o(1)] parts_left [OF 1 o(4)] cmp_asym [OF 1] by simp
  next
    case 2
    then show ?thesis using Node.IH(2) [OF o(2)] parts_right [OF 2 o(3)] cmp_asym [OF 2] by simp
  next
    case 3
    note p = parts_at(1) [OF 3 o(4)] parts_at(2) [OF 3 o(3)]
    show ?thesis
    proof (cases "r = Terminator")
      case True
      with 3 p show ?thesis by (simp add: eqv_def)
    next
      case False
      then obtain m nr where m: "popMin r = Some (m, nr)" using popMin_defined by blast
      with 3 p popMin_inorder [OF m] show ?thesis using False by (simp add: eqv_def)
    qed
  qed
qed simp

lemma at_ordered: "ordered xs \<Longrightarrow> at k xs = [] \<or> (\<exists>v. at k xs = [v] \<and> eqv k (kov v) \<and> v \<in> set xs)"
proof (induction xs)
  case (Cons x xs)
  then have o: "ordered xs" "\<forall>y\<in>set xs. cmp (kov x) (kov y)" by (simp_all add: ordered_def)
  show ?case
  proof (cases "eqv k (kov x)")
    case True
    with parts_at(1) [OF True o(2)] show ?thesis by simp
  next
    case False
    with Cons.IH [OF o(1)] show ?thesis by auto
  qed
qed simp

lemma parts_cover: "ordered xs \<Longrightarrow> xs = below k xs @ at k xs @ above k xs"
proof (induction xs)
  case (Cons x xs)
  then have o: "ordered xs" "\<forall>y\<in>set xs. cmp (kov x) (kov y)" by (simp_all add: ordered_def)
  consider "cmp k (kov x)" | "cmp (kov x) k" | "eqv k (kov x)" by (auto simp: eqv_def)
  then show ?case
  proof cases
    case 1
    then show ?thesis using parts_left [OF 1 o(2)] cmp_asym [OF 1] by (simp add: eqv_def)
  next
    case 2
    then show ?thesis using Cons.IH [OF o(1)] cmp_asym [OF 2] by (simp add: eqv_def)
  next
    case 3
    then show ?thesis using parts_at(1) [OF 3 o(2)] by (simp add: eqv_def)
  qed
qed simp

lemma lookup_at: "ordered (inorder t) \<Longrightarrow> tree_lookup cmp kov k t = (case at k (inorder t) of [] \<Rightarrow> None | v # _ \<Rightarrow> Some v)"
proof (induction t)
  case (Node l x h r)
  then have o: "ordered (inorder l)" "ordered (inorder r)"
    "\<forall>y\<in>set (inorder l). cmp (kov y) (kov x)" "\<forall>y\<in>set (inorder r). cmp (kov x) (kov y)"
    by (simp_all add: ordered_append)
  consider "cmp k (kov x)" | "cmp (kov x) k" | "eqv k (kov x)" by (auto simp: eqv_def)
  then show ?case
  proof cases
    case 1
    then show ?thesis using Node.IH(1) [OF o(1)] parts_left [OF 1 o(4)] by (simp add: eqv_def)
  next
    case 2
    then show ?thesis using Node.IH(2) [OF o(2)] parts_right [OF 2 o(3)] cmp_asym [OF 2] by (simp add: eqv_def)
  next
    case 3
    then show ?thesis using parts_at(2) [OF 3 o(3)] by (simp add: eqv_def)
  qed
qed simp

lemma count_lookup: "tree_count cmp kov k t = (if tree_lookup cmp kov k t = None then 0 else 1)"
  by (induction t) auto

lemma ordered_parts:
  assumes "ordered xs"
  shows "ordered (below k xs)" "ordered (above k xs)"
    "\<forall>x\<in>set (below k xs). cmp (kov x) k" "\<forall>x\<in>set (above k xs). cmp k (kov x)"
  using assms by (auto simp: ordered_def below_def above_def sorted_wrt_filter)

lemma tree_inv_insert: "tree_inv t \<Longrightarrow> tree_inv (node_insert cmp kov v t)"
proof -
  assume "tree_inv t"
  then have t: "avl t" "ordered (inorder t)" by (auto simp: tree_inv_def)
  have "ordered (inorder (node_insert cmp kov v t))"
  proof (cases "at (kov v) (inorder t) = []")
    case True
    with t ordered_parts [OF t(2)] show ?thesis by (simp add: inorder_insert ordered_append)
  next
    case False
    with t parts_cover [OF t(2), of "kov v"] show ?thesis by (simp add: inorder_insert)
  qed
  with node_insert_avl [OF t(1), of cmp kov v] show ?thesis by (simp add: tree_inv_def)
qed

lemma tree_inv_replace: "tree_inv t \<Longrightarrow> tree_inv (node_replace cmp kov v t)"
  using node_replace_avl [of t cmp kov v] ordered_parts [of "inorder t" "kov v"]
  by (simp add: tree_inv_def inorder_replace ordered_append)

lemma tree_inv_remove: "tree_inv t \<Longrightarrow> tree_inv (node_remove cmp kov k t)"
proof -
  assume "tree_inv t"
  then have t: "avl t" "ordered (inorder t)" by (auto simp: tree_inv_def)
  note o = ordered_parts [OF t(2), of k]
  have "ordered (below k (inorder t) @ above k (inorder t))"
    using o cmp_trans by (auto simp: ordered_def sorted_wrt_append)
  with t node_remove_avl [OF t(1), of cmp kov k] show ?thesis by (simp add: tree_inv_def inorder_remove)
qed

lemma tree_inv_popMin: "tree_inv t \<Longrightarrow> popMin t = Some (m, t') \<Longrightarrow> tree_inv t'"
  using popMin_avl [of t m t'] popMin_inorder [of t m t'] by (auto simp: tree_inv_def ordered_def)

lemma tree_inv_popMax: "tree_inv t \<Longrightarrow> popMax t = Some (m, t') \<Longrightarrow> tree_inv t'"
  using popMax_avl [of t m t'] popMax_inorder [of t m t'] by (auto simp: tree_inv_def ordered_def sorted_wrt_append)

text \<open>What a lookup returns after an update: the contract of a finite map.\<close>

lemma at_at_other: "\<not> eqv k j \<Longrightarrow> at k (at j xs) = []"
  unfolding at_def filter_empty_conv using eqv_trans [of k _ j] eqv_sym [of j] by (auto simp: filter_empty_conv)

lemma at_other:
  assumes "\<not> eqv k j" and "ordered xs"
  shows "at k (below j xs) @ at k (above j xs) = at k xs"
  using arg_cong [OF parts_cover [OF assms(2), of j], of "at k"] at_at_other [OF assms(1), of xs] by simp

lemma at_same:
  assumes "eqv k j"
  shows "at k (below j xs) = []" "at k (above j xs) = []" "at j xs = at k xs"
proof -
  have "cmp x j \<longleftrightarrow> cmp x k" "cmp j x \<longleftrightarrow> cmp k x" for x using eqv_cmp [OF assms] by simp_all
  then show "at k (below j xs) = []" "at k (above j xs) = []" "at j xs = at k xs"
    by (simp_all add: at_def below_def above_def eqv_def filter_empty_conv)
qed

lemma lookup_empty: "tree_lookup cmp kov k Terminator = None"
  by simp

lemma lookup_insert:
  assumes "tree_inv t"
  shows "tree_lookup cmp kov k (node_insert cmp kov v t) =
    (if eqv k (kov v) \<and> tree_lookup cmp kov k t = None then Some v else tree_lookup cmp kov k t)"
proof -
  have o: "ordered (inorder t)" "ordered (inorder (node_insert cmp kov v t))"
    using assms tree_inv_insert [OF assms] by (auto simp: tree_inv_def)
  show ?thesis
  proof (cases "eqv k (kov v)")
    case True
    with at_ordered [OF o(1), of k] show ?thesis
      by (auto simp: lookup_at [OF o(1)] lookup_at [OF o(2)] inorder_insert [OF o(1)] at_same)
  next
    case False
    with at_at_other [OF False, of "inorder t"] at_other [OF False o(1)] show ?thesis
      by (simp add: lookup_at [OF o(1)] lookup_at [OF o(2)] inorder_insert [OF o(1)])
  qed
qed

lemma lookup_replace:
  assumes "tree_inv t"
  shows "tree_lookup cmp kov k (node_replace cmp kov v t) =
    (if eqv k (kov v) then Some v else tree_lookup cmp kov k t)"
proof -
  have o: "ordered (inorder t)" "ordered (inorder (node_replace cmp kov v t))"
    using assms tree_inv_replace [OF assms] by (auto simp: tree_inv_def)
  show ?thesis
    using at_other [of k "kov v", OF _ o(1)]
    by (simp add: lookup_at [OF o(1)] lookup_at [OF o(2)] inorder_replace [OF o(1)] at_same)
qed

lemma lookup_remove:
  assumes "tree_inv t"
  shows "tree_lookup cmp kov k (node_remove cmp kov j t) =
    (if eqv k j then None else tree_lookup cmp kov k t)"
proof -
  have o: "ordered (inorder t)" "ordered (inorder (node_remove cmp kov j t))"
    using assms tree_inv_remove [OF assms] by (auto simp: tree_inv_def)
  show ?thesis
    using at_other [of k j, OF _ o(1)]
    by (simp add: lookup_at [OF o(1)] lookup_at [OF o(2)] inorder_remove [OF o(1)] at_same)
qed

text \<open>\<^verbatim>\<open>lookup_previous\<close> finds the last value whose key is not above the given one.\<close>

lemma lookup_previous_loop:
  "ordered (inorder t) \<Longrightarrow> tree_lookup_previous_loop cmp kov k result t =
     (if at k (inorder t) \<noteq> [] then Some (hd (at k (inorder t)))
      else if below k (inorder t) \<noteq> [] then Some (last (below k (inorder t)))
      else result)"
proof (induction t arbitrary: result)
  case (Node l x h r)
  then have o: "ordered (inorder l)" "ordered (inorder r)"
    "\<forall>y\<in>set (inorder l). cmp (kov y) (kov x)" "\<forall>y\<in>set (inorder r). cmp (kov x) (kov y)"
    by (simp_all add: ordered_append)
  consider "cmp k (kov x)" | "cmp (kov x) k" | "eqv k (kov x)" by (auto simp: eqv_def)
  then show ?case
  proof cases
    case 1
    then show ?thesis using Node.IH(1) [OF o(1)] parts_left [OF 1 o(4)] cmp_asym [OF 1] by (simp add: eqv_def)
  next
    case 2
    then show ?thesis using Node.IH(2) [OF o(2)] parts_right [OF 2 o(3)] cmp_asym [OF 2] by (simp add: eqv_def)
  next
    case 3
    then show ?thesis using parts_at(2) [OF 3 o(3)] by (simp add: eqv_def)
  qed
qed simp

lemma lookup_previous_parts:
  assumes "tree_inv t"
  shows "tree_lookup_previous cmp kov k t =
     (if below k (inorder t) @ at k (inorder t) = [] then None
      else Some (last (below k (inorder t) @ at k (inorder t))))"
proof -
  have o: "ordered (inorder t)" using assms by (simp add: tree_inv_def)
  show ?thesis using at_ordered [OF o, of k] by (auto simp: tree_lookup_previous_def lookup_previous_loop [OF o])
qed

lemma lookup_previous_last:
  assumes "tree_inv t"
  shows "case tree_lookup_previous cmp kov k t of
      None \<Rightarrow> \<forall>v\<in>set (inorder t). cmp k (kov v)
    | Some v \<Rightarrow> v \<in> set (inorder t) \<and> \<not> cmp k (kov v) \<and> (\<forall>w\<in>set (inorder t). \<not> cmp k (kov w) \<longrightarrow> \<not> cmp (kov v) (kov w))"
proof -
  have o: "ordered (inorder t)" using assms by (simp add: tree_inv_def)
  let ?b = "below k (inorder t) @ at k (inorder t)" and ?a = "above k (inorder t)"
  have c: "inorder t = ?b @ ?a" using parts_cover [OF o, of k] by simp
  have s: "set (inorder t) = set ?b \<union> set ?a" using arg_cong [OF c, of set] unfolding set_append .
  have b: "\<forall>v\<in>set ?b. \<not> cmp k (kov v)" and a: "\<forall>v\<in>set ?a. cmp k (kov v)"
    using cmp_asym by (auto simp: below_def at_def above_def eqv_def)
  show ?thesis
  proof (cases "?b = []")
    case True
    then show ?thesis using lookup_previous_parts [OF assms, of k] a c by simp
  next
    case False
    then obtain xs v where v: "?b = xs @ [v]" by (metis append_butlast_last_id)
    then have "tree_lookup_previous cmp kov k t = Some v" using lookup_previous_parts [OF assms, of k] by simp
    moreover have "\<not> cmp (kov v) (kov w)" if "w \<in> set (inorder t)" "\<not> cmp k (kov w)" for w
    proof -
      have "w \<in> set ?b" using that a s by blast
      then have "w \<in> set (xs @ [v])" unfolding v .
      moreover have "ordered (xs @ v # ?a)" using o c v by simp
      ultimately show ?thesis using cmp_asym cmp_irrefl by (auto simp: ordered_append)
    qed
    moreover have "v \<in> set (inorder t)" "\<not> cmp k (kov v)" using b s v by auto
    ultimately show ?thesis by simp
  qed
qed

end

end
