(* ===== verification/TreeIterator.thy ===== *)
theory TreeIterator
  imports ImmutableTree
begin

text \<open>
  The iterators of \<^verbatim>\<open>ImmutableTree\<close> (\<^verbatim>\<open>src/klee/include/klee/Internal/ADT/ImmutableTree.h\<close>): the path on a
  stack of fixed capacity, the steps forwards and backwards, and the searches that return an
  iterator. An iterator is related to a position in the list of values; each operation is shown to
  move the position the way its name says, and to stay within the capacity of the stack.
\<close>

section \<open>The iterator\<close>

text \<open>
  An iterator holds the root and the path from the root to the current node; the empty path is the
  end. The list has the top of the \<^verbatim>\<open>FixedStack\<close> first. The capacity of the stack is the height of the
  root: \<^verbatim>\<open>push_back\<close> beyond it would write outside the array. Where the source compares the addresses of two
  nodes of one tree the model compares the nodes, which differ in their values when they are distinct.
\<close>

record 'v tree_iterator =
  it_root :: "'v tnode"
  it_stack :: "'v tnode list"

fun push_left :: "'v tnode \<Rightarrow> 'v tnode list \<Rightarrow> 'v tnode list" where
  "push_left Terminator st = st"
| "push_left (Node l v h r) st = push_left l (Node l v h r # st)"

fun push_right :: "'v tnode \<Rightarrow> 'v tnode list \<Rightarrow> 'v tnode list" where
  "push_right Terminator st = st"
| "push_right (Node l v h r) st = push_right r (Node l v h r # st)"

definition iterator :: "'v tnode \<Rightarrow> bool \<Rightarrow> 'v tree_iterator" where
  "iterator root atBeginning =
     \<lparr>it_root = root, it_stack = (if atBeginning then push_left root [] else [])\<rparr>"

definition iterator_deref :: "'v tree_iterator \<Rightarrow> 'v option" where
  "iterator_deref it = (case it_stack it of [] \<Rightarrow> None | n # _ \<Rightarrow> Some (val n))"

text \<open>The loops that climb until the previous node is a left (right) child.\<close>

fun climb_left :: "'v tnode \<Rightarrow> 'v tnode list \<Rightarrow> 'v tnode list" where
  "climb_left prev [] = []"
| "climb_left prev (n # st) = (if prev = left n then n # st else climb_left n st)"

fun climb_right :: "'v tnode \<Rightarrow> 'v tnode list \<Rightarrow> 'v tnode list" where
  "climb_right prev [] = []"
| "climb_right prev (n # st) = (if prev = right n then n # st else climb_right n st)"

definition iterator_incr :: "'v tree_iterator \<Rightarrow> 'v tree_iterator option" where
  "iterator_incr it =
     (case it_stack it of
        [] \<Rightarrow> None
      | n # st \<Rightarrow>
          Some (it\<lparr>it_stack :=
            if isTerminator (right n) then climb_left n st
            else push_left (left (right n)) (right n # n # st)\<rparr>))"

definition iterator_decr :: "'v tree_iterator \<Rightarrow> 'v tree_iterator" where
  "iterator_decr it =
     (case it_stack it of
        [] \<Rightarrow> it\<lparr>it_stack := push_right (it_root it) []\<rparr>
      | n # st \<Rightarrow>
          it\<lparr>it_stack :=
            if isTerminator (left n) then climb_right n st
            else push_right (right (left n)) (left n # n # st)\<rparr>)"

definition tree_begin :: "'v tnode \<Rightarrow> 'v tree_iterator" where
  "tree_begin t = iterator t True"

definition tree_end :: "'v tnode \<Rightarrow> 'v tree_iterator" where
  "tree_end t = iterator t False"

text \<open>The descent of \<^verbatim>\<open>lower_bound\<close>; the flag says that it met the key and returns at once.\<close>

fun lower_bound_loop :: "('k \<Rightarrow> 'k \<Rightarrow> bool) \<Rightarrow> ('v \<Rightarrow> 'k) \<Rightarrow> 'k \<Rightarrow> 'v tnode \<Rightarrow> 'v tnode list \<Rightarrow> 'v tnode list \<times> bool" where
  "lower_bound_loop cmp kov k Terminator st = (st, False)"
| "lower_bound_loop cmp kov k (Node l x h r) st =
     (if cmp k (kov x) then lower_bound_loop cmp kov k l (Node l x h r # st)
      else if cmp (kov x) k then lower_bound_loop cmp kov k r (Node l x h r # st)
      else (Node l x h r # st, True))"

definition tree_lower_bound :: "('k \<Rightarrow> 'k \<Rightarrow> bool) \<Rightarrow> ('v \<Rightarrow> 'k) \<Rightarrow> 'k \<Rightarrow> 'v tnode \<Rightarrow> 'v tree_iterator option" where
  "tree_lower_bound cmp kov k t =
     (let (st, found) = lower_bound_loop cmp kov k t [];
          it = \<lparr>it_root = t, it_stack = st\<rparr>
      in if found then Some it
         else case st of
           [] \<Rightarrow> Some it
         | n # _ \<Rightarrow> if cmp (kov (val n)) k then iterator_incr it else Some it)"

definition tree_upper_bound :: "('k \<Rightarrow> 'k \<Rightarrow> bool) \<Rightarrow> ('v \<Rightarrow> 'k) \<Rightarrow> 'k \<Rightarrow> 'v tnode \<Rightarrow> 'v tree_iterator option" where
  "tree_upper_bound cmp kov k t =
     do { it \<leftarrow> tree_lower_bound cmp kov k t;
          case iterator_deref it of
            None \<Rightarrow> Some it
          | Some x \<Rightarrow> if \<not> cmp k (kov x) then iterator_incr it else Some it }"

definition tree_find :: "('k \<Rightarrow> 'k \<Rightarrow> bool) \<Rightarrow> ('v \<Rightarrow> 'k) \<Rightarrow> 'k \<Rightarrow> 'v tnode \<Rightarrow> 'v tree_iterator option" where
  "tree_find cmp kov k t =
     do { it \<leftarrow> tree_lower_bound cmp kov k t;
          case iterator_deref it of
            None \<Rightarrow> Some (tree_end t)
          | Some x \<Rightarrow> if cmp k (kov x) then Some (tree_end t) else Some it }"

section \<open>Paths\<close>

fun path :: "'v tnode \<Rightarrow> 'v tnode list \<Rightarrow> bool" where
  "path root [] \<longleftrightarrow> True"
| "path root [n] \<longleftrightarrow> n = root \<and> n \<noteq> Terminator"
| "path root (m # n # st) \<longleftrightarrow> (m = left n \<or> m = right n) \<and> m \<noteq> Terminator \<and> path root (n # st)"

text \<open>The values before and after the subtree at the top of a path, and from its root on.\<close>

fun before :: "'v tnode \<Rightarrow> 'v tnode list \<Rightarrow> 'v list" where
  "before prev [] = []"
| "before prev (n # st) = before n st @ (if prev = right n then inorder (left n) @ [val n] else [])"

fun after :: "'v tnode \<Rightarrow> 'v tnode list \<Rightarrow> 'v list" where
  "after prev [] = []"
| "after prev (n # st) = (if prev = left n then val n # inorder (right n) else []) @ after n st"

fun rest :: "'v tnode list \<Rightarrow> 'v list" where
  "rest [] = []"
| "rest (n # st) = val n # inorder (right n) @ after n st"

lemma inorder_split: "n \<noteq> Terminator \<Longrightarrow> inorder n = inorder (left n) @ val n # inorder (right n)"
  by (cases n) auto

lemma path_tl: "path root (n # st) \<Longrightarrow> path root st"
  by (cases st) auto

lemma path_hd: "path root (n # st) \<Longrightarrow> n \<noteq> Terminator"
  by (cases st) auto

lemma path_append: "path root (st @ st') \<Longrightarrow> path root st'"
  by (induction st) (auto dest: path_tl)

lemma rest_push_left: "st = [] \<or> t = left (hd st) \<Longrightarrow> rest (push_left t st) = inorder t @ after t st"
proof (induction t arbitrary: st)
  case Terminator
  then show ?case by (cases st) auto
qed simp

lemma rest_climb_left: "rest (climb_left prev st) = after prev st"
  by (induction st arbitrary: prev) auto

lemma path_push_left: "path root st \<Longrightarrow> (if st = [] then t = root else t = left (hd st)) \<Longrightarrow> path root (push_left t st)"
proof (induction t arbitrary: st)
  case (Node l v h r)
  from Node.prems have "path root (Node l v h r # st)" by (cases st) (auto split: if_splits)
  then show ?case using Node.IH(1) by simp
qed simp

lemma path_push_right: "path root st \<Longrightarrow> (if st = [] then t = root else t = right (hd st)) \<Longrightarrow> path root (push_right t st)"
proof (induction t arbitrary: st)
  case (Node l v h r)
  from Node.prems have "path root (Node l v h r # st)" by (cases st) (auto split: if_splits)
  then show ?case using Node.IH(2) by simp
qed simp

lemma path_climb_left: "path root st \<Longrightarrow> path root (climb_left prev st)"
  by (induction st arbitrary: prev) (auto dest: path_tl)

lemma path_climb_right: "path root st \<Longrightarrow> path root (climb_right prev st)"
  by (induction st arbitrary: prev) (auto dest: path_tl)

lemma path_incr:
  assumes "path (it_root it) (it_stack it)" and "iterator_incr it = Some it'"
  shows "path (it_root it') (it_stack it') \<and> it_root it' = it_root it"
proof -
  from assms(2) obtain n st where st: "it_stack it = n # st" by (auto simp: iterator_incr_def split: list.splits)
  with assms(1) have p: "path (it_root it) (n # st)" by simp
  with path_climb_left [OF path_tl [OF p]] assms(2) st show ?thesis
    by (auto simp: iterator_incr_def intro!: path_push_left)
qed

lemma path_decr:
  assumes "path (it_root it) (it_stack it)"
  shows "path (it_root (iterator_decr it)) (it_stack (iterator_decr it)) \<and> it_root (iterator_decr it) = it_root it"
proof (cases "it_stack it")
  case (Cons n st)
  with assms have p: "path (it_root it) (n # st)" by simp
  with path_climb_right [OF path_tl [OF p]] Cons show ?thesis
    by (auto simp: iterator_decr_def intro!: path_push_right)
qed (auto simp: iterator_decr_def intro!: path_push_right)

text \<open>A path is no longer than the tree is high, so the stack of the iterator suffices.\<close>

lemma path_height: "path root (n # st) \<Longrightarrow> avl root \<Longrightarrow> avl n \<and> height n + length st \<le> height root"
proof (induction st arbitrary: n)
  case (Cons m st)
  then have m: "avl m" "height m + length st \<le> height root" and "m \<noteq> Terminator" by (auto dest: path_hd)
  with Cons.prems show ?case by (cases m) auto
qed simp

lemma path_length: "path root st \<Longrightarrow> avl root \<Longrightarrow> length st \<le> height root"
proof (cases st)
  case (Cons n st')
  assume "path root st" "avl root"
  with Cons path_height [of root n st'] path_hd [of root n st'] have "avl n" "height n + length st' \<le> height root" "n \<noteq> Terminator"
    by auto
  with Cons height_0_iff [of n] show ?thesis by (cases "height n") auto
qed simp

section \<open>Positions\<close>

context key_order
begin

lemma children_differ:
  assumes "ordered (inorder n)" and "left n \<noteq> Terminator \<or> right n \<noteq> Terminator"
  shows "left n \<noteq> right n"
proof (cases n)
  case (Node l v h r)
  show ?thesis
  proof
    assume eq: "left n = right n"
    with assms Node obtain x where "x \<in> set (inorder l)" by (cases l) auto
    with assms Node eq have "cmp (kov x) (kov v)" "cmp (kov v) (kov x)" by (auto simp: ordered_append)
    then show False using cmp_asym by blast
  qed
qed (use assms in simp)

lemma path_ordered: "path root (n # st) \<Longrightarrow> ordered (inorder root) \<Longrightarrow> ordered (inorder n)"
proof (induction st arbitrary: n)
  case (Cons m st)
  then have "ordered (inorder m)" "m \<noteq> Terminator" by (auto dest: path_hd)
  with Cons.prems show ?case using inorder_split [of m] by (auto simp: ordered_append)
qed simp

lemma path_inorder:
  "path root (n # st) \<Longrightarrow> ordered (inorder root) \<Longrightarrow> inorder root = before n st @ inorder n @ after n st"
proof (induction st arbitrary: n)
  case (Cons m st)
  then have IH: "inorder root = before m st @ inorder m @ after m st" and m: "m \<noteq> Terminator"
    by (auto dest: path_hd)
  have "ordered (inorder m)" using path_ordered Cons.prems by auto
  with Cons.prems have "left m \<noteq> right m" by (intro children_differ) auto
  with Cons.prems IH inorder_split [OF m] show ?case by auto
qed simp

text \<open>An iterator stands at position \<^term>\<open>i\<close> of the list of values.\<close>

definition at_pos :: "'v tree_iterator \<Rightarrow> nat \<Rightarrow> bool" where
  "at_pos it i \<longleftrightarrow> path (it_root it) (it_stack it) \<and> i \<le> length (inorder (it_root it))
     \<and> rest (it_stack it) = drop i (inorder (it_root it))"

lemma at_pos_end_iff:
  assumes "at_pos it i"
  shows "it_stack it = [] \<longleftrightarrow> i = length (inorder (it_root it))"
  using assms by (cases "it_stack it") (auto simp: at_pos_def)

lemma at_pos_deref:
  assumes "at_pos it i" and "i < length (inorder (it_root it))"
  shows "iterator_deref it = Some (inorder (it_root it) ! i)"
proof (cases "it_stack it")
  case (Cons n st)
  with assms have "val n # inorder (right n) @ after n st = drop i (inorder (it_root it))"
    by (simp add: at_pos_def)
  with assms(2) have "val n = inorder (it_root it) ! i" by (metis Cons_nth_drop_Suc list.inject)
  with Cons show ?thesis by (simp add: iterator_deref_def)
qed (use assms at_pos_end_iff in auto)

lemma at_pos_begin: "at_pos (tree_begin t) 0"
  using rest_push_left [of "[]" t] path_push_left [of t "[]" t]
  by (simp add: at_pos_def tree_begin_def iterator_def)

lemma at_pos_end: "at_pos (tree_end t) (length (inorder t))"
  by (simp add: at_pos_def tree_end_def iterator_def)

lemma at_pos_incr:
  assumes "at_pos it i" and "i < length (inorder (it_root it))" and "ordered (inorder (it_root it))"
  obtains it' where "iterator_incr it = Some it'" and "it_root it' = it_root it" and "at_pos it' (Suc i)"
proof -
  from assms at_pos_end_iff obtain n st where st: "it_stack it = n # st" by (cases "it_stack it") auto
  define st' where "st' = (if isTerminator (right n) then climb_left n st
            else push_left (left (right n)) (right n # n # st))"
  have p: "path (it_root it) (n # st)" and r: "rest (n # st) = drop i (inorder (it_root it))"
    using assms(1) st by (auto simp: at_pos_def)
  have n: "ordered (inorder n)" using path_ordered [OF p assms(3)] .
  have "path (it_root it) st'"
    using p path_climb_left [OF path_tl [OF p]] by (auto simp: st'_def intro!: path_push_left)
  moreover have "rest st' = tl (rest (n # st))"
  proof (cases "right n = Terminator")
    case True
    then show ?thesis by (simp add: st'_def rest_climb_left)
  next
    case False
    with children_differ [OF n] have "left n \<noteq> right n" by simp
    then have "after (right n) (n # st) = after n st" by auto
    with False inorder_split [OF False] show ?thesis
      using rest_push_left [of "right n # n # st" "left (right n)"] by (simp add: st'_def)
  qed
  then have "rest st' = drop (Suc i) (inorder (it_root it))" unfolding r by (simp add: drop_Suc tl_drop)
  ultimately have "at_pos (it\<lparr>it_stack := st'\<rparr>) (Suc i)"
    using assms(2) by (simp add: at_pos_def)
  with st show ?thesis by (intro that [of "it\<lparr>it_stack := st'\<rparr>"]) (simp_all add: iterator_incr_def st'_def)
qed

text \<open>The position of a node is the number of values before it.\<close>

lemma at_pos_path:
  assumes "path root (n # st)" and "ordered (inorder root)"
  shows "at_pos \<lparr>it_root = root, it_stack = n # st\<rparr> i \<longleftrightarrow> i = length (before n st @ inorder (left n))"
proof -
  define j where "j = length (before n st @ inorder (left n))"
  have "inorder root = (before n st @ inorder (left n)) @ rest (n # st)"
    using path_inorder [OF assms] inorder_split [OF path_hd [OF assms(1)]] by simp
  then have j: "rest (n # st) = drop j (inorder root)" "j < length (inorder root)"
    unfolding j_def by (simp_all del: rest.simps) simp
  have "i = j" if "drop j (inorder root) = drop i (inorder root)" "i \<le> length (inorder root)"
    using arg_cong [OF that(1), of length] that(2) j(2) by simp
  then show ?thesis unfolding j_def [symmetric] at_pos_def using assms(1) j by (auto simp del: rest.simps)
qed

fun incl :: "'v tnode list \<Rightarrow> 'v list" where
  "incl [] = []"
| "incl (n # st) = before n st @ inorder (left n) @ [val n]"

lemma incl_push_right: "st = [] \<or> t = right (hd st) \<Longrightarrow> incl (push_right t st) = before t st @ inorder t"
proof (induction t arbitrary: st)
  case Terminator
  then show ?case by (cases st) auto
qed simp

lemma incl_climb_right: "incl (climb_right prev st) = before prev st"
  by (induction st arbitrary: prev) auto

lemma at_pos_incl:
  assumes "path root st" and "ordered (inorder root)" and "length (incl st) = Suc i"
  shows "at_pos \<lparr>it_root = root, it_stack = st\<rparr> i"
  using assms at_pos_path [of root _ _ i] by (cases st) auto

lemma at_pos_decr:
  assumes "at_pos it (Suc i)" and "ordered (inorder (it_root it))"
  shows "at_pos (iterator_decr it) i \<and> it_root (iterator_decr it) = it_root it"
proof (cases "it_stack it")
  case Nil
  with assms(1) at_pos_end_iff have i: "Suc i = length (inorder (it_root it))" by blast
  have "at_pos \<lparr>it_root = it_root it, it_stack = push_right (it_root it) []\<rparr> i"
    using path_push_right [of "it_root it" "[]"] incl_push_right [of "[]" "it_root it"] i assms(2)
    by (intro at_pos_incl) auto
  with Nil show ?thesis by (cases it) (simp add: iterator_decr_def)
next
  case (Cons n st)
  define st' where "st' = (if isTerminator (left n) then climb_right n st
            else push_right (right (left n)) (left n # n # st))"
  have p: "path (it_root it) (n # st)" using assms(1) Cons by (simp add: at_pos_def)
  have n: "ordered (inorder n)" using path_ordered [OF p assms(2)] .
  have i: "Suc i = length (before n st @ inorder (left n))"
    using at_pos_path [OF p assms(2), of "Suc i"] assms(1) Cons by (cases it) simp
  have "path (it_root it) st'"
    using p path_climb_right [OF path_tl [OF p]] by (auto simp: st'_def intro!: path_push_right)
  moreover have "incl st' = before n st @ inorder (left n)"
  proof (cases "left n = Terminator")
    case True
    then show ?thesis by (simp add: st'_def incl_climb_right)
  next
    case False
    with children_differ [OF n] have "before (left n) (n # st) = before n st" by auto
    with False inorder_split [OF False] show ?thesis
      using incl_push_right [of "left n # n # st" "right (left n)"] by (simp add: st'_def)
  qed
  ultimately have "at_pos \<lparr>it_root = it_root it, it_stack = st'\<rparr> i"
    using i by (intro at_pos_incl [OF _ assms(2)]) simp_all
  with Cons show ?thesis by (cases it) (simp add: iterator_decr_def st'_def)
qed

text \<open>The path to a node is the search path of its key, so a position determines the iterator.\<close>

lemma search_path:
  assumes "path root (n # st)" and "ordered (inorder root)" and "v \<in> set (inorder n)"
  shows "lower_bound_loop cmp kov (kov v) root [] = lower_bound_loop cmp kov (kov v) n st"
  using assms
proof (induction st arbitrary: n)
  case (Cons m st)
  have pm: "path root (m # st)" using Cons.prems by simp
  have o: "ordered (inorder m)" using path_ordered [OF pm Cons.prems(2)] .
  obtain l x h r where m: "m = Node l x h r" using path_hd [OF pm] by (cases m) auto
  have "v \<in> set (inorder m)" using Cons.prems m by auto
  with Cons.IH [OF pm Cons.prems(2)]
  have "lower_bound_loop cmp kov (kov v) root [] = lower_bound_loop cmp kov (kov v) m st" .
  also have "\<dots> = lower_bound_loop cmp kov (kov v) n (m # st)"
  proof (cases "n = l")
    case True
    with Cons.prems o m have "cmp (kov v) (kov x)" by (simp add: ordered_append)
    with m True show ?thesis by simp
  next
    case False
    with Cons.prems o m have "n = r" "cmp (kov x) (kov v)" by (auto simp: ordered_append)
    with m cmp_asym show ?thesis by simp
  qed
  finally show ?case .
qed simp

lemma path_unique:
  assumes "path root (n # st)" and "ordered (inorder root)"
  shows "lower_bound_loop cmp kov (kov (val n)) root [] = (n # st, True)"
proof -
  have "n \<noteq> Terminator" using path_hd [OF assms(1)] .
  then show ?thesis using search_path [OF assms, of "val n"] cmp_irrefl by (cases n) auto
qed

lemma at_pos_unique:
  assumes "at_pos it i" and "at_pos it' j" and "it_root it = it_root it'" and "ordered (inorder (it_root it))"
  shows "it_stack it = it_stack it' \<longleftrightarrow> i = j"
proof
  assume "it_stack it = it_stack it'"
  then have "drop i (inorder (it_root it)) = drop j (inorder (it_root it))"
    using assms by (simp add: at_pos_def)
  from arg_cong [OF this, of length] show "i = j" using assms by (auto simp: at_pos_def)
next
  assume ij: "i = j"
  show "it_stack it = it_stack it'"
  proof (cases "i = length (inorder (it_root it))")
    case True
    with assms ij at_pos_end_iff [OF assms(1)] at_pos_end_iff [OF assms(2)] show ?thesis by simp
  next
    case False
    with assms ij obtain n st m st' where s: "it_stack it = n # st" "it_stack it' = m # st'"
      using at_pos_end_iff [OF assms(1)] at_pos_end_iff [OF assms(2)]
      by (cases "it_stack it"; cases "it_stack it'") auto
    with assms ij have "rest (n # st) = rest (m # st')" by (auto simp: at_pos_def simp del: rest.simps)
    then have "val n = val m" by simp
    moreover have "path (it_root it) (n # st)" "path (it_root it) (m # st')"
      using assms s by (auto simp: at_pos_def)
    ultimately show ?thesis using path_unique assms(4) s by (metis prod.inject)
  qed
qed

text \<open>The outcome of the descent of \<^verbatim>\<open>lower_bound\<close>.\<close>

lemma lower_bound_loop:
  assumes "t \<noteq> Terminator" and "path root (t # st)" and "ordered (inorder root)"
    and "\<forall>v\<in>set (before t st). cmp (kov v) k" and "\<forall>v\<in>set (after t st). cmp k (kov v)"
  shows "\<exists>n st' f. lower_bound_loop cmp kov k t st = (n # st', f) \<and> path root (n # st')
    \<and> (\<forall>v\<in>set (before n st'). cmp (kov v) k) \<and> (\<forall>v\<in>set (after n st'). cmp k (kov v))
    \<and> (if f then eqv k (kov (val n))
       else if cmp (kov (val n)) k then right n = Terminator
       else cmp k (kov (val n)) \<and> left n = Terminator)"
  using assms
proof (induction t arbitrary: st)
  case (Node l x h r)
  let ?n = "Node l x h r"
  have o: "ordered (inorder l @ x # inorder r)" using path_ordered [OF Node.prems(2,3)] by simp
  then have ol: "\<forall>y\<in>set (inorder l). cmp (kov y) (kov x)" and "\<forall>y\<in>set (inorder r). cmp (kov x) (kov y)"
    by (simp_all add: ordered_append)
  have d: "l \<noteq> r" if "l \<noteq> Terminator \<or> r \<noteq> Terminator" using children_differ [of ?n] o that by simp
  consider "cmp k (kov x)" | "cmp (kov x) k" "\<not> cmp k (kov x)" | "eqv k (kov x)" by (auto simp: eqv_def)
  then show ?case
  proof cases
    case 1
    show ?thesis
    proof (cases "l = Terminator")
      case True
      with 1 Node.prems cmp_asym [OF 1] show ?thesis by auto
    next
      case False
      then have "path root (l # ?n # st)" using Node.prems by simp
      moreover have "\<forall>v\<in>set (before l (?n # st)). cmp (kov v) k" using Node.prems False d by simp
      moreover have "\<forall>v\<in>set (after l (?n # st)). cmp k (kov v)"
        using Node.prems 1 o cmp_trans [OF 1] by (auto simp: ordered_append)
      ultimately show ?thesis using Node.IH(1) [OF False _ Node.prems(3)] 1 by simp
    qed
  next
    case 2
    show ?thesis
    proof (cases "r = Terminator")
      case True
      with 2 Node.prems show ?thesis by auto
    next
      case False
      then have "path root (r # ?n # st)" using Node.prems by simp
      moreover have "\<forall>v\<in>set (before r (?n # st)). cmp (kov v) k"
        using Node.prems 2 ol cmp_trans [OF _ 2(1)] by auto
      moreover have "\<forall>v\<in>set (after r (?n # st)). cmp k (kov v)" using Node.prems False d by simp
      ultimately show ?thesis using Node.IH(2) [OF False _ Node.prems(3)] 2 by simp
    qed
  next
    case 3
    with Node.prems show ?thesis by (auto simp: eqv_def)
  qed
qed simp

lemma length_below_split:
  assumes "ordered (xs @ v # ys)"
  shows "eqv k (kov v) \<Longrightarrow> length (below k (xs @ v # ys)) = length xs"
    and "cmp (kov v) k \<Longrightarrow> \<forall>y\<in>set ys. cmp k (kov y) \<Longrightarrow> length (below k (xs @ v # ys)) = Suc (length xs)"
    and "cmp k (kov v) \<Longrightarrow> \<forall>x\<in>set xs. cmp (kov x) k \<Longrightarrow> length (below k (xs @ v # ys)) = length xs"
proof -
  have o: "\<forall>x\<in>set xs. cmp (kov x) (kov v)" "\<forall>y\<in>set ys. cmp (kov v) (kov y)"
    using assms by (simp_all add: ordered_append)
  show "length (below k (xs @ v # ys)) = length xs" if "eqv k (kov v)"
    using parts_at(1) [OF that o(2)] parts_at(2) [OF that o(1)] that by (simp add: eqv_def)
  show "length (below k (xs @ v # ys)) = Suc (length xs)" if "cmp (kov v) k" "\<forall>y\<in>set ys. cmp k (kov y)"
    using parts_right [OF that(1) o(1)] all_above [OF that(2)] that by simp
  show "length (below k (xs @ v # ys)) = length xs" if "cmp k (kov v)" "\<forall>x\<in>set xs. cmp (kov x) k"
    using parts_left [OF that(1) o(2)] all_below [OF that(2)] cmp_asym [OF that(1)] that by simp
qed

lemma at_pos_lower_bound:
  assumes "ordered (inorder t)"
  obtains it where "tree_lower_bound cmp kov k t = Some it" and "it_root it = t"
    and "at_pos it (length (below k (inorder t)))"
proof (cases "t = Terminator")
  case True
  then show ?thesis by (intro that [of "\<lparr>it_root = Terminator, it_stack = []\<rparr>"])
      (simp_all add: tree_lower_bound_def at_pos_def)
next
  case False
  then obtain n st f where n: "lower_bound_loop cmp kov k t [] = (n # st, f)" "path t (n # st)"
    "\<forall>v\<in>set (before n st). cmp (kov v) k" "\<forall>v\<in>set (after n st). cmp k (kov v)"
    "if f then eqv k (kov (val n)) else if cmp (kov (val n)) k then right n = Terminator
       else cmp k (kov (val n)) \<and> left n = Terminator"
    using lower_bound_loop [of t t "[]" k] assms by auto
  let ?xs = "before n st @ inorder (left n)" and ?ys = "inorder (right n) @ after n st"
  let ?it = "\<lparr>it_root = t, it_stack = n # st\<rparr>"
  have t: "inorder t = ?xs @ val n # ?ys"
    using path_inorder [OF n(2) assms] inorder_split [OF path_hd [OF n(2)]] by simp
  have o: "ordered (?xs @ val n # ?ys)" using assms t by simp
  have pos: "at_pos ?it (length ?xs)" using at_pos_path [OF n(2) assms] by simp
  show ?thesis
  proof (cases "\<not> f \<and> cmp (kov (val n)) k")
    case True
    then have "length (below k (inorder t)) = Suc (length ?xs)"
      using length_below_split(2) [OF o, of k] n(4,5) t by simp
    moreover obtain it' where "iterator_incr ?it = Some it'" "it_root it' = t" "at_pos it' (Suc (length ?xs))"
      using at_pos_incr [OF pos] t assms by auto
    ultimately show ?thesis using True n(1) by (intro that [of it']) (simp_all add: tree_lower_bound_def)
  next
    case False
    then have "length (below k (inorder t)) = length ?xs"
      using length_below_split(1,3) [OF o, of k] n(3,5) t by (auto split: if_splits)
    with pos False n(1) show ?thesis
      by (intro that [of ?it]) (auto simp: tree_lower_bound_def Let_def)
  qed
qed

lemma at_pos_upper_bound:
  assumes "ordered (inorder t)"
  obtains it where "tree_upper_bound cmp kov k t = Some it" and "it_root it = t"
    and "at_pos it (length (below k (inorder t)) + length (at k (inorder t)))"
proof -
  obtain it where it: "tree_lower_bound cmp kov k t = Some it" "it_root it = t"
    "at_pos it (length (below k (inorder t)))" using at_pos_lower_bound [OF assms] .
  let ?b = "below k (inorder t)" and ?a = "at k (inorder t)"
  have cover: "inorder t = ?b @ ?a @ above k (inorder t)" using parts_cover [OF assms] .
  show ?thesis
  proof (cases "length ?b = length (inorder t)")
    case True
    then have "?a = []" using cover by (metis append_is_Nil_conv length_0_conv length_append add_cancel_left_right)
    moreover have "iterator_deref it = None"
      using at_pos_end_iff [OF it(3)] True it(2) by (simp add: iterator_deref_def)
    ultimately show ?thesis using it by (intro that [of it]) (simp_all add: tree_upper_bound_def)
  next
    case False
    then have lt: "length ?b < length (inorder t)" by (simp add: below_def le_neq_implies_less)
    let ?x = "inorder t ! length ?b"
    have d: "iterator_deref it = Some ?x" using at_pos_deref [OF it(3)] lt it(2) by simp
    show ?thesis
    proof (cases "?a = []")
      case True
      with cover lt have "?x \<in> set (above k (inorder t))"
        by (metis append_Nil length_append nat_add_left_cancel_less nth_append_length_plus nth_mem add_0_right less_imp_add_positive)
      then have "cmp k (kov ?x)" by (simp add: above_def)
      with True d it show ?thesis by (intro that [of it]) (simp_all add: tree_upper_bound_def)
    next
      case False
      then obtain v where a: "?a = [v]" "eqv k (kov v)" using at_ordered [OF assms, of k] by blast
      with cover have "?x = v" by (metis append_Cons nth_append_length)
      moreover obtain it' where "iterator_incr it = Some it'" "it_root it' = t" "at_pos it' (Suc (length ?b))"
        using at_pos_incr [OF it(3)] lt it(2) assms by auto
      ultimately show ?thesis using a d it by (intro that [of it']) (simp_all add: tree_upper_bound_def eqv_def)
    qed
  qed
qed

lemma at_pos_find:
  assumes "tree_inv t"
  obtains it where "tree_find cmp kov k t = Some it" and "it_root it = t"
    and "iterator_deref it = tree_lookup cmp kov k t"
    and "tree_lookup cmp kov k t = None \<Longrightarrow> it = tree_end t"
proof -
  have o: "ordered (inorder t)" using assms by (simp add: tree_inv_def)
  obtain it where it: "tree_lower_bound cmp kov k t = Some it" "it_root it = t"
    "at_pos it (length (below k (inorder t)))" using at_pos_lower_bound [OF o] .
  let ?b = "below k (inorder t)" and ?a = "at k (inorder t)"
  have cover: "inorder t = ?b @ ?a @ above k (inorder t)" using parts_cover [OF o] .
  have e: "iterator_deref (tree_end t) = None" "it_root (tree_end t) = t"
    by (simp_all add: tree_end_def iterator_def iterator_deref_def)
  show ?thesis
  proof (cases "?a = []")
    case False
    then obtain v where a: "?a = [v]" "eqv k (kov v)" using at_ordered [OF o, of k] by blast
    with cover have "inorder t ! length ?b = v" "length ?b < length (inorder t)"
      by (metis append_Cons nth_append_length, metis append_Cons length_append less_add_same_cancel1 length_greater_0_conv list.distinct(1))
    with at_pos_deref [OF it(3)] it(2) have "iterator_deref it = Some v" by simp
    with a it show ?thesis by (intro that [of it]) (simp_all add: tree_find_def lookup_at [OF o] eqv_def)
  next
    case True
    show ?thesis
    proof (cases "iterator_deref it")
      case None
      with it e True show ?thesis by (intro that [of "tree_end t"]) (simp_all add: tree_find_def lookup_at [OF o])
    next
      case (Some x)
      then have lt: "length ?b < length (inorder t)"
        using at_pos_end_iff [OF it(3)] it(2,3) by (auto simp: iterator_deref_def at_pos_def split: list.splits)
      with Some at_pos_deref [OF it(3)] it(2) have "x = inorder t ! length ?b" by simp
      with True cover lt have "x \<in> set (above k (inorder t))"
        by (metis append_Nil length_append nat_add_left_cancel_less nth_append_length_plus nth_mem add_0_right less_imp_add_positive)
      then have "cmp k (kov x)" by (simp add: above_def)
      with it e True Some show ?thesis by (intro that [of "tree_end t"]) (simp_all add: tree_find_def lookup_at [OF o])
    qed
  qed
qed

text \<open>A position is a path, so no iterator in use overflows its stack.\<close>

lemma at_pos_capacity: "at_pos it i \<Longrightarrow> avl (it_root it) \<Longrightarrow> length (it_stack it) \<le> height (it_root it)"
  by (simp add: at_pos_def path_length)

end

section \<open>A loop over all values\<close>

text \<open>
  \<^verbatim>\<open>for (it = begin(); it != end(); ++it)\<close>: the values the loop visits, with a bound on the number of
  rounds; two iterators of one tree are equal when their stacks are.
\<close>

fun collect :: "nat \<Rightarrow> 'v tree_iterator \<Rightarrow> 'v list option" where
  "collect 0 it = None"
| "collect (Suc fuel) it =
     (if it_stack it = it_stack (tree_end (it_root it)) then Some []
      else do { v \<leftarrow> iterator_deref it; it' \<leftarrow> iterator_incr it; vs \<leftarrow> collect fuel it'; Some (v # vs) })"

context key_order
begin

lemma collect_at_pos:
  assumes "at_pos it i" and "ordered (inorder (it_root it))" and "length (inorder (it_root it)) - i < fuel"
  shows "collect fuel it = Some (drop i (inorder (it_root it)))"
  using assms
proof (induction fuel arbitrary: it i)
  case (Suc fuel)
  show ?case
  proof (cases "i = length (inorder (it_root it))")
    case True
    with at_pos_end_iff [OF Suc.prems(1)] show ?thesis by (simp add: tree_end_def iterator_def)
  next
    case False
    then have i: "i < length (inorder (it_root it))" using Suc.prems by (simp add: at_pos_def)
    obtain it' where it': "iterator_incr it = Some it'" "it_root it' = it_root it" "at_pos it' (Suc i)"
      using at_pos_incr [OF Suc.prems(1) i Suc.prems(2)] .
    have "it_stack it \<noteq> []" using at_pos_end_iff [OF Suc.prems(1)] i by simp
    moreover have "collect fuel it' = Some (drop (Suc i) (inorder (it_root it)))"
      using Suc.IH [OF it'(3)] it'(2) Suc.prems i by simp
    ultimately show ?thesis
      using it'(1) at_pos_deref [OF Suc.prems(1) i] Cons_nth_drop_Suc [OF i]
      by (simp add: tree_end_def iterator_def)
  qed
qed simp

end

end
