(* ===== verification/ImmutableMap.thy ===== *)
theory ImmutableMap
  imports TreeIterator
begin

text \<open>
  \<^verbatim>\<open>ImmutableMap\<close> and \<^verbatim>\<open>ImmutableSet\<close> (\<^verbatim>\<open>src/klee/include/klee/Internal/ADT/\<close>): the tree at a projection to
  the first component, or at the identity, ordered by \<^verbatim>\<open>std::less\<close>. Maps are related to partial
  functions and sets to sets; the interface that clients of a map rely on is the locale
  \<^verbatim>\<open>persistent_map\<close>.
\<close>

section \<open>Maps\<close>

type_synonym ('k, 'd) immutable_map = "('k \<times> 'd) tnode"

definition ImmutableMap_empty :: "('k, 'd) immutable_map" where
  "ImmutableMap_empty = Terminator"

definition ImmutableMap_isEmpty :: "('k, 'd) immutable_map \<Rightarrow> bool" where
  "ImmutableMap_isEmpty m = isTerminator m"

definition ImmutableMap_count :: "'k :: linorder \<Rightarrow> ('k, 'd) immutable_map \<Rightarrow> nat" where
  "ImmutableMap_count k m = tree_count (<) fst k m"

definition ImmutableMap_lookup :: "'k :: linorder \<Rightarrow> ('k, 'd) immutable_map \<Rightarrow> ('k \<times> 'd) option" where
  "ImmutableMap_lookup k m = tree_lookup (<) fst k m"

definition ImmutableMap_lookup_previous :: "'k :: linorder \<Rightarrow> ('k, 'd) immutable_map \<Rightarrow> ('k \<times> 'd) option" where
  "ImmutableMap_lookup_previous k m = tree_lookup_previous (<) fst k m"

definition ImmutableMap_insert :: "'k :: linorder \<times> 'd \<Rightarrow> ('k, 'd) immutable_map \<Rightarrow> ('k, 'd) immutable_map" where
  "ImmutableMap_insert v m = node_insert (<) fst v m"

definition ImmutableMap_replace :: "'k :: linorder \<times> 'd \<Rightarrow> ('k, 'd) immutable_map \<Rightarrow> ('k, 'd) immutable_map" where
  "ImmutableMap_replace v m = node_replace (<) fst v m"

definition ImmutableMap_remove :: "'k :: linorder \<Rightarrow> ('k, 'd) immutable_map \<Rightarrow> ('k, 'd) immutable_map" where
  "ImmutableMap_remove k m = node_remove (<) fst k m"

definition ImmutableMap_find :: "'k :: linorder \<Rightarrow> ('k, 'd) immutable_map \<Rightarrow> ('k \<times> 'd) tree_iterator option" where
  "ImmutableMap_find k m = tree_find (<) fst k m"

definition ImmutableMap_lower_bound :: "'k :: linorder \<Rightarrow> ('k, 'd) immutable_map \<Rightarrow> ('k \<times> 'd) tree_iterator option" where
  "ImmutableMap_lower_bound k m = tree_lower_bound (<) fst k m"

definition ImmutableMap_upper_bound :: "'k :: linorder \<Rightarrow> ('k, 'd) immutable_map \<Rightarrow> ('k \<times> 'd) tree_iterator option" where
  "ImmutableMap_upper_bound k m = tree_upper_bound (<) fst k m"

section \<open>Sets\<close>

type_synonym 'a immutable_set = "'a tnode"

definition ImmutableSet_count :: "'a :: linorder \<Rightarrow> 'a immutable_set \<Rightarrow> nat" where
  "ImmutableSet_count a s = tree_count (<) id a s"

definition ImmutableSet_lookup :: "'a :: linorder \<Rightarrow> 'a immutable_set \<Rightarrow> 'a option" where
  "ImmutableSet_lookup a s = tree_lookup (<) id a s"

definition ImmutableSet_insert :: "'a :: linorder \<Rightarrow> 'a immutable_set \<Rightarrow> 'a immutable_set" where
  "ImmutableSet_insert a s = node_insert (<) id a s"

definition ImmutableSet_replace :: "'a :: linorder \<Rightarrow> 'a immutable_set \<Rightarrow> 'a immutable_set" where
  "ImmutableSet_replace a s = node_replace (<) id a s"

definition ImmutableSet_remove :: "'a :: linorder \<Rightarrow> 'a immutable_set \<Rightarrow> 'a immutable_set" where
  "ImmutableSet_remove a s = node_remove (<) id a s"

section \<open>The contract of a persistent map\<close>

text \<open>
  What a client of the map relies on: an invariant that every update keeps, and what a lookup
  returns after each update, up to the equivalence of keys that the comparison induces.
\<close>

locale persistent_map =
  fixes same :: "'k \<Rightarrow> 'k \<Rightarrow> bool" and key :: "'v \<Rightarrow> 'k" and minv :: "'m \<Rightarrow> bool"
    and mempty :: 'm and mlookup :: "'k \<Rightarrow> 'm \<Rightarrow> 'v option"
    and minsert :: "'v \<Rightarrow> 'm \<Rightarrow> 'm" and mreplace :: "'v \<Rightarrow> 'm \<Rightarrow> 'm" and mremove :: "'k \<Rightarrow> 'm \<Rightarrow> 'm"
  assumes same_refl: "same k k"
    and same_sym: "same j k \<Longrightarrow> same k j"
    and same_trans: "same i j \<Longrightarrow> same j k \<Longrightarrow> same i k"
    and minv_empty: "minv mempty"
    and minv_insert: "minv m \<Longrightarrow> minv (minsert v m)"
    and minv_replace: "minv m \<Longrightarrow> minv (mreplace v m)"
    and minv_remove: "minv m \<Longrightarrow> minv (mremove k m)"
    and mlookup_empty: "mlookup k mempty = None"
    and mlookup_insert: "minv m \<Longrightarrow> mlookup k (minsert v m) =
          (if same k (key v) \<and> mlookup k m = None then Some v else mlookup k m)"
    and mlookup_replace: "minv m \<Longrightarrow> mlookup k (mreplace v m) = (if same k (key v) then Some v else mlookup k m)"
    and mlookup_remove: "minv m \<Longrightarrow> mlookup k (mremove j m) = (if same k j then None else mlookup k m)"
begin

text \<open>The maps a client can build, and what it gets back from one.\<close>

fun build :: "'v list \<Rightarrow> 'm" where
  "build [] = mempty"
| "build (v # vs) = mreplace v (build vs)"

lemma minv_build: "minv (build vs)"
  by (induction vs) (auto simp: minv_empty minv_replace)

lemma mlookup_build: "mlookup k (build vs) = find (\<lambda>v. same k (key v)) vs"
  by (induction vs) (auto simp: mlookup_empty mlookup_replace minv_build)

lemma replace_after_remove:
  assumes "minv m"
  shows "mlookup k (mreplace v (mremove (key v) m)) = mlookup k (mreplace v m)"
  using assms by (simp add: mlookup_replace mlookup_remove minv_remove)

end

sublocale key_order \<subseteq> tree_map: persistent_map eqv kov tree_inv Terminator
  "tree_lookup cmp kov" "node_insert cmp kov" "node_replace cmp kov" "node_remove cmp kov"
proof
  show "tree_inv Terminator" by (simp add: tree_inv_def ordered_def)
qed (fact eqv_refl eqv_sym eqv_trans tree_inv_insert tree_inv_replace tree_inv_remove
    lookup_empty lookup_insert lookup_replace lookup_remove)+

interpretation std_map: key_order "(<) :: 'k :: linorder \<Rightarrow> 'k \<Rightarrow> bool" "fst :: 'k \<times> 'd \<Rightarrow> 'k"
  by unfold_locales auto

interpretation std_set: key_order "(<) :: 'a :: linorder \<Rightarrow> 'a \<Rightarrow> bool" "id :: 'a \<Rightarrow> 'a"
  by unfold_locales auto

lemma std_eqv [simp]: "std_map.eqv a b \<longleftrightarrow> a = b" "std_set.eqv a b \<longleftrightarrow> a = b"
  by (auto simp: std_map.eqv_def std_set.eqv_def)

lemmas map_ops_defs = ImmutableMap_empty_def ImmutableMap_count_def ImmutableMap_lookup_def
  ImmutableMap_lookup_previous_def ImmutableMap_insert_def ImmutableMap_replace_def ImmutableMap_remove_def
  ImmutableMap_find_def ImmutableMap_lower_bound_def ImmutableMap_upper_bound_def

lemmas set_ops_defs = ImmutableSet_count_def ImmutableSet_lookup_def ImmutableSet_insert_def
  ImmutableSet_replace_def ImmutableSet_remove_def

section \<open>Maps as partial functions, sets as sets\<close>

definition map_inv :: "('k :: linorder, 'd) immutable_map \<Rightarrow> bool" where
  "map_inv m \<longleftrightarrow> avl m \<and> sorted_wrt (<) (map fst (inorder m))"

definition map_abs :: "('k :: linorder, 'd) immutable_map \<Rightarrow> 'k \<Rightarrow> 'd option" where
  "map_abs m k = map_option snd (ImmutableMap_lookup k m)"

definition set_inv :: "'a :: linorder immutable_set \<Rightarrow> bool" where
  "set_inv s \<longleftrightarrow> avl s \<and> sorted_wrt (<) (inorder s)"

definition set_abs :: "'a :: linorder immutable_set \<Rightarrow> 'a set" where
  "set_abs s = {a. ImmutableSet_count a s = 1}"

lemma map_inv_tree_inv: "map_inv m \<longleftrightarrow> std_map.tree_inv m"
  by (simp add: map_inv_def std_map.tree_inv_def std_map.ordered_def sorted_wrt_map)

lemma set_inv_tree_inv: "set_inv s \<longleftrightarrow> std_set.tree_inv s"
  by (simp add: set_inv_def std_set.tree_inv_def std_set.ordered_def)

lemma tree_lookup_key: "tree_lookup (<) fst k m = Some v \<Longrightarrow> fst v = (k :: 'k :: linorder)"
  by (induction m) (auto split: if_splits)

lemma tree_lookup_id: "tree_lookup (<) id k m = Some v \<Longrightarrow> v = (k :: 'k :: linorder)"
  by (induction m) (auto split: if_splits)

lemma map_abs_upd:
  assumes "map_inv m"
  shows "map_abs (ImmutableMap_insert (k, d) m) = (if k \<in> dom (map_abs m) then map_abs m else (map_abs m)(k \<mapsto> d))"
    and "map_abs (ImmutableMap_replace (k, d) m) = (map_abs m)(k \<mapsto> d)"
    and "map_abs (ImmutableMap_remove k m) = (map_abs m)(k := None)"
  using assms
  by (auto simp: map_abs_def map_ops_defs map_inv_tree_inv std_map.lookup_insert
      std_map.lookup_replace std_map.lookup_remove fun_eq_iff dom_def)

lemma map_inv_upd:
  assumes "map_inv m"
  shows "map_inv (ImmutableMap_insert v m)" "map_inv (ImmutableMap_replace v m)" "map_inv (ImmutableMap_remove k m)"
    and "popMin m = Some (w, m') \<Longrightarrow> map_inv m'" and "popMax m = Some (w, m') \<Longrightarrow> map_inv m'"
  using assms
  by (auto simp: map_ops_defs map_inv_tree_inv std_map.tree_inv_insert std_map.tree_inv_replace
      std_map.tree_inv_remove intro: std_map.tree_inv_popMin std_map.tree_inv_popMax)

lemma map_abs_map_of:
  assumes "map_inv m"
  shows "map_abs m = map_of (inorder m)"
proof -
  have o: "std_map.ordered (inorder m)" using assms by (simp add: map_inv_tree_inv std_map.tree_inv_def)
  have "map_option snd (case std_map.at k xs of [] \<Rightarrow> None | v # _ \<Rightarrow> Some v) = map_of xs k"
    for k :: 'a and xs :: "('a \<times> 'b) list"
    by (induction xs) auto
  then show ?thesis by (simp add: fun_eq_iff map_abs_def map_ops_defs std_map.lookup_at [OF o])
qed

lemma popMin_map_of: "popMin m = Some (v, m') \<Longrightarrow> map_of (inorder m) = (map_of (inorder m'))(fst v \<mapsto> snd v)"
  by (cases v) (simp add: popMin_inorder)

text \<open>The maps that the operations build.\<close>

inductive map_reachable :: "('k :: linorder, 'd) immutable_map \<Rightarrow> bool" where
  empty: "map_reachable ImmutableMap_empty"
| insert: "map_reachable m \<Longrightarrow> map_reachable (ImmutableMap_insert v m)"
| replace: "map_reachable m \<Longrightarrow> map_reachable (ImmutableMap_replace v m)"
| remove: "map_reachable m \<Longrightarrow> map_reachable (ImmutableMap_remove k m)"
| popMin: "map_reachable m \<Longrightarrow> popMin m = Some (v, m') \<Longrightarrow> map_reachable m'"
| popMax: "map_reachable m \<Longrightarrow> popMax m = Some (v, m') \<Longrightarrow> map_reachable m'"

lemma map_reachable_inv: "map_reachable m \<Longrightarrow> map_inv m"
proof (induction rule: map_reachable.induct)
  case empty
  show ?case by (simp add: map_inv_def ImmutableMap_empty_def)
qed (auto intro: map_inv_upd)

text \<open>The iterators that the operations produce.\<close>

inductive iter_reachable :: "('k :: linorder, 'd) immutable_map \<Rightarrow> ('k \<times> 'd) tree_iterator \<Rightarrow> bool" for m where
  it_begin: "iter_reachable m (tree_begin m)"
| it_end: "iter_reachable m (tree_end m)"
| it_find: "ImmutableMap_find k m = Some it \<Longrightarrow> iter_reachable m it"
| it_lower: "ImmutableMap_lower_bound k m = Some it \<Longrightarrow> iter_reachable m it"
| it_upper: "ImmutableMap_upper_bound k m = Some it \<Longrightarrow> iter_reachable m it"
| it_incr: "iter_reachable m it \<Longrightarrow> iterator_incr it = Some it' \<Longrightarrow> iter_reachable m it'"
| it_decr: "iter_reachable m it \<Longrightarrow> iter_reachable m (iterator_decr it)"

lemma iter_search_path:
  assumes "map_inv m"
  shows "ImmutableMap_lower_bound k m = Some it \<Longrightarrow> it_root it = m \<and> path m (it_stack it)"
    and "ImmutableMap_upper_bound k m = Some it \<Longrightarrow> it_root it = m \<and> path m (it_stack it)"
proof -
  have o: "std_map.ordered (inorder m)" using assms by (simp_all add: map_inv_tree_inv std_map.tree_inv_def)
  obtain it' where "tree_lower_bound (<) fst k m = Some it'" "it_root it' = m"
    "std_map.at_pos it' (length (std_map.below k (inorder m)))" using std_map.at_pos_lower_bound [OF o] .
  then show "ImmutableMap_lower_bound k m = Some it \<Longrightarrow> it_root it = m \<and> path m (it_stack it)"
    by (auto simp: map_ops_defs std_map.at_pos_def)
  obtain it' where "tree_upper_bound (<) fst k m = Some it'" "it_root it' = m"
    "std_map.at_pos it' (length (std_map.below k (inorder m)) + length (std_map.at k (inorder m)))"
    using std_map.at_pos_upper_bound [OF o] .
  then show "ImmutableMap_upper_bound k m = Some it \<Longrightarrow> it_root it = m \<and> path m (it_stack it)"
    by (auto simp: map_ops_defs std_map.at_pos_def)
qed

lemma find_lower_bound:
  "ImmutableMap_find k m = Some it \<Longrightarrow> it = tree_end m \<or> ImmutableMap_lower_bound k m = Some it"
  by (auto simp: map_ops_defs tree_find_def option_bind_simps split: option.splits if_splits)

lemma end_path: "it_root (tree_end m) = m \<and> path m (it_stack (tree_end m))"
  by (simp add: tree_end_def iterator_def)

lemma iter_reachable_path:
  assumes "iter_reachable m it" and "map_inv m"
  shows "it_root it = m \<and> path m (it_stack it)"
  using assms(1)
proof (induction rule: iter_reachable.induct)
  case it_begin
  show ?case using path_push_left [of m "[]" m] by (simp add: tree_begin_def iterator_def)
next
  case (it_find k it)
  then show ?case using find_lower_bound iter_search_path(1) [OF assms(2)] end_path by blast
next
  case (it_incr it it')
  then show ?case using path_incr [of it it'] by auto
next
  case (it_decr it)
  then show ?case using path_decr [of it] by auto
qed (use iter_search_path [OF assms(2)] end_path in blast)+

lemma lookup_previous_max:
  fixes m :: "('k :: linorder, 'd) immutable_map"
  assumes "map_inv m"
  shows "case ImmutableMap_lookup_previous k m of
      None \<Rightarrow> \<forall>v\<in>set (inorder m). k < fst v
    | Some v \<Rightarrow> v \<in> set (inorder m) \<and> fst v \<le> k \<and> (\<forall>w\<in>set (inorder m). fst w \<le> k \<longrightarrow> fst w \<le> fst v)"
  using std_map.lookup_previous_last [of m k] assms
  by (auto simp: map_inv_tree_inv map_ops_defs not_less split: option.splits)

lemma lookup_map_abs: "ImmutableMap_lookup k m = map_option (Pair k) (map_abs m k)"
  using tree_lookup_key [of k m] by (cases "tree_lookup (<) fst k m") (auto simp: map_abs_def map_ops_defs)

lemma count_map_abs: "ImmutableMap_count k m = (if k \<in> dom (map_abs m) then 1 else 0)"
  using std_map.count_lookup [of k m] by (auto simp: map_abs_def map_ops_defs dom_def)

lemma set_inv_upd:
  assumes "set_inv s"
  shows "set_inv (ImmutableSet_insert a s)" "set_inv (ImmutableSet_replace a s)" "set_inv (ImmutableSet_remove a s)"
  using assms
  by (auto simp: set_ops_defs set_inv_tree_inv std_set.tree_inv_insert std_set.tree_inv_replace std_set.tree_inv_remove)

lemma set_abs_upd:
  assumes "set_inv s"
  shows "set_abs (ImmutableSet_insert a s) = insert a (set_abs s)"
    and "set_abs (ImmutableSet_replace a s) = insert a (set_abs s)"
    and "set_abs (ImmutableSet_remove a s) = set_abs s - {a}"
  using assms
  by (auto simp: set_abs_def set_ops_defs std_set.count_lookup set_inv_tree_inv std_set.lookup_insert
      std_set.lookup_replace std_set.lookup_remove split: if_splits)

lemma lower_bound_collect:
  fixes m :: "('k :: linorder, 'd) immutable_map"
  assumes "map_inv m" and "ImmutableMap_lower_bound k m = Some it"
  shows "collect (Suc (node_size m)) it = Some (filter (\<lambda>v. k \<le> fst v) (inorder m))"
proof -
  have o: "std_map.ordered (inorder m)" using assms by (simp_all add: map_inv_tree_inv std_map.tree_inv_def)
  obtain it' where it: "tree_lower_bound (<) fst k m = Some it'" "it_root it' = m"
    "std_map.at_pos it' (length (std_map.below k (inorder m)))" using std_map.at_pos_lower_bound [OF o] .
  have "drop (length (std_map.below k (inorder m))) (inorder m) = std_map.at k (inorder m) @ std_map.above k (inorder m)"
    using arg_cong [OF std_map.parts_cover [OF o, of k], of "drop (length (std_map.below k (inorder m)))"]
    unfolding append_eq_conv_conj [symmetric] by simp
  moreover have "filter (\<lambda>v. k \<le> fst v) (std_map.below k (inorder m) @ std_map.at k (inorder m) @ std_map.above k (inorder m))
      = std_map.at k (inorder m) @ std_map.above k (inorder m)"
  proof -
    have "(a < k \<and> k \<le> a) = False" "(k = a \<and> k \<le> a) = (k = a)" "(k < a \<and> k \<le> a) = (k < a)" for a by auto
    then show ?thesis by (simp add: std_map.below_def std_map.at_def std_map.above_def)
  qed
  then have "filter (\<lambda>v. k \<le> fst v) (inorder m) = std_map.at k (inorder m) @ std_map.above k (inorder m)"
    using std_map.parts_cover [OF o, of k] by simp
  ultimately show ?thesis
    using std_map.collect_at_pos [OF it(3), of "Suc (node_size m)"] it o assms(2)
    by (simp add: map_ops_defs node_size_inorder less_Suc_eq_le del: collect.simps)
qed

section \<open>Properties\<close>

text \<open>
  C9. \<^verbatim>\<open>ImmutableMap\<close> implements a finite map: on a tree that satisfies the invariant, insertion adds a binding
  for a new key and leaves an existing one alone, replacement overwrites, and removal deletes; each
  result satisfies the invariant again, and \<^verbatim>\<open>lookup\<close> and \<^verbatim>\<open>count\<close> read the finite map.
\<close>

theorem ImmutableMap_refines:
  assumes "map_inv m"
  shows "map_inv (ImmutableMap_insert (k, d) m)
    \<and> map_abs (ImmutableMap_insert (k, d) m) = (if k \<in> dom (map_abs m) then map_abs m else (map_abs m)(k \<mapsto> d))
    \<and> map_inv (ImmutableMap_replace (k, d) m) \<and> map_abs (ImmutableMap_replace (k, d) m) = (map_abs m)(k \<mapsto> d)
    \<and> map_inv (ImmutableMap_remove k m) \<and> map_abs (ImmutableMap_remove k m) = (map_abs m)(k := None)
    \<and> ImmutableMap_lookup k m = map_option (Pair k) (map_abs m k)
    \<and> ImmutableMap_count k m = (if k \<in> dom (map_abs m) then 1 else 0)"
  using map_inv_upd [OF assms] map_abs_upd [OF assms] lookup_map_abs [of k m] count_map_abs [of k m] by blast

theorem ImmutableMap_refines_witness:
  "map_abs (ImmutableMap_replace (2 :: nat, ''b'') (Node Terminator (2, ''a'') 1 Terminator)) = [2 \<mapsto> ''b'']"
proof -
  have "map_inv (Node Terminator (2 :: nat, ''a'') 1 Terminator)" by (simp add: map_inv_def)
  moreover have "map_abs (Node Terminator (2 :: nat, ''a'') 1 Terminator) = [2 \<mapsto> ''a'']"
    by (auto simp: map_abs_def map_ops_defs fun_eq_iff)
  ultimately show ?thesis
    using ImmutableMap_refines [of "Node Terminator (2 :: nat, ''a'') 1 Terminator" 2 "''b''"] by simp
qed

text \<open>
  C16. Every map that the operations build is a search tree with the heights of siblings at most two apart and
  the right height stored in every node, and its height is logarithmic in its size: a map that fits
  into a 64-bit address space is less than 195 high.
\<close>

theorem ImmutableMap_balanced:
  assumes "map_reachable m" and "node_size m < 2 ^ 64"
  shows "map_inv m \<and> 2 ^ (height m div 3) \<le> node_size m + 1 \<and> height m < 195"
proof -
  have inv: "map_inv m" using map_reachable_inv [OF assms(1)] .
  then have b: "2 ^ (height m div 3) \<le> node_size m + 1" using avl_size_lower [of m] by (simp add: map_inv_def)
  have p: "(2 :: nat) ^ (height m div 3) \<le> 2 ^ 64" using b assms(2) by linarith
  have "height m div 3 \<le> 64" by (rule power_le_imp_le_exp [OF _ p]) simp
  with inv b show ?thesis by simp
qed

theorem ImmutableMap_balanced_witness:
  "height (ImmutableMap_insert (1 :: nat, True) ImmutableMap_empty) < 195"
proof -
  have "map_reachable (ImmutableMap_insert (1 :: nat, True) ImmutableMap_empty)"
    by (intro map_reachable.intros)
  moreover have "node_size (ImmutableMap_insert (1 :: nat, True) ImmutableMap_empty) = 1"
    by (simp add: map_ops_defs new_Node_def)
  ultimately show ?thesis
    using ImmutableMap_balanced [of "ImmutableMap_insert (1 :: nat, True) ImmutableMap_empty"] by simp
qed

text \<open>
  C26. No iterator overflows its stack: whatever searches and steps produced it, the path an iterator of a map
  holds is at most as long as the height of the root, which is the capacity of its \<^verbatim>\<open>FixedStack\<close>.
\<close>

theorem iterator_stack_capacity:
  assumes "map_inv m" and "iter_reachable m it"
  shows "it_root it = m \<and> length (it_stack it) \<le> height (it_root it)"
  using iter_reachable_path [OF assms(2,1)] path_length [of m "it_stack it"] assms(1) by (simp add: map_inv_def)

theorem iterator_stack_capacity_witness:
  "length (it_stack (tree_begin (Node Terminator (2 :: nat, True) 1 Terminator))) \<le> 1"
  using iterator_stack_capacity [of "Node Terminator (2 :: nat, True) 1 Terminator"
      "tree_begin (Node Terminator (2 :: nat, True) 1 Terminator)"]
  by (auto simp: map_inv_def iter_reachable.intros)

text \<open>
  C28. \<^verbatim>\<open>lookup_previous\<close> returns the binding with the greatest key that is not above the given one, and nothing
  when all keys are above it.
\<close>

theorem lookup_previous_greatest:
  assumes "map_inv m"
  shows "case ImmutableMap_lookup_previous k m of
      None \<Rightarrow> \<forall>j\<in>dom (map_abs m). k < j
    | Some (j, d) \<Rightarrow> map_abs m j = Some d \<and> j \<le> k \<and> (\<forall>i\<in>dom (map_abs m). i \<le> k \<longrightarrow> i \<le> j)"
proof -
  have d: "dom (map_abs m) = fst ` set (inorder m)"
    using map_abs_map_of [OF assms] by (simp add: dom_map_of_conv_image_fst)
  have "sorted_wrt (<) (map fst (inorder m))" using assms by (simp add: map_inv_def)
  then have "distinct (map fst (inorder m))" by (simp add: strict_sorted_iff)
  then have v: "map_abs m j = Some x" if "(j, x) \<in> set (inorder m)" for j x
    using that map_abs_map_of [OF assms] by simp
  show ?thesis
    using lookup_previous_max [OF assms, of k] d v
    by (cases "ImmutableMap_lookup_previous k m") (auto split: prod.splits)
qed

theorem lookup_previous_greatest_witness:
  "map_inv (Node Terminator (2 :: nat, True) 1 Terminator)
   \<and> map_abs (Node Terminator (2 :: nat, True) 1 Terminator) 2 = Some True"
  using lookup_previous_greatest [of "Node Terminator (2 :: nat, True) 1 Terminator" 5]
  by (simp add: map_inv_def map_ops_defs tree_lookup_previous_def)

text \<open>
  C27. A loop from \<^verbatim>\<open>begin()\<close> to \<^verbatim>\<open>end()\<close> ends and visits the bindings of the map, each once and in the order of
  their keys; a loop from \<^verbatim>\<open>lower_bound(k)\<close> visits those with a key of at least \<^verbatim>\<open>k\<close>. A number of rounds
  one above the size is enough.
\<close>

theorem iteration_in_order:
  assumes "map_inv m"
  shows "\<exists>vs it. collect (Suc (node_size m)) (tree_begin m) = Some vs
    \<and> sorted_wrt (<) (map fst vs) \<and> map_of vs = map_abs m
    \<and> ImmutableMap_lower_bound k m = Some it
    \<and> collect (Suc (node_size m)) it = Some (filter (\<lambda>v. k \<le> fst v) vs)"
proof -
  have o: "std_map.ordered (inorder m)" using assms by (simp_all add: map_inv_tree_inv std_map.tree_inv_def)
  have "collect (Suc (node_size m)) (tree_begin m) = Some (inorder m)"
    using std_map.collect_at_pos [OF std_map.at_pos_begin, of m "Suc (node_size m)"] o
    by (simp add: tree_begin_def iterator_def node_size_inorder)
  moreover obtain it where it: "ImmutableMap_lower_bound k m = Some it"
    by (rule std_map.at_pos_lower_bound [OF o, of k]) (auto simp: map_ops_defs)
  ultimately show ?thesis
    using lower_bound_collect [OF assms it] map_abs_map_of [OF assms] assms
    by (auto simp: map_inv_def simp del: collect.simps)
qed

theorem iteration_in_order_witness:
  "\<exists>vs. collect 2 (tree_begin (Node Terminator (2 :: nat, True) 1 Terminator)) = Some vs \<and> sorted_wrt (<) (map fst vs)"
proof -
  have i: "map_inv (Node Terminator (2 :: nat, True) 1 Terminator)" by (simp add: map_inv_def)
  show ?thesis using iteration_in_order [OF i, of 0] by (auto simp: numeral_2_eq_2)
qed

text \<open>
  \<^verbatim>\<open>ImmutableSet\<close> implements a finite set: insertion and replacement add the element, removal deletes it, and
  each keeps the invariant.
\<close>

lemma ImmutableSet_refines:
  assumes "set_inv s"
  shows "set_inv (ImmutableSet_insert a s) \<and> set_abs (ImmutableSet_insert a s) = insert a (set_abs s)
    \<and> set_inv (ImmutableSet_replace a s) \<and> set_abs (ImmutableSet_replace a s) = insert a (set_abs s)
    \<and> set_inv (ImmutableSet_remove a s) \<and> set_abs (ImmutableSet_remove a s) = set_abs s - {a}"
  using set_inv_upd [OF assms] set_abs_upd [OF assms] by blast

lemma ImmutableSet_example:
  "set_abs (ImmutableSet_remove (3 :: nat) (Node Terminator 3 1 Terminator)) = {}"
proof -
  have "set_inv (Node Terminator (3 :: nat) 1 Terminator)" by (simp add: set_inv_def)
  moreover have "set_abs (Node Terminator (3 :: nat) 1 Terminator) = {3}"
    by (auto simp: set_abs_def set_ops_defs split: if_splits)
  ultimately show ?thesis using ImmutableSet_refines [of "Node Terminator (3 :: nat) 1 Terminator" 3] by simp
qed

end
