(* ===== verification/AddressSpace.thy ===== *)
theory AddressSpace
  imports ImmutableMap
begin

text \<open>
  The copy-on-write address spaces of the states (\<^verbatim>\<open>src/klee/lib/Core/AddressSpace.cpp\<close>,
  \<^verbatim>\<open>src/klee/include/klee/AddressSpace.h\<close>). Object states are mutable and shared between the address
  spaces of forked states, so they live in an explicit store; an address space maps memory objects
  to addresses of that store. The theory shows that the epoch counters keep the spaces apart: no
  write through one address space can be seen through another.
\<close>

section \<open>Objects and the store\<close>

record memory_object =
  mo_id :: nat
  mo_address :: "64 word"
  mo_size :: "32 word"
  isUserSpecified :: bool

record object_state =
  copyOnWriteOwner :: "32 word"
  readOnly :: bool
  concreteStore :: "8 word list"

type_synonym store = "nat \<Rightarrow> object_state option"

definition MemoryObjectLT :: "memory_object \<Rightarrow> memory_object \<Rightarrow> bool" where
  "MemoryObjectLT a b \<longleftrightarrow> mo_address a < mo_address b"

type_synonym memory_map = "(memory_object \<times> nat) tnode"

text \<open>The field \<^verbatim>\<open>state\<close> points to the owning state; it is null in a fresh copy until the fork sets it.\<close>

record address_space =
  cowKey :: "32 word"
  objects :: memory_map
  owner_state :: "nat option"

definition new_AddressSpace :: "nat \<Rightarrow> address_space" where
  "new_AddressSpace st = \<lparr>cowKey = 1, objects = Terminator, owner_state = Some st\<rparr>"

text \<open>The copy constructor moves the original to a new epoch, too: it returns the original and the copy.\<close>

definition copy_AddressSpace :: "address_space \<Rightarrow> address_space \<times> address_space" where
  "copy_AddressSpace b =
     (let b' = b\<lparr>cowKey := cowKey b + 1\<rparr> in
      (b', \<lparr>cowKey = cowKey b', objects = objects b', owner_state = None\<rparr>))"

definition findObject :: "address_space \<Rightarrow> memory_object \<Rightarrow> nat option" where
  "findObject as mo = map_option snd (tree_lookup MemoryObjectLT fst mo (objects as))"

definition hack :: "64 word \<Rightarrow> memory_object" where
  "hack address = \<lparr>mo_id = 0, mo_address = address, mo_size = 0, isUserSpecified = False\<rparr>"

definition findObject_address :: "address_space \<Rightarrow> 64 word \<Rightarrow> (memory_object \<times> nat) option" where
  "findObject_address as address = tree_lookup MemoryObjectLT fst (hack address) (objects as)"

definition bindObject :: "memory_object \<Rightarrow> nat \<Rightarrow> store \<times> address_space \<Rightarrow> (store \<times> address_space) option" where
  "bindObject mo os hs =
     (case hs of (h, as) \<Rightarrow>
      do { require (owner_state as \<noteq> None);
           o' \<leftarrow> h os;
           require (copyOnWriteOwner o' = 0);
           Some (h(os \<mapsto> o'\<lparr>copyOnWriteOwner := cowKey as\<rparr>),
                 as\<lparr>objects := node_replace MemoryObjectLT fst (mo, os) (objects as)\<rparr>) })"

definition unbindObject :: "memory_object \<Rightarrow> address_space \<Rightarrow> address_space option" where
  "unbindObject mo as =
     do { require (owner_state as \<noteq> None);
          Some (as\<lparr>objects := node_remove MemoryObjectLT fst mo (objects as)\<rparr>) }"

definition isOwnedByUs :: "address_space \<Rightarrow> object_state \<Rightarrow> bool" where
  "isOwnedByUs as os \<longleftrightarrow> cowKey as = copyOnWriteOwner os"

text \<open>A copy is placed at the address \<^verbatim>\<open>n\<close> that the allocator returns.\<close>

definition getWriteable ::
  "nat \<Rightarrow> memory_object \<Rightarrow> nat \<Rightarrow> store \<times> address_space \<Rightarrow> (nat \<times> store \<times> address_space) option" where
  "getWriteable n mo os hs =
     (case hs of (h, as) \<Rightarrow>
      do { o' \<leftarrow> h os;
           require (\<not> readOnly o');
           if cowKey as = copyOnWriteOwner o' then Some (os, h, as)
           else do { require (owner_state as \<noteq> None);
                     Some (n, h(n \<mapsto> o'\<lparr>copyOnWriteOwner := cowKey as\<rparr>),
                           as\<lparr>objects := node_replace MemoryObjectLT fst (mo, n) (objects as)\<rparr>) } })"

text \<open>
  The exchange with native code: the memory of the process, a function from addresses to bytes, is
  compared with the objects or copied in. The loop runs over the map it starts with, while the
  address space changes; \<^verbatim>\<open>ns\<close> are the addresses that the allocator returns for the copies.
\<close>

definition host_bytes :: "(64 word \<Rightarrow> 8 word) \<Rightarrow> memory_object \<Rightarrow> 8 word list" where
  "host_bytes mem mo = map (\<lambda>i. mem (mo_address mo + of_nat i)) [0..<unat (mo_size mo)]"

fun copyInConcretes_loop ::
  "nat list \<Rightarrow> (64 word \<Rightarrow> 8 word) \<Rightarrow> (memory_object \<times> nat) list \<Rightarrow> store \<times> address_space
    \<Rightarrow> (bool \<times> store \<times> address_space) option" where
  "copyInConcretes_loop ns mem [] hs = Some (True, hs)"
| "copyInConcretes_loop ns mem ((mo, os) # its) (h, as) =
     (if isUserSpecified mo then copyInConcretes_loop ns mem its (h, as)
      else do { o' \<leftarrow> h os;
                if readOnly o' then
                  (if take (unat (mo_size mo)) (concreteStore o') \<noteq> host_bytes mem mo then Some (False, h, as)
                   else copyInConcretes_loop ns mem its (h, as))
                else (case ns of
                  [] \<Rightarrow> None
                | n # ns' \<Rightarrow>
                    do { (w, h', as') \<leftarrow> getWriteable n mo os (h, as);
                         wos \<leftarrow> h' w;
                         copyInConcretes_loop ns' mem its
                           (h'(w \<mapsto> wos\<lparr>concreteStore := host_bytes mem mo @ drop (unat (mo_size mo)) (concreteStore wos)\<rparr>), as') }) })"

definition copyInConcretes ::
  "nat list \<Rightarrow> (64 word \<Rightarrow> 8 word) \<Rightarrow> store \<times> address_space \<Rightarrow> (bool \<times> store \<times> address_space) option" where
  "copyInConcretes ns mem hs = copyInConcretes_loop ns mem (inorder (objects (snd hs))) hs"

definition copyOutConcretes :: "store \<Rightarrow> address_space \<Rightarrow> (64 word \<Rightarrow> 8 word) \<Rightarrow> (64 word \<Rightarrow> 8 word) option" where
  "copyOutConcretes h as mem =
     foldl (\<lambda>m (mo, os). do { mem' \<leftarrow> m;
              if isUserSpecified mo then Some mem'
              else do { o' \<leftarrow> h os;
                        Some (if readOnly o' then mem'
                              else (\<lambda>a. let i = unat (a - mo_address mo) in
                                       if i < unat (mo_size mo) then concreteStore o' ! i else mem' a)) } })
       (Some mem) (inorder (objects as))"

section \<open>The states of a run\<close>

record cow_sys =
  heap :: store
  spaces :: "nat \<Rightarrow> address_space option"

text \<open>What a client reads of an object through an address space, and how it writes one.\<close>

definition read_object :: "cow_sys \<Rightarrow> nat \<Rightarrow> memory_object \<Rightarrow> 8 word list option" where
  "read_object sys A mo =
     do { as \<leftarrow> spaces sys A; os \<leftarrow> findObject as mo; o' \<leftarrow> heap sys os; Some (concreteStore o') }"

definition write_object :: "nat \<Rightarrow> nat \<Rightarrow> memory_object \<Rightarrow> 8 word list \<Rightarrow> cow_sys \<Rightarrow> cow_sys option" where
  "write_object n A mo bytes sys =
     do { as \<leftarrow> spaces sys A;
          os \<leftarrow> findObject as mo;
          (w, h, as') \<leftarrow> getWriteable n mo os (heap sys, as);
          o' \<leftarrow> h w;
          Some \<lparr>heap = h(w \<mapsto> o'\<lparr>concreteStore := bytes\<rparr>), spaces = (spaces sys)(A \<mapsto> as')\<rparr> }"

text \<open>
  A step of a run. The allocator returns addresses that are not in use. An object state starts with owner 0. The epoch is a 32-bit counter; the rule for
  a fork covers the epochs before the last one.
\<close>

definition unused :: "store \<Rightarrow> nat list \<Rightarrow> bool" where
  "unused h ns \<longleftrightarrow> distinct ns \<and> (\<forall>n\<in>set ns. h n = None)"

inductive cow_step :: "cow_sys \<Rightarrow> cow_sys \<Rightarrow> bool" where
  alloc: "heap sys n = None \<Longrightarrow>
    cow_step sys (sys\<lparr>heap := (heap sys)(n \<mapsto> \<lparr>copyOnWriteOwner = 0, readOnly = False, concreteStore = bytes\<rparr>)\<rparr>)"
| bind: "spaces sys A = Some as \<Longrightarrow> bindObject mo os (heap sys, as) = Some (h, as') \<Longrightarrow>
    cow_step sys \<lparr>heap = h, spaces = (spaces sys)(A \<mapsto> as')\<rparr>"
| unbind: "spaces sys A = Some as \<Longrightarrow> unbindObject mo as = Some as' \<Longrightarrow>
    cow_step sys (sys\<lparr>spaces := (spaces sys)(A \<mapsto> as')\<rparr>)"
| fork: "spaces sys A = Some as \<Longrightarrow> spaces sys B = None \<Longrightarrow> cowKey as \<noteq> - 1 \<Longrightarrow>
    copy_AddressSpace as = (as', bs) \<Longrightarrow>
    cow_step sys (sys\<lparr>spaces := (spaces sys)(A \<mapsto> as', B \<mapsto> bs\<lparr>owner_state := Some B\<rparr>)\<rparr>)"
| update: "heap sys n = None \<Longrightarrow> write_object n A mo bytes sys = Some sys' \<Longrightarrow> cow_step sys sys'"

| copy_in: "spaces sys A = Some as \<Longrightarrow> unused (heap sys) ns \<Longrightarrow>
    copyInConcretes ns mem (heap sys, as) = Some (ok, h, as') \<Longrightarrow>
    cow_step sys \<lparr>heap = h, spaces = (spaces sys)(A \<mapsto> as')\<rparr>"

definition initial_sys :: cow_sys where
  "initial_sys = \<lparr>heap = (\<lambda>_. None), spaces = [0 \<mapsto> new_AddressSpace 0]\<rparr>"

inductive cow_reachable :: "cow_sys \<Rightarrow> bool" where
  start: "cow_reachable initial_sys"
| step: "cow_reachable sys \<Longrightarrow> cow_step sys sys' \<Longrightarrow> cow_reachable sys'"

section \<open>The map of an address space\<close>

interpretation mo_map: key_order MemoryObjectLT "fst :: memory_object \<times> 'd \<Rightarrow> memory_object"
  by unfold_locales (auto simp: MemoryObjectLT_def)

lemma mo_eqv [simp]: "mo_map.eqv a b \<longleftrightarrow> mo_address a = mo_address b"
  by (auto simp: mo_map.eqv_def MemoryObjectLT_def)

lemma mo_ordered: "mo_map.ordered xs \<longleftrightarrow> sorted_wrt (\<lambda>a b. mo_address (fst a) < mo_address (fst b)) xs"
  unfolding mo_map.ordered_def by (simp add: MemoryObjectLT_def)

abbreviation entries :: "address_space \<Rightarrow> (memory_object \<times> nat) set" where
  "entries as \<equiv> set (inorder (objects as))"

definition bound :: "address_space \<Rightarrow> nat set" where
  "bound as = snd ` entries as"

lemma findObject_entry:
  assumes "mo_map.tree_inv (objects as)" and "findObject as mo = Some os"
  shows "\<exists>m. (m, os) \<in> entries as \<and> mo_address m = mo_address mo"
proof -
  have o: "mo_map.ordered (inorder (objects as))" using assms(1) by (simp add: mo_map.tree_inv_def)
  obtain v where v: "tree_lookup MemoryObjectLT fst mo (objects as) = Some v" "os = snd v"
    using assms(2) by (auto simp: findObject_def)
  then have "v \<in> entries as \<and> mo_address (fst v) = mo_address mo"
    using mo_map.at_ordered [OF o, of mo] mo_map.lookup_at [OF o, of mo] by auto
  with v(2) show ?thesis by (cases v) auto
qed

lemma findObject_bound:
  "mo_map.tree_inv (objects as) \<Longrightarrow> findObject as mo = Some os \<Longrightarrow> os \<in> bound as"
  using findObject_entry [of as mo os] by (force simp: bound_def)

lemma set_replace_subset:
  assumes "mo_map.tree_inv t"
  shows "set (inorder (node_replace MemoryObjectLT fst v t)) \<subseteq> insert v (set (inorder t))"
proof -
  have o: "mo_map.ordered (inorder t)" using assms by (simp add: mo_map.tree_inv_def)
  show ?thesis unfolding mo_map.inorder_replace [OF o] by (auto simp: mo_map.below_def mo_map.above_def)
qed

lemma set_remove_subset:
  assumes "mo_map.tree_inv t"
  shows "set (inorder (node_remove MemoryObjectLT fst k t)) \<subseteq> set (inorder t)"
proof -
  have o: "mo_map.ordered (inorder t)" using assms by (simp add: mo_map.tree_inv_def)
  show ?thesis unfolding mo_map.inorder_remove [OF o] by (auto simp: mo_map.below_def mo_map.above_def)
qed

section \<open>The invariant of the epochs\<close>

text \<open>
  Every bound object state exists, has an owner, and belongs to no epoch after the current one of
  the space; it is bound once in a space, and one that two spaces share belongs to an epoch before the current ones of both.
\<close>

definition space_ok :: "store \<Rightarrow> address_space \<Rightarrow> bool" where
  "space_ok h as \<longleftrightarrow> mo_map.tree_inv (objects as) \<and> 0 < cowKey as \<and> inj_on snd (entries as)
     \<and> (\<forall>os\<in>bound as. \<exists>o'. h os = Some o' \<and> 0 < copyOnWriteOwner o' \<and> copyOnWriteOwner o' \<le> cowKey as)"

definition shared_ok :: "store \<Rightarrow> address_space \<Rightarrow> address_space \<Rightarrow> bool" where
  "shared_ok h as bs \<longleftrightarrow> (\<forall>os\<in>bound as \<inter> bound bs. \<forall>o'. h os = Some o' \<longrightarrow> copyOnWriteOwner o' < cowKey as)"

definition sys_ok :: "cow_sys \<Rightarrow> bool" where
  "sys_ok sys \<longleftrightarrow> (\<forall>A as. spaces sys A = Some as \<longrightarrow> space_ok (heap sys) as)
     \<and> (\<forall>A B as bs. spaces sys A = Some as \<longrightarrow> spaces sys B = Some bs \<longrightarrow> A \<noteq> B \<longrightarrow> shared_ok (heap sys) as bs)"

lemma sys_okI [intro?]:
  assumes "\<And>A as. spaces sys A = Some as \<Longrightarrow> space_ok (heap sys) as"
    and "\<And>A B as bs. spaces sys A = Some as \<Longrightarrow> spaces sys B = Some bs \<Longrightarrow> A \<noteq> B \<Longrightarrow> shared_ok (heap sys) as bs"
  shows "sys_ok sys"
  using assms by (auto simp: sys_ok_def)

lemma sys_okD:
  assumes "sys_ok sys"
  shows "spaces sys A = Some as \<Longrightarrow> space_ok (heap sys) as"
    and "spaces sys A = Some as \<Longrightarrow> spaces sys B = Some bs \<Longrightarrow> A \<noteq> B \<Longrightarrow> shared_ok (heap sys) as bs"
  using assms by (auto simp: sys_ok_def)

lemma bound_owner:
  assumes "space_ok h as" and "os \<in> bound as" and "h os = Some p"
  shows "0 < copyOnWriteOwner p" and "copyOnWriteOwner p \<le> cowKey as"
  using assms by (fastforce simp: space_ok_def)+

text \<open>A change of object states that no space has bound, or that keeps the owners, keeps the invariant.\<close>

lemma space_ok_heap:
  assumes "space_ok h as"
    and "\<And>os o'. os \<in> bound as \<Longrightarrow> h os = Some o' \<Longrightarrow> \<exists>n. h' os = Some n \<and> copyOnWriteOwner n = copyOnWriteOwner o'"
  shows "space_ok h' as"
  using assms unfolding space_ok_def by metis

lemma shared_ok_heap:
  assumes "shared_ok h as bs" and "space_ok h as"
    and "\<And>os o'. os \<in> bound as \<inter> bound bs \<Longrightarrow> h os = Some o' \<Longrightarrow> \<exists>n. h' os = Some n \<and> copyOnWriteOwner n = copyOnWriteOwner o'"
  shows "shared_ok h' as bs"
  using assms unfolding shared_ok_def space_ok_def by (metis IntE option.inject)

lemma bound_replace:
  assumes "mo_map.tree_inv (objects as)"
  shows "bound (as\<lparr>objects := node_replace MemoryObjectLT fst (mo, os) (objects as)\<rparr>) \<subseteq> insert os (bound as)"
  using set_replace_subset [OF assms, of "(mo, os)"] by (auto simp: bound_def)

lemma bound_remove:
  assumes "mo_map.tree_inv (objects as)"
  shows "bound (as\<lparr>objects := node_remove MemoryObjectLT fst mo (objects as)\<rparr>) \<subseteq> bound as"
  using set_remove_subset [OF assms, of mo] by (auto simp: bound_def)

lemma space_ok_rebind:
  assumes "space_ok h as" and own: "copyOnWriteOwner o' = cowKey as" and n: "n \<notin> bound as"
  shows "space_ok (h(n \<mapsto> o')) (as\<lparr>objects := node_replace MemoryObjectLT fst (mo, n) (objects as)\<rparr>)" (is "space_ok ?h ?as")
proof -
  have inv: "mo_map.tree_inv (objects as)" and key: "0 < cowKey as" and inj: "inj_on snd (entries as)"
    and b: "\<And>os. os \<in> bound as \<Longrightarrow> \<exists>o'. h os = Some o' \<and> 0 < copyOnWriteOwner o' \<and> copyOnWriteOwner o' \<le> cowKey as"
    using assms(1) by (simp_all add: space_ok_def)
  have "\<exists>o'. ?h os = Some o' \<and> 0 < copyOnWriteOwner o' \<and> copyOnWriteOwner o' \<le> cowKey as" if "os \<in> bound ?as" for os
    using that bound_replace [OF inv, of mo n] b [of os] own key by (cases "os = n") auto
  moreover have "inj_on snd (insert (mo, n) (entries as))" using inj n by (auto simp: bound_def image_iff)
  from inj_on_subset [OF this set_replace_subset [OF inv]] have "inj_on snd (entries ?as)" by simp
  ultimately show ?thesis using mo_map.tree_inv_replace [OF inv] key by (simp add: space_ok_def)
qed

text \<open>
  The common core of the operations: a space takes a new binding to an object state that no space
  has bound before and that it owns now.
\<close>

lemma sys_ok_rebind:
  assumes ok: "sys_ok sys" and A: "spaces sys A = Some as"
    and fresh: "\<And>B bs. spaces sys B = Some bs \<Longrightarrow> n \<notin> bound bs"
    and own: "copyOnWriteOwner o' = cowKey as"
    and as': "as' = as\<lparr>objects := node_replace MemoryObjectLT fst (mo, n) (objects as)\<rparr>"
  shows "sys_ok \<lparr>heap = (heap sys)(n \<mapsto> o'), spaces = (spaces sys)(A \<mapsto> as')\<rparr>"
proof
  let ?h = "(heap sys)(n \<mapsto> o')"
  have as: "space_ok (heap sys) as" using sys_okD(1) [OF ok A] .
  then have inv: "mo_map.tree_inv (objects as)" by (simp add: space_ok_def)
  have b: "bound as' \<subseteq> insert n (bound as)" and key': "cowKey as' = cowKey as"
    using bound_replace [OF inv] by (simp_all add: as')
  have keep: "space_ok ?h bs" if "spaces sys B = Some bs" for B bs
    using space_ok_heap [OF sys_okD(1) [OF ok that], of ?h] fresh [OF that] by fastforce
  have "space_ok ?h as'" using space_ok_rebind [OF as own fresh [OF A]] as' by simp
  then show "space_ok (heap \<lparr>heap = ?h, spaces = (spaces sys)(A \<mapsto> as')\<rparr>) bs"
    if "spaces \<lparr>heap = ?h, spaces = (spaces sys)(A \<mapsto> as')\<rparr> B = Some bs" for B bs
    using that keep by (auto split: if_splits)
  have share: "shared_ok ?h bs cs" if "spaces sys B = Some bs" "spaces sys C = Some cs" "B \<noteq> C" for B C bs cs
    using shared_ok_heap [OF sys_okD(2) [OF ok that] sys_okD(1) [OF ok that(1)], of ?h] fresh [OF that(1)] by fastforce
  show "shared_ok (heap \<lparr>heap = ?h, spaces = (spaces sys)(A \<mapsto> as')\<rparr>) bs cs"
    if "spaces \<lparr>heap = ?h, spaces = (spaces sys)(A \<mapsto> as')\<rparr> B = Some bs"
       "spaces \<lparr>heap = ?h, spaces = (spaces sys)(A \<mapsto> as')\<rparr> C = Some cs" "B \<noteq> C" for B C bs cs
  proof -
    have sub: "bound as' \<inter> bound cs \<subseteq> bound as \<inter> bound cs" if "spaces sys C = Some cs" for C cs
      using b fresh [OF that] by blast
    have "B \<noteq> A \<and> C \<noteq> A \<or> B = A \<and> C \<noteq> A \<or> B \<noteq> A \<and> C = A" using that(3) by blast
    then show ?thesis
    proof (elim disjE conjE)
      assume "B \<noteq> A" "C \<noteq> A"
      with that share show ?thesis by simp
    next
      assume c: "B = A" "C \<noteq> A"
      with that have "bs = as'" "spaces sys C = Some cs" by auto
      with share [OF A, of C cs] c sub [of C cs] show ?thesis by (auto simp: shared_ok_def key')
    next
      assume c: "B \<noteq> A" "C = A"
      with that have "cs = as'" "spaces sys B = Some bs" by auto
      with share [OF _ A, of B bs] c sub [of B bs] show ?thesis by (auto simp: shared_ok_def)
    qed
  qed
qed

lemma sys_ok_heap:
  assumes ok: "sys_ok sys"
    and "\<And>B bs x p. spaces sys B = Some bs \<Longrightarrow> x \<in> bound bs \<Longrightarrow> heap sys x = Some p \<Longrightarrow>
           \<exists>m. h x = Some m \<and> copyOnWriteOwner m = copyOnWriteOwner p"
  shows "sys_ok (sys\<lparr>heap := h\<rparr>)"
proof
  show "space_ok (heap (sys\<lparr>heap := h\<rparr>)) as" if "spaces (sys\<lparr>heap := h\<rparr>) A = Some as" for A as
    using space_ok_heap [OF sys_okD(1) [OF ok], of A as h] that assms(2) [of A as] by simp
  show "shared_ok (heap (sys\<lparr>heap := h\<rparr>)) as bs"
    if "spaces (sys\<lparr>heap := h\<rparr>) A = Some as" "spaces (sys\<lparr>heap := h\<rparr>) B = Some bs" "A \<noteq> B" for A B as bs
    using shared_ok_heap [OF sys_okD(2) [OF ok] sys_okD(1) [OF ok], of A as B bs A h] that assms(2) [of A as] by simp
qed

text \<open>
  New spaces that come from old ones by dropping bindings or by moving to a later epoch keep the
  invariant; two spaces that come from the same one must both have moved on.
\<close>

lemma sys_ok_spaces:
  assumes ok: "sys_ok sys"
    and from_old: "\<And>B bs. sp B = Some bs \<Longrightarrow> \<exists>os. spaces sys (f B) = Some os \<and> entries bs \<subseteq> entries os
           \<and> cowKey os \<le> cowKey bs \<and> mo_map.tree_inv (objects bs) \<and> ((\<exists>C. C \<noteq> B \<and> sp C \<noteq> None \<and> f C = f B) \<longrightarrow> cowKey os < cowKey bs)"
  shows "sys_ok (sys\<lparr>spaces := sp\<rparr>)"
proof
  show "space_ok (heap (sys\<lparr>spaces := sp\<rparr>)) bs" if sp: "spaces (sys\<lparr>spaces := sp\<rparr>) B = Some bs" for B bs
  proof -
    obtain os where os: "spaces sys (f B) = Some os" "entries bs \<subseteq> entries os" "cowKey os \<le> cowKey bs" "mo_map.tree_inv (objects bs)"
      using from_old [of B bs] sp by auto
    then have "bound bs \<subseteq> bound os" by (auto simp: bound_def)
    with os sys_okD(1) [OF ok os(1)] inj_on_subset [OF _ os(2), of snd] show ?thesis
      by (auto simp: space_ok_def) (meson order_trans subsetD)
  qed
  show "shared_ok (heap (sys\<lparr>spaces := sp\<rparr>)) bs cs"
    if sp: "spaces (sys\<lparr>spaces := sp\<rparr>) B = Some bs" "spaces (sys\<lparr>spaces := sp\<rparr>) C = Some cs" "B \<noteq> C" for B C bs cs
  proof -
    obtain x where x: "spaces sys (f B) = Some x" "entries bs \<subseteq> entries x" "cowKey x \<le> cowKey bs"
      "f C = f B \<longrightarrow> cowKey x < cowKey bs" using from_old [of B bs] sp by fastforce
    obtain y where y: "spaces sys (f C) = Some y" "entries cs \<subseteq> entries y" using from_old [of C cs] sp by auto
    have b: "bound bs \<subseteq> bound x" "bound cs \<subseteq> bound y" using x(2) y(2) by (auto simp: bound_def)
    show ?thesis unfolding shared_ok_def
    proof (intro ballI allI impI)
      fix os p assume os: "os \<in> bound bs \<inter> bound cs" and p: "heap (sys\<lparr>spaces := sp\<rparr>) os = Some p"
      show "copyOnWriteOwner p < cowKey bs"
      proof (cases "f C = f B")
        case True
        have "copyOnWriteOwner p \<le> cowKey x" using bound_owner(2) [OF sys_okD(1) [OF ok x(1)], of os p] os p b by auto
        with x(4) True show ?thesis by simp
      next
        case False
        then have "copyOnWriteOwner p < cowKey x" using sys_okD(2) [OF ok x(1) y(1)] os p b by (auto simp: shared_ok_def)
        with x(3) show ?thesis by simp
      qed
    qed
  qed
qed

lemma read_object_cong:
  assumes "sys_ok sys" and "spaces sys' B = spaces sys B"
    and "\<And>bs os. spaces sys B = Some bs \<Longrightarrow> os \<in> bound bs \<Longrightarrow> heap sys' os = heap sys os"
  shows "read_object sys' B mo = read_object sys B mo"
proof (cases "spaces sys B")
  case (Some bs)
  then have "mo_map.tree_inv (objects bs)" using sys_okD(1) [OF assms(1)] by (auto simp: space_ok_def)
  then have "findObject bs mo = Some os \<Longrightarrow> heap sys' os = heap sys os" for os
    using findObject_bound assms(3) Some by blast
  with Some assms(2) show ?thesis by (cases "findObject bs mo") (auto simp: read_object_def)
qed (use assms(2) in \<open>simp add: read_object_def\<close>)

lemma unallocated_unbound:
  assumes "sys_ok sys" and "heap sys n = None" and "spaces sys B = Some bs"
  shows "n \<notin> bound bs"
  using sys_okD(1) [OF assms(1,3)] assms(2) by (auto simp: space_ok_def)

lemma owned_not_shared:
  assumes "sys_ok sys" and "spaces sys A = Some as" and "spaces sys B = Some bs" and "B \<noteq> A"
    and "os \<in> bound as" and "heap sys os = Some o'" and "cowKey as = copyOnWriteOwner o'"
  shows "os \<notin> bound bs"
  using sys_okD(2) [OF assms(1-3)] assms(4-7) by (auto simp: shared_ok_def)

text \<open>Writing the object state that \<^verbatim>\<open>getWriteable\<close> returns keeps the invariant and is invisible to every other space.\<close>

lemma getWriteable_write:
  assumes ok: "sys_ok sys" and A: "spaces sys A = Some as" and os: "os \<in> bound as" and n: "heap sys n = None"
    and w: "getWriteable n mo os (heap sys, as) = Some (w, h, as')" "h w = Some o'"
    and sys': "sys' = \<lparr>heap = h(w \<mapsto> o'\<lparr>concreteStore := bytes\<rparr>), spaces = (spaces sys)(A \<mapsto> as')\<rparr>"
  shows "sys_ok sys'" and "B \<noteq> A \<Longrightarrow> read_object sys' B mo' = read_object sys B mo'"
proof -
  obtain p where p: "heap sys os = Some p" "\<not> readOnly p" using w(1) by (auto simp: getWriteable_def bind_eq_Some_conv)
  have "sys_ok sys' \<and> (\<forall>bs. B \<noteq> A \<longrightarrow> spaces sys B = Some bs \<longrightarrow> (\<forall>x\<in>bound bs. heap sys' x = heap sys x))"
  proof (cases "cowKey as = copyOnWriteOwner p")
    case True
    then have r: "w = os" "h = heap sys" "as' = as" using w(1) p by (auto simp: getWriteable_def)
    with sys' A have "sys' = sys\<lparr>heap := (heap sys)(os \<mapsto> o'\<lparr>concreteStore := bytes\<rparr>)\<rparr>" by (simp add: fun_upd_idem)
    moreover have "p = o'" using w(2) r p by simp
    moreover from this have "sys_ok (sys\<lparr>heap := (heap sys)(os \<mapsto> o'\<lparr>concreteStore := bytes\<rparr>)\<rparr>)"
      using p(1) by (intro sys_ok_heap [OF ok]) auto
    ultimately show ?thesis using owned_not_shared [OF ok A _ _ os p(1) True] by auto
  next
    case False
    then have r: "w = n" "h = (heap sys)(n \<mapsto> p\<lparr>copyOnWriteOwner := cowKey as\<rparr>)"
      "as' = as\<lparr>objects := node_replace MemoryObjectLT fst (mo, n) (objects as)\<rparr>"
      using w(1) p by (auto simp: getWriteable_def bind_eq_Some_conv)
    have "copyOnWriteOwner (o'\<lparr>concreteStore := bytes\<rparr>) = cowKey as" using w(2) r by auto
    from sys_ok_rebind [OF ok A _ this r(3)] unallocated_unbound [OF ok n] have "sys_ok sys'" by (simp add: sys' r)
    then show ?thesis using unallocated_unbound [OF ok n] by (auto simp: sys' r)
  qed
  then show "sys_ok sys'" and "B \<noteq> A \<Longrightarrow> read_object sys' B mo' = read_object sys B mo'"
    using read_object_cong [OF ok, of sys' B mo'] sys' by auto
qed

lemma set_replace_keeps:
  assumes "mo_map.tree_inv t" and "x \<in> set (inorder t)" and "mo_address (fst x) \<noteq> mo_address mo"
  shows "x \<in> set (inorder (node_replace MemoryObjectLT fst (mo, n) t))"
proof -
  have o: "mo_map.ordered (inorder t)" using assms(1) by (simp add: mo_map.tree_inv_def)
  show ?thesis unfolding mo_map.inorder_replace [OF o] using assms(2,3)
    by (auto simp: mo_map.below_def mo_map.above_def MemoryObjectLT_def)
qed

lemma copyInConcretes_loop_ok:
  assumes "sys_ok sys" and "spaces sys A = Some as"
    and "unused (heap sys) ns"
    and "mo_map.ordered its" and "set its \<subseteq> set (inorder (objects as))"
    and "copyInConcretes_loop ns mem its (heap sys, as) = Some (ok, h', as')"
  shows "sys_ok \<lparr>heap = h', spaces = (spaces sys)(A \<mapsto> as')\<rparr>
    \<and> (B \<noteq> A \<longrightarrow> read_object \<lparr>heap = h', spaces = (spaces sys)(A \<mapsto> as')\<rparr> B m = read_object sys B m)"
  using assms
proof (induction its arbitrary: ns sys as)
  case Nil
  then have e: "\<lparr>heap = h', spaces = (spaces sys)(A \<mapsto> as')\<rparr> = sys" by (cases sys) (auto simp: fun_upd_idem)
  show ?case unfolding e using Nil.prems(1) by simp
next
  case (Cons x its)
  obtain mo os where x: "x = (mo, os)" by (cases x)
  have stop: ?case if "h' = heap sys" "as' = as"
  proof -
    have e: "\<lparr>heap = h', spaces = (spaces sys)(A \<mapsto> as')\<rparr> = sys" using that Cons.prems(2) by (cases sys) (auto simp: fun_upd_idem)
    show ?thesis unfolding e using Cons.prems(1) by simp
  qed
  have ord: "mo_map.ordered its" and apart: "\<And>y. y \<in> set its \<Longrightarrow> mo_address (fst y) \<noteq> mo_address mo"
    using Cons.prems(4) by (auto simp: mo_ordered x)
  note skip = Cons.IH [OF Cons.prems(1-3) ord]
  show ?case
  proof (cases "isUserSpecified mo")
    case True
    with Cons.prems(5,6) x show ?thesis by (intro skip) auto
  next
    case False
    then obtain o' where o': "heap sys os = Some o'" using Cons.prems(6) by (auto simp: x bind_eq_Some_conv)
    show ?thesis
    proof (cases "readOnly o'")
      case True
      with Cons.prems(5,6) False o' x stop skip show ?thesis by (auto split: if_splits)
    next
      case ro: False
      obtain n ns' w g bs wos where ns: "ns = n # ns'"
        and w: "getWriteable n mo os (heap sys, as) = Some (w, g, bs)" "g w = Some wos"
        and loop: "copyInConcretes_loop ns' mem its
          (g(w \<mapsto> wos\<lparr>concreteStore := host_bytes mem mo @ drop (unat (mo_size mo)) (concreteStore wos)\<rparr>), bs) = Some (ok, h', as')"
        using Cons.prems(6) False o' ro by (auto simp: x bind_eq_Some_conv split: list.splits)
      define sys' where "sys' = \<lparr>heap = g(w \<mapsto> wos\<lparr>concreteStore := host_bytes mem mo @ drop (unat (mo_size mo)) (concreteStore wos)\<rparr>),
        spaces = (spaces sys)(A \<mapsto> bs)\<rparr>"
      have os: "os \<in> bound as" using Cons.prems(5) by (auto simp: x bound_def image_iff intro!: bexI [of _ "(mo, os)"])
      have n: "heap sys n = None" using Cons.prems(3) by (simp add: unused_def ns)
      note wr = getWriteable_write [OF Cons.prems(1,2) os n w sys'_def]
      have inv: "mo_map.tree_inv (objects as)" using sys_okD(1) [OF Cons.prems(1,2)] by (simp add: space_ok_def)
      have "set its \<subseteq> set (inorder (objects bs))"
        using w(1) o' ro Cons.prems(5) set_replace_keeps [OF inv] apart by (auto simp: getWriteable_def bind_eq_Some_conv split: if_splits)
      moreover have "unused (heap sys') ns'"
        using w(1) o' ro Cons.prems(3) by (auto simp: getWriteable_def bind_eq_Some_conv sys'_def unused_def ns split: if_splits)
      moreover have "copyInConcretes_loop ns' mem its (heap sys', bs) = Some (ok, h', as')"
        and A': "spaces sys' A = Some bs" and upd: "(spaces sys')(A \<mapsto> as') = (spaces sys)(A \<mapsto> as')"
        using loop by (simp_all add: sys'_def del: fun_upd_apply) simp
      ultimately show ?thesis using Cons.IH [OF wr(1) A' _ ord] wr(2) [of B m] unfolding upd by simp
    qed
  qed
qed

section \<open>Every step keeps the invariant\<close>

lemma sys_ok_initial: "sys_ok initial_sys"
  by (auto simp: sys_ok_def initial_sys_def new_AddressSpace_def space_ok_def bound_def mo_map.tree_inv_def mo_map.ordered_def
    split: if_splits)

lemma cowKey_next: "k \<noteq> - 1 \<Longrightarrow> k < k + 1" for k :: "32 word"
  using inc_less_eq_triv_imp [of k] by (auto simp: not_le [symmetric])

lemma cow_step_ok: "cow_step sys sys' \<Longrightarrow> sys_ok sys \<Longrightarrow> sys_ok sys'"
proof (induction rule: cow_step.induct)
  case (alloc sys n bytes)
  then show ?case using unallocated_unbound [OF alloc.prems alloc.hyps]
    by (intro sys_ok_heap) auto
next
  case (bind sys A as mo os h as')
  then obtain p where p: "heap sys os = Some p" "copyOnWriteOwner p = 0"
    "h = (heap sys)(os \<mapsto> p\<lparr>copyOnWriteOwner := cowKey as\<rparr>)"
    "as' = as\<lparr>objects := node_replace MemoryObjectLT fst (mo, os) (objects as)\<rparr>"
    by (auto simp: bindObject_def bind_eq_Some_conv)
  have "os \<notin> bound bs" if "spaces sys B = Some bs" for B bs
    using bound_owner(1) [OF sys_okD(1) [OF bind.prems that] _ p(1)] p(2) by auto
  with bind p show ?case by (auto intro!: sys_ok_rebind)
next
  case (unbind sys A as mo as')
  then have inv: "mo_map.tree_inv (objects as)" using sys_okD(1) by (auto simp: space_ok_def)
  from unbind.hyps have as': "as' = as\<lparr>objects := node_remove MemoryObjectLT fst mo (objects as)\<rparr>"
    by (auto simp: unbindObject_def bind_eq_Some_conv)
  show ?case
    using unbind.hyps(1) subsetD [OF set_remove_subset [OF inv, of mo]] mo_map.tree_inv_remove [OF inv] sys_okD(1) [OF unbind.prems]
    by (intro sys_ok_spaces [OF unbind.prems, where f = id]) (auto simp: as' space_ok_def split: if_splits)
next
  case (fork sys A as B as' bs)
  have k: "cowKey as < cowKey as + 1" using cowKey_next fork.hyps(3) .
  show ?case
    using fork.hyps k sys_okD(1) [OF fork.prems]
    by (intro sys_ok_spaces [OF fork.prems, where f = "\<lambda>C. if C = B then A else C"])
      (auto simp: copy_AddressSpace_def space_ok_def Let_def split: if_splits)
next
  case (update sys n A mo bytes sys')
  then obtain as os w h as' p where u: "spaces sys A = Some as" "findObject as mo = Some os"
    "getWriteable n mo os (heap sys, as) = Some (w, h, as')" "h w = Some p"
    "sys' = \<lparr>heap = h(w \<mapsto> p\<lparr>concreteStore := bytes\<rparr>), spaces = (spaces sys)(A \<mapsto> as')\<rparr>"
    by (auto simp: write_object_def bind_eq_Some_conv)
  have "os \<in> bound as" using findObject_bound u(2) sys_okD(1) [OF update.prems u(1)] by (auto simp: space_ok_def)
  from getWriteable_write(1) [OF update.prems u(1) this update.hyps(1) u(3-5)] show ?case .
next
  case (copy_in sys A as ns mem ok h as')
  then have "mo_map.ordered (inorder (objects as))" using sys_okD(1) by (auto simp: space_ok_def mo_map.tree_inv_def)
  with copyInConcretes_loop_ok [OF copy_in.prems copy_in.hyps(1,2)] copy_in.hyps(3) show ?case by (simp add: copyInConcretes_def)
qed

lemma cow_reachable_ok: "cow_reachable sys \<Longrightarrow> sys_ok sys"
  by (induction rule: cow_reachable.induct) (auto intro: sys_ok_initial cow_step_ok)

section \<open>Isolation\<close>

lemma findObject_unique:
  assumes "space_ok h as" and "findObject as mo = Some os" and "findObject as mo' = Some os"
  shows "mo_address mo' = mo_address mo"
proof -
  have "mo_map.tree_inv (objects as)" "inj_on snd (entries as)" using assms(1) by (auto simp: space_ok_def)
  with findObject_entry [OF _ assms(2)] findObject_entry [OF _ assms(3)] show ?thesis by (metis fst_conv inj_onD snd_conv)
qed

lemma write_object_own:
  assumes ok: "sys_ok sys" and n: "heap sys n = None" and w: "write_object n A mo bytes sys = Some sys'"
  shows "read_object sys' A mo' = (if mo_address mo' = mo_address mo then Some bytes else read_object sys A mo')"
proof -
  obtain as os v h as' p where u: "spaces sys A = Some as" "findObject as mo = Some os"
    "getWriteable n mo os (heap sys, as) = Some (v, h, as')" "h v = Some p"
    "sys' = \<lparr>heap = h(v \<mapsto> p\<lparr>concreteStore := bytes\<rparr>), spaces = (spaces sys)(A \<mapsto> as')\<rparr>"
    using w by (auto simp: write_object_def bind_eq_Some_conv)
  have as: "space_ok (heap sys) as" and inv: "mo_map.tree_inv (objects as)"
    using sys_okD(1) [OF ok u(1)] by (auto simp: space_ok_def)
  obtain q where q: "heap sys os = Some q" "\<not> readOnly q" using u(3) by (auto simp: getWriteable_def bind_eq_Some_conv)
  have same: "findObject as mo' = Some os" if "mo_address mo' = mo_address mo"
    using u(2) that mo_map.lookup_at [of "objects as"] inv by (auto simp: findObject_def mo_map.tree_inv_def mo_map.at_def)
  show ?thesis
  proof (cases "cowKey as = copyOnWriteOwner q")
    case True
    then have "v = os" "h = heap sys" "as' = as" using u(3) q by (auto simp: getWriteable_def)
    then show ?thesis using u same findObject_unique [OF as u(2), of mo']
      by (cases "findObject as mo'") (auto simp: read_object_def)
  next
    case False
    then have r: "v = n" "h = (heap sys)(n \<mapsto> q\<lparr>copyOnWriteOwner := cowKey as\<rparr>)"
      "as' = as\<lparr>objects := node_replace MemoryObjectLT fst (mo, n) (objects as)\<rparr>"
      using u(3) q by (auto simp: getWriteable_def bind_eq_Some_conv)
    have "findObject as' mo' = (if mo_address mo' = mo_address mo then Some n else findObject as mo')"
      using mo_map.lookup_replace [OF inv, of mo' "(mo, n)"] by (auto simp: findObject_def r)
    moreover have "findObject as mo' \<noteq> Some n" using findObject_bound [OF inv] unallocated_unbound [OF ok n u(1)] by blast
    ultimately show ?thesis using u r by (cases "findObject as mo'") (auto simp: read_object_def)
  qed
qed

lemma write_object_other:
  assumes ok: "sys_ok sys" and n: "heap sys n = None" and w: "write_object n A mo bytes sys = Some sys'" and "B \<noteq> A"
  shows "read_object sys' B mo' = read_object sys B mo'"
proof -
  obtain as os v h as' p where u: "spaces sys A = Some as" "findObject as mo = Some os"
    "getWriteable n mo os (heap sys, as) = Some (v, h, as')" "h v = Some p"
    "sys' = \<lparr>heap = h(v \<mapsto> p\<lparr>concreteStore := bytes\<rparr>), spaces = (spaces sys)(A \<mapsto> as')\<rparr>"
    using w by (auto simp: write_object_def bind_eq_Some_conv)
  have "os \<in> bound as" using findObject_bound u(2) sys_okD(1) [OF ok u(1)] by (auto simp: space_ok_def)
  from getWriteable_write(2) [OF ok u(1) this n u(3-5) assms(4)] show ?thesis .
qed

text \<open>
  C15. In every run, an object that an address space can reach exists and belongs to no epoch after
  the current one of the space, as the class documents; when a second space can reach it, neither of
  the two takes it for its own.
\<close>

theorem cow_epochs:
  assumes "cow_reachable sys" and "spaces sys A = Some as" and "findObject as mo = Some os"
  shows "\<exists>o'. heap sys os = Some o' \<and> copyOnWriteOwner o' \<le> cowKey as
    \<and> (\<forall>B bs mo'. B \<noteq> A \<longrightarrow> spaces sys B = Some bs \<longrightarrow> findObject bs mo' = Some os
         \<longrightarrow> \<not> isOwnedByUs as o' \<and> \<not> isOwnedByUs bs o')"
proof -
  have ok: "sys_ok sys" using cow_reachable_ok assms(1) .
  have inv: "\<And>B bs. spaces sys B = Some bs \<Longrightarrow> mo_map.tree_inv (objects bs)" using sys_okD(1) [OF ok] by (auto simp: space_ok_def)
  have os: "os \<in> bound as" using findObject_bound inv assms(2,3) by blast
  then obtain p where p: "heap sys os = Some p" using sys_okD(1) [OF ok assms(2)] by (auto simp: space_ok_def)
  have "\<not> isOwnedByUs as p \<and> \<not> isOwnedByUs bs p" if "B \<noteq> A" "spaces sys B = Some bs" "findObject bs mo' = Some os" for B bs mo'
    using that os findObject_bound [OF inv [OF that(2)] that(3)] p owned_not_shared [OF ok assms(2) that(2,1) os p]
      owned_not_shared [OF ok that(2) assms(2) _ _ p] by (auto simp: isOwnedByUs_def)
  with p bound_owner(2) [OF sys_okD(1) [OF ok assms(2)] os p] show ?thesis by blast
qed


text \<open>
  C29. Copying the memory of the process into the objects of one address space, after a call of native
  code, keeps the invariant of the epochs and cannot be seen through any other space.
\<close>

theorem copyInConcretes_isolated:
  assumes "cow_reachable sys" and "spaces sys A = Some as" and "unused (heap sys) ns"
    and "copyInConcretes ns mem (heap sys, as) = Some (ok, h, as')" and "B \<noteq> A"
  shows "cow_reachable \<lparr>heap = h, spaces = (spaces sys)(A \<mapsto> as')\<rparr>
    \<and> read_object \<lparr>heap = h, spaces = (spaces sys)(A \<mapsto> as')\<rparr> B mo = read_object sys B mo"
proof
  show "cow_reachable \<lparr>heap = h, spaces = (spaces sys)(A \<mapsto> as')\<rparr>"
    using cow_reachable.step [OF assms(1) cow_step.copy_in [OF assms(2-4)]] .
  have ok: "sys_ok sys" using cow_reachable_ok assms(1) .
  then have "mo_map.ordered (inorder (objects as))" using sys_okD(1) assms(2) by (auto simp: space_ok_def mo_map.tree_inv_def)
  with copyInConcretes_loop_ok [OF ok assms(2,3)] assms(4,5)
  show "read_object \<lparr>heap = h, spaces = (spaces sys)(A \<mapsto> as')\<rparr> B mo = read_object sys B mo"
    by (simp add: copyInConcretes_def)
qed

section \<open>A run with a fork\<close>

text \<open>One object of two bytes is allocated and bound, then the state forks.\<close>

definition mo0 :: memory_object where
  "mo0 = \<lparr>mo_id = 1, mo_address = 4096, mo_size = 2, isUserSpecified = False\<rparr>"

definition os0 :: "32 word \<Rightarrow> object_state" where
  "os0 k = \<lparr>copyOnWriteOwner = k, readOnly = False, concreteStore = [1, 2]\<rparr>"

definition as0 :: "nat \<Rightarrow> address_space" where
  "as0 A = \<lparr>cowKey = 2, objects = new_Node Terminator Terminator (mo0, 0), owner_state = Some A\<rparr>"

definition forked_sys :: cow_sys where
  "forked_sys = \<lparr>heap = [0 \<mapsto> os0 1], spaces = [0 \<mapsto> as0 0, 1 \<mapsto> as0 1]\<rparr>"

lemmas run_defs = mo0_def os0_def as0_def MemoryObjectLT_def new_AddressSpace_def

lemma forked_sys_reachable: "cow_reachable forked_sys"
proof -
  define s1 where "s1 = initial_sys\<lparr>heap := (heap initial_sys)(0 \<mapsto> \<lparr>copyOnWriteOwner = 0, readOnly = False, concreteStore = [1, 2]\<rparr>)\<rparr>"
  define as1 where "as1 = \<lparr>cowKey = 1, objects = new_Node Terminator Terminator (mo0, 0), owner_state = Some 0\<rparr>"
  define s2 where "s2 = \<lparr>heap = [0 \<mapsto> os0 1], spaces = [0 \<mapsto> as1]\<rparr>"
  have s1: "heap s1 = [0 \<mapsto> os0 0]" "spaces s1 = [0 \<mapsto> new_AddressSpace 0]" by (simp_all add: s1_def initial_sys_def os0_def)
  have "bindObject mo0 0 (heap s1, new_AddressSpace 0) = Some ([0 \<mapsto> os0 1], as1)"
    by (simp add: bindObject_def s1 as1_def run_defs new_Node_def)
  from cow_step.bind [of s1 0, OF _ this] have "cow_step s1 s2" by (simp add: s1 s2_def)
  moreover have "cow_step initial_sys s1" unfolding s1_def by (rule cow_step.alloc) (simp add: initial_sys_def)
  moreover have "copy_AddressSpace as1 = (as0 0, (as0 1)\<lparr>owner_state := None\<rparr>)"
    by (simp add: copy_AddressSpace_def as1_def as0_def)
  from cow_step.fork [of s2 0, OF _ _ _ this, of 1] have "cow_step s2 forked_sys"
    by (simp add: s2_def forked_sys_def as1_def as0_def)
  ultimately show ?thesis using cow_reachable.start cow_reachable.step by blast
qed

lemma forked_sys_find: "findObject (as0 A) mo0 = Some 0"
  by (simp add: findObject_def run_defs new_Node_def)

theorem cow_epochs_witness:
  "\<exists>o'. heap forked_sys 0 = Some o' \<and> copyOnWriteOwner o' \<le> cowKey (as0 0) \<and> \<not> isOwnedByUs (as0 1) o'"
proof -
  have "spaces forked_sys 0 = Some (as0 0)" "spaces forked_sys 1 = Some (as0 1)" by (simp_all add: forked_sys_def)
  then show ?thesis
    using cow_epochs [OF forked_sys_reachable, of 0 "as0 0" mo0 0] forked_sys_find [of 0] forked_sys_find [of 1]
    by (metis zero_neq_one)
qed


theorem copyInConcretes_isolated_witness:
  "\<exists>h as'. copyInConcretes [1] (\<lambda>_. 9) (heap forked_sys, as0 0) = Some (True, h, as')
     \<and> read_object \<lparr>heap = h, spaces = (spaces forked_sys)(0 \<mapsto> as')\<rparr> 1 mo0 = Some [1, 2]"
proof -
  obtain h as' where c: "copyInConcretes [1] (\<lambda>_. 9) (heap forked_sys, as0 0) = Some (True, h, as')"
    by (simp add: copyInConcretes_def forked_sys_def getWriteable_def run_defs new_Node_def)
  have "spaces forked_sys 0 = Some (as0 0)" "read_object forked_sys 1 mo0 = Some [1, 2]" "unused (heap forked_sys) [1]"
    using forked_sys_find by (simp_all add: read_object_def forked_sys_def os0_def unused_def)
  with copyInConcretes_isolated [OF forked_sys_reachable _ _ c, where B = 1 and mo = mo0] c show ?thesis by auto
qed

end
