(* ===== verification/PointerChecks.thy ===== *)
theory PointerChecks
  imports AddressSpace SolverRange
begin

text \<open>
  The bounds checks of a memory object (\<^verbatim>\<open>src/klee/include/klee/Memory.h\<close>), the solver as the interpreter
  uses it (\<^verbatim>\<open>src/klee/lib/Core/TimingSolver.cpp\<close>), and the questions that the resolution of a pointer asks
  about an object. The theory shows that the expressions built for the checks say what they mean, so
  that the answers are about the values the pointer can take. The pointer width of the \<^verbatim>\<open>Context\<close> is the
  parameter \<^verbatim>\<open>pw\<close>.
\<close>

section \<open>Bounds checks\<close>

definition getBaseExpr :: "klee_rt \<Rightarrow> width \<Rightarrow> memory_object \<Rightarrow> expr option" where
  "getBaseExpr R pw mo = map_option ConstantExpr (ConstantExpr_create R (mo_address mo) pw)"

definition getSizeExpr :: "klee_rt \<Rightarrow> width \<Rightarrow> memory_object \<Rightarrow> expr option" where
  "getSizeExpr R pw mo = map_option ConstantExpr (ConstantExpr_create R (ucast (mo_size mo)) pw)"

definition getOffsetExpr :: "klee_rt \<Rightarrow> width \<Rightarrow> memory_object \<Rightarrow> expr \<Rightarrow> expr option" where
  "getOffsetExpr R pw mo pointer = do { b \<leftarrow> getBaseExpr R pw mo; SubExpr_create R pointer b }"

definition getBoundsCheckOffset :: "klee_rt \<Rightarrow> width \<Rightarrow> memory_object \<Rightarrow> expr \<Rightarrow> expr option" where
  "getBoundsCheckOffset R pw mo off =
     (if mo_size mo = 0 then EqExpr_create R off (ConstantExpr (ConstantExpr_alloc R 0 pw))
      else do { sz \<leftarrow> getSizeExpr R pw mo; UltExpr_create R off sz })"

definition getBoundsCheckOffset_bytes :: "klee_rt \<Rightarrow> width \<Rightarrow> memory_object \<Rightarrow> expr \<Rightarrow> 32 word \<Rightarrow> expr option" where
  "getBoundsCheckOffset_bytes R pw mo off bytes =
     (if bytes \<le> mo_size mo
      then UltExpr_create R off (ConstantExpr (ConstantExpr_alloc R (ucast (mo_size mo - bytes + 1)) pw))
      else Some (ConstantExpr (ConstantExpr_alloc R 0 Bool)))"

definition getBoundsCheckPointer :: "klee_rt \<Rightarrow> width \<Rightarrow> memory_object \<Rightarrow> expr \<Rightarrow> expr option" where
  "getBoundsCheckPointer R pw mo pointer =
     do { off \<leftarrow> getOffsetExpr R pw mo pointer; getBoundsCheckOffset R pw mo off }"

definition getBoundsCheckPointer_bytes :: "klee_rt \<Rightarrow> width \<Rightarrow> memory_object \<Rightarrow> expr \<Rightarrow> 32 word \<Rightarrow> expr option" where
  "getBoundsCheckPointer_bytes R pw mo pointer bytes =
     do { off \<leftarrow> getOffsetExpr R pw mo pointer; getBoundsCheckOffset_bytes R pw mo off bytes }"

section \<open>TimingSolver\<close>

text \<open>
  The wrapper measures time and answers constants itself; \<^verbatim>\<open>ConstraintManager::simplifyExpr\<close> returns its
  argument. The constraints of the state are those of the query.
\<close>

definition Timing_evaluate :: "'s solver_impl \<Rightarrow> query \<Rightarrow> 's \<Rightarrow> validity answer \<times> 's" where
  "Timing_evaluate S q =
     (case dyn_cast_Constant (query_expr q) of
        Some CE \<Rightarrow> and_then (asserted (ConstantExpr_isTrue CE)) (\<lambda>b. answer (if b then VTrue else VFalse))
      | None \<Rightarrow> Solver_evaluate S q)"

definition Timing_mustBeTrue :: "'s solver_impl \<Rightarrow> query \<Rightarrow> 's \<Rightarrow> bool answer \<times> 's" where
  "Timing_mustBeTrue S q =
     (case dyn_cast_Constant (query_expr q) of
        Some CE \<Rightarrow> asserted (ConstantExpr_isTrue CE)
      | None \<Rightarrow> Solver_mustBeTrue S q)"

definition Timing_mustBeFalse :: "klee_rt \<Rightarrow> 's solver_impl \<Rightarrow> query \<Rightarrow> 's \<Rightarrow> bool answer \<times> 's" where
  "Timing_mustBeFalse R S q =
     and_then (asserted (createIsZero R (query_expr q))) (\<lambda>z. Timing_mustBeTrue S (withExpr q z))"

definition Timing_mayBeTrue :: "klee_rt \<Rightarrow> 's solver_impl \<Rightarrow> query \<Rightarrow> 's \<Rightarrow> bool answer \<times> 's" where
  "Timing_mayBeTrue R S q = and_then (Timing_mustBeFalse R S q) (\<lambda>res. answer (\<not> res))"

definition Timing_mayBeFalse :: "'s solver_impl \<Rightarrow> query \<Rightarrow> 's \<Rightarrow> bool answer \<times> 's" where
  "Timing_mayBeFalse S q = and_then (Timing_mustBeTrue S q) (\<lambda>res. answer (\<not> res))"

definition Timing_getValue :: "'s solver_impl \<Rightarrow> query \<Rightarrow> 's \<Rightarrow> apint answer \<times> 's" where
  "Timing_getValue S q =
     (case dyn_cast_Constant (query_expr q) of
        Some CE \<Rightarrow> answer CE
      | None \<Rightarrow> Solver_getValue S q)"

definition Timing_getInitialValues ::
  "klee_rt \<Rightarrow> 's solver_impl \<Rightarrow> query \<Rightarrow> klee_array list \<Rightarrow> 's \<Rightarrow> 8 word list list answer \<times> 's" where
  "Timing_getInitialValues R S q objs =
     (if objs = [] then answer [] else Solver_getInitialValues S (withFalse R q) objs)"

definition Timing_getRange :: "klee_rt \<Rightarrow> 's solver_impl \<Rightarrow> query \<Rightarrow> 's \<Rightarrow> (apint \<times> apint) answer \<times> 's" where
  "Timing_getRange R S q = Solver_getRange R S q"

section \<open>Questions about an object\<close>

text \<open>The questions about an object: may the pointer be inside, is it at or above, is it below.\<close>

definition may_be_in :: "klee_rt \<Rightarrow> 's solver_impl \<Rightarrow> width \<Rightarrow> query \<Rightarrow> memory_object \<Rightarrow> 's \<Rightarrow> bool answer \<times> 's" where
  "may_be_in R S pw q mo =
     and_then (asserted (getBoundsCheckPointer R pw mo (query_expr q))) (\<lambda>c. Timing_mayBeTrue R S (withExpr q c))"

definition must_be_in :: "klee_rt \<Rightarrow> 's solver_impl \<Rightarrow> width \<Rightarrow> query \<Rightarrow> memory_object \<Rightarrow> 's \<Rightarrow> bool answer \<times> 's" where
  "must_be_in R S pw q mo =
     and_then (asserted (getBoundsCheckPointer R pw mo (query_expr q))) (\<lambda>c. Timing_mustBeTrue S (withExpr q c))"

definition must_be_above :: "klee_rt \<Rightarrow> 's solver_impl \<Rightarrow> width \<Rightarrow> query \<Rightarrow> memory_object \<Rightarrow> 's \<Rightarrow> bool answer \<times> 's" where
  "must_be_above R S pw q mo =
     and_then (asserted (do { b \<leftarrow> getBaseExpr R pw mo; UgeExpr_create R (query_expr q) b }))
       (\<lambda>c. Timing_mustBeTrue S (withExpr q c))"

definition must_be_below :: "klee_rt \<Rightarrow> 's solver_impl \<Rightarrow> width \<Rightarrow> query \<Rightarrow> memory_object \<Rightarrow> 's \<Rightarrow> bool answer \<times> 's" where
  "must_be_below R S pw q mo =
     and_then (asserted (do { b \<leftarrow> getBaseExpr R pw mo; UltExpr_create R (query_expr q) b }))
       (\<lambda>c. Timing_mustBeTrue S (withExpr q c))"

section \<open>What the checks mean\<close>

text \<open>An object contains the addresses from its base on; an object without bytes contains its base.\<close>

definition in_object :: "memory_object \<Rightarrow> int \<Rightarrow> bool" where
  "in_object mo v \<longleftrightarrow>
     (if mo_size mo = 0 then v = uint (mo_address mo)
      else uint (mo_address mo) \<le> v \<and> v < uint (mo_address mo) + uint (mo_size mo))"

text \<open>The objects of a space lie in the range of the pointers and do not overlap.\<close>

definition fits :: "width \<Rightarrow> memory_object \<Rightarrow> bool" where
  "fits pw mo \<longleftrightarrow> uint (mo_address mo) < 2 ^ pw \<and> uint (mo_address mo) + uint (mo_size mo) \<le> 2 ^ pw"

definition placed :: "width \<Rightarrow> address_space \<Rightarrow> bool" where
  "placed pw as \<longleftrightarrow> (\<forall>x\<in>entries as. fits pw (fst x))
     \<and> (\<forall>x\<in>entries as. \<forall>y\<in>entries as. mo_address (fst x) < mo_address (fst y)
          \<longrightarrow> uint (mo_address (fst x)) + uint (mo_size (fst x)) \<le> uint (mo_address (fst y)))"

text \<open>A pointer of the address width under the constraints of a state.\<close>

definition pointer_query :: "width \<Rightarrow> query \<Rightarrow> bool" where
  "pointer_query pw q \<longleftrightarrow> query_ok q \<and> query_safe q \<and> getWidth (query_expr q) = pw \<and> 32 \<le> pw"

lemma offset_in_object:
  assumes "fits pw mo" and "0 \<le> v" and "v < 2 ^ pw" and "uint (mo_size mo) < 2 ^ pw"
  shows "take_bit pw (v - uint (mo_address mo)) = 0 \<longleftrightarrow> v = uint (mo_address mo)"
    and "mo_size mo \<noteq> 0 \<Longrightarrow> take_bit pw (v - uint (mo_address mo)) < uint (mo_size mo) \<longleftrightarrow> in_object mo v"
proof -
  let ?a = "uint (mo_address mo)" and ?n = "uint (mo_size mo)" and ?m = "2 ^ pw :: int"
  have a: "0 \<le> ?a" "?a < ?m" "?a + ?n \<le> ?m" "0 \<le> ?n" using assms(1) by (auto simp: fits_def)
  have d: "take_bit pw (v - ?a) = (if ?a \<le> v then v - ?a else v - ?a + ?m)"
  proof (cases "?a \<le> v")
    case True
    then have "(v - ?a) mod ?m = v - ?a" using a assms(3) by (intro mod_pos_pos_trivial; linarith)
    then show ?thesis using True by (simp add: take_bit_eq_mod)
  next
    case False
    then have "(v - ?a + ?m) mod ?m = v - ?a + ?m" using a assms(2) by (intro mod_pos_pos_trivial; linarith)
    then show ?thesis using False by (simp add: take_bit_eq_mod)
  qed
  show "take_bit pw (v - ?a) = 0 \<longleftrightarrow> v = ?a" using d a assms(2,3) by auto
  show "mo_size mo \<noteq> 0 \<Longrightarrow> take_bit pw (v - ?a) < ?n \<longleftrightarrow> in_object mo v"
    using d a assms(2-4) by (auto simp: in_object_def)
qed

context solver_contract
begin

text \<open>Subtracting a constant introduces no read.\<close>

lemma create_constant_left:
  assumes "dyn_cast_Constant c = None"
  shows "AddExpr_create R (ConstantExpr s) c = do { require (getBitWidth s = getWidth c); AddExpr_createPartialR R s c }"
    and "SubExpr_create R (ConstantExpr s) c = do { require (getBitWidth s = getWidth c); SubExpr_createPartialR R s c }"
  using assms by (subst AddExpr_create.simps SubExpr_create.simps, simp)+

lemma create_constants:
  assumes "AddExpr_create R (ConstantExpr s) (ConstantExpr c) = Some e \<or> SubExpr_create R (ConstantExpr s) (ConstantExpr c) = Some e"
  shows "in_bounds \<sigma> e"
proof -
  have "AddExpr_create R (ConstantExpr s) (ConstantExpr c) = Some x \<Longrightarrow> in_bounds \<sigma> x" for x
    by (subst (asm) AddExpr_create.simps) (auto simp: bind_eq_Some_conv)
  moreover have "SubExpr_create R (ConstantExpr s) (ConstantExpr c) = Some x \<Longrightarrow> in_bounds \<sigma> x" for x
    by (subst (asm) SubExpr_create.simps) (auto simp: bind_eq_Some_conv)
  ultimately show ?thesis using assms by blast
qed

lemma add_sub_partial_in_bounds:
  "in_bounds \<sigma> r \<Longrightarrow> wt r \<Longrightarrow> ap_wf cl \<Longrightarrow> getBitWidth cl \<noteq> Bool \<Longrightarrow>
     (\<forall>e. AddExpr_createPartialR R cl r = Some e \<longrightarrow> in_bounds \<sigma> e)
     \<and> (\<forall>e. SubExpr_createPartialR R cl r = Some e \<longrightarrow> in_bounds \<sigma> e)"
proof (induction "size r" arbitrary: r cl rule: less_induct)
  case less
  have IH: "in_bounds \<sigma> e"
    if r: "r = BinaryExpr k (ConstantExpr x) c" and s: "fold_constants R op cl x = Some s" and op: "op = Add \<or> op = Sub"
      and e: "AddExpr_create R (ConstantExpr s) c = Some e \<or> SubExpr_create R (ConstantExpr s) c = Some e"
    for k x c s e op
  proof (cases "dyn_cast_Constant c")
    case None
    have s': "ap_wf s" "getBitWidth s \<noteq> Bool"
      using s op ConstantExpr_binop_refines [of cl x op] less.prems r
      by (auto simp: fold_constants_def bind_eq_Some_conv refines_def is_cmp_def)
    have c: "size c < size r" "in_bounds \<sigma> c" "wt c" using r less.prems by auto
    from e less.hyps [OF c s'] show ?thesis unfolding create_constant_left [OF None] by (auto simp: bind_eq_Some_conv)
  next
    case (Some cr)
    then have "c = ConstantExpr cr" by (cases c) auto
    with e create_constants show ?thesis by blast
  qed
  show ?case
  proof (cases "dyn_cast_constant_left Add r")
    case (Some z)
    obtain k c where z: "z = (k, c)" by fastforce
    with Some have "in_bounds \<sigma> e" if "AddExpr_createPartialR R cl r = Some e \<or> SubExpr_createPartialR R cl r = Some e" for e
      using that less.prems(1,4) IH [of Add k c]
        AddExpr_createPartialR.simps [of R cl r] SubExpr_createPartialR.simps [of R cl r]
      by (auto simp: bind_eq_Some_conv split: if_splits)
    then show ?thesis by blast
  next
    case None
    show ?thesis
    proof (cases "dyn_cast_constant_left Sub r")
      case (Some z)
      obtain k c where z: "z = (k, c)" by fastforce
      with Some have "in_bounds \<sigma> e" if "AddExpr_createPartialR R cl r = Some e \<or> SubExpr_createPartialR R cl r = Some e" for e
        using that None less.prems(1,4) IH [of Sub k c]
          AddExpr_createPartialR.simps [of R cl r] SubExpr_createPartialR.simps [of R cl r]
        by (auto simp: bind_eq_Some_conv split: if_splits)
      then show ?thesis by blast
    next
      case none: None
      with None less.prems show ?thesis
        using AddExpr_createPartialR.simps [of R cl r] SubExpr_createPartialR.simps [of R cl r]
        by (auto simp: bind_eq_Some_conv split: if_splits)
    qed
  qed
qed

lemma sub_constant_in_bounds:
  assumes "SubExpr_create R p (ConstantExpr b) = Some e" and "wt p" and "ap_wf b" and "getBitWidth b \<noteq> Bool" and "in_bounds \<sigma> p"
  shows "in_bounds \<sigma> e"
proof (cases "dyn_cast_Constant p")
  case None
  let ?z = "ConstantExpr_binop R Sub (ConstantExpr_alloc R 0 (getBitWidth b)) b"
  have "0 < getBitWidth b" using assms(3) by (simp add: ap_wf_def)
  then have z: "ap_wf (ConstantExpr_alloc R 0 (getBitWidth b))" "getBitWidth (ConstantExpr_alloc R 0 (getBitWidth b)) = getBitWidth b"
    by (simp_all add: alloc_simp ap_wf_def)
  have "ap_wf ?z" "getBitWidth ?z \<noteq> Bool"
    using ConstantExpr_binop_refines [OF z(1) assms(3) z(2), of Sub] assms(4) by (auto simp: refines_def is_cmp_def)
  moreover have "AddExpr_createPartialR R ?z p = Some e"
    using assms(1) None by (subst (asm) SubExpr_create.simps) (simp add: SubExpr_createPartial.simps bind_eq_Some_conv)
  ultimately show ?thesis using add_sub_partial_in_bounds [OF assms(5,2)] by blast
next
  case (Some c)
  then have "p = ConstantExpr c" by (cases p) auto
  with assms(1) create_constants show ?thesis by blast
qed

lemma base_create:
  assumes "fits pw mo" and "0 < pw" and "pw \<le> 64"
  shows "getBaseExpr R pw mo = Some (ConstantExpr (APInt pw (uint (mo_address mo))))" and "ap_wf (APInt pw (uint (mo_address mo)))"
  using create_word [of "mo_address mo" pw] assms by (simp_all add: getBaseExpr_def fits_def)

lemma size_bound: "32 \<le> pw \<Longrightarrow> uint (mo_size mo) < 2 ^ pw"
  using uint_lt2p [of "mo_size mo"] power_increasing [of 32 pw "2 :: int"] by simp

lemma size_create:
  assumes "32 \<le> pw" and "pw \<le> 64"
  shows "getSizeExpr R pw mo = Some (ConstantExpr (APInt pw (uint (mo_size mo))))" and "ap_wf (APInt pw (uint (mo_size mo)))"
proof -
  have "uint (ucast (mo_size mo) :: 64 word) = uint (mo_size mo)"
    using size_bound [of 64 mo] by (simp add: unsigned_ucast_eq take_bit_int_eq_self)
  with create_word [of "ucast (mo_size mo)" pw] size_bound [OF assms(1), of mo] assms
  show "getSizeExpr R pw mo = Some (ConstantExpr (APInt pw (uint (mo_size mo))))" and "ap_wf (APInt pw (uint (mo_size mo)))"
    by (simp_all add: getSizeExpr_def)
qed

text \<open>The condition asked of the solver says that the pointer is inside the object.\<close>

lemma bounds_create:
  assumes "query_ok q" and "query_safe q" and "getWidth (query_expr q) = pw" and "32 \<le> pw" and "fits pw mo"
  obtains c where "getBoundsCheckPointer R pw mo (query_expr q) = Some c" and "wt c" and "narrow c" and "getWidth c = Bool"
    and "\<And>\<sigma>. sat \<sigma> (constraints q) \<Longrightarrow> eval \<sigma> c = of_bool (in_object mo (eval \<sigma> (query_expr q)))"
proof -
  let ?p = "query_expr q" and ?a = "uint (mo_address mo)"
  have p: "wt ?p" "narrow ?p" "pw \<le> 64" using assms(1,3) narrow_width [of ?p] by (auto simp: query_ok_def)
  note b = base_create [OF assms(5) _ p(3)]
  let ?b = "ConstantExpr (APInt pw ?a)"
  have wb: "wt ?b" "narrow ?b" "getWidth ?p = getWidth ?b" "divisor_ok Sub ?b" using b p assms(3,4) by (simp_all add: divisor_ok_def)
  obtain off where off: "SubExpr_create R ?p ?b = Some off" "narrow off"
    using Binary_create_total [OF p(1) wb(1) p(2) wb(2-4)] by auto
  have woff: "wt off" "getWidth off = pw" "eval \<sigma> off = take_bit pw (eval \<sigma> ?p - ?a)" for \<sigma>
    using Binary_create_refines [OF p(1) wb(1) wb(4), of off] off(1) assms(3) by (auto simp: refines_on_def binary_cond_def is_cmp_def)
  have ob: "in_bounds \<sigma> off" if "sat \<sigma> (constraints q)" for \<sigma>
    using sub_constant_in_bounds [OF off(1) p(1) _ _ , of \<sigma>] b assms(2,4) that by (auto simp: query_safe_def)
  have rng: "0 \<le> eval \<sigma> ?p \<and> eval \<sigma> ?p < 2 ^ pw" for \<sigma> using eval_bv [OF p(1)] assms(3) by (auto simp: bv_def)
  note io = offset_in_object [OF assms(5) conjunct1 [OF rng] conjunct2 [OF rng] size_bound [OF assms(4)]]
  show ?thesis
  proof (cases "mo_size mo = 0")
    case True
    have z: "ConstantExpr_alloc R 0 pw = APInt pw 0" using assms(4) by (simp add: alloc_simp)
    let ?r = "ConstantExpr (APInt pw 0)"
    have r: "wt ?r" "narrow ?r" "getWidth off = getWidth ?r" "divisor_ok Eq ?r"
      using p assms(4) woff(2) by (simp_all add: divisor_ok_def ap_wf_def bv_def)
    obtain c where c: "EqExpr_create R off ?r = Some c" "narrow c"
      using Binary_create_total [OF woff(1) r(1) off(2) r(2-4)] by auto
    have "eval \<sigma> c = of_bool (in_object mo (eval \<sigma> ?p))" "wt c" "getWidth c = Bool" if "sat \<sigma> (constraints q)" for \<sigma>
      using Binary_create_refines [OF woff(1) r(1,4), of c] c(1) ob [OF that] io(1) [of \<sigma>] woff(3) [of \<sigma>] True
      by (auto simp: refines_on_def binary_cond_def is_cmp_def eq_cond_def in_object_def)
    moreover have "wt c" "getWidth c = Bool"
      using Binary_create_refines [OF woff(1) r(1,4), of c] c(1) by (auto simp: refines_on_def is_cmp_def)
    ultimately show ?thesis
      using c z b off True assms(4) by (intro that [of c]) (simp_all add: getBoundsCheckPointer_def getOffsetExpr_def getBoundsCheckOffset_def)
  next
    case False
    note sz = size_create [OF assms(4) p(3), of mo]
    let ?r = "ConstantExpr (APInt pw (uint (mo_size mo)))"
    have r: "wt ?r" "narrow ?r" "getWidth off = getWidth ?r" "divisor_ok Ult ?r"
      using p sz woff(2) by (simp_all add: divisor_ok_def)
    obtain c where c: "UltExpr_create R off ?r = Some c" "narrow c"
      using Binary_create_total [OF woff(1) r(1) off(2) r(2-4)] by auto
    have "eval \<sigma> c = of_bool (in_object mo (eval \<sigma> ?p)) \<and> wt c \<and> getWidth c = Bool" for \<sigma>
      using Binary_create_refines [OF woff(1) r(1,4), of c] c(1) io(2) [OF False, of \<sigma>] woff(3) [of \<sigma>]
      by (auto simp: refines_on_def binary_cond_def is_cmp_def)
    then show ?thesis
      using c sz b off False assms(4) by (intro that [of c]) (simp_all add: getBoundsCheckPointer_def getOffsetExpr_def getBoundsCheckOffset_def)
  qed
qed

section \<open>The answers of the wrapped solver\<close>

lemma timing_must:
  assumes "sinv s" and "bool_query q"
  shows "outcome_ok live sinv (\<lambda>b. b = must_be q) (Timing_mustBeTrue S q s)"
proof (cases "dyn_cast_Constant (query_expr q)")
  case None
  then show ?thesis using mustBeTrue_contract [OF assms] by (intro outcomeI) (simp add: Timing_mustBeTrue_def)
next
  case (Some c)
  then show ?thesis using constant_query(1) [OF assms(2), of c] assms(1)
    by (auto simp: Timing_mustBeTrue_def asserted_def outcome_ok_def)
qed

lemma timing_evaluate:
  assumes "sinv s" and "bool_query q"
  shows "outcome_ok live sinv (\<lambda>v. v = validity_of q) (Timing_evaluate S q s)"
proof (cases "dyn_cast_Constant (query_expr q)")
  case None
  then show ?thesis using evaluate_contract [OF assms] by (intro outcomeI) (simp add: Timing_evaluate_def)
next
  case (Some c)
  then show ?thesis using constant_query [OF assms(2), of c] assms(1)
    by (auto simp: Timing_evaluate_def validity_of_def)
qed

lemma timing_may:
  assumes "sinv s" and "bool_query q"
  shows "outcome_ok live sinv (\<lambda>b. b = (\<not> must_be_not q)) (Timing_mayBeTrue R S q s)"
proof -
  obtain nq where nq: "createIsZero R (query_expr q) = Some (query_expr nq)" "nq = withExpr q (query_expr nq)" "bool_query nq"
    "must_be nq = must_be_not q" using negateExpr_total [OF assms(2)] .
  have "outcome_ok live sinv (\<lambda>b. b = must_be_not q) (Timing_mustBeFalse R S q s)"
    using timing_must [OF assms(1) nq(3)] nq by (simp add: Timing_mustBeFalse_def)
  then show ?thesis unfolding Timing_mayBeTrue_def by (rule outcome_and_then) auto
qed

lemma timing_value:
  assumes "sinv s" and "query_ok q"
  shows "outcome_ok False sinv (\<lambda>c. ap_wf c \<and> getBitWidth c = getWidth (query_expr q) \<and> apValue c \<in> feasible q) (Timing_getValue S q s)"
proof (cases "dyn_cast_Constant (query_expr q)")
  case None
  then show ?thesis using getValue_contract [OF assms] by (intro outcomeI) (simp add: Timing_getValue_def)
next
  case (Some c)
  then show ?thesis using assms by (auto simp: Timing_getValue_def query_ok_def feasible_def)
qed

text \<open>The comparisons of the pointer with the base of an object.\<close>

lemma base_compare:
  assumes "pointer_query pw q" and "fits pw mo"
  shows "\<exists>c. do { b \<leftarrow> getBaseExpr R pw mo; UgeExpr_create R (query_expr q) b } = Some c \<and> wt c \<and> narrow c \<and> getWidth c = Bool
      \<and> (\<forall>\<sigma>. eval \<sigma> c = of_bool (uint (mo_address mo) \<le> eval \<sigma> (query_expr q)))"
    and "\<exists>c. do { b \<leftarrow> getBaseExpr R pw mo; UltExpr_create R (query_expr q) b } = Some c \<and> wt c \<and> narrow c \<and> getWidth c = Bool
      \<and> (\<forall>\<sigma>. eval \<sigma> c = of_bool (eval \<sigma> (query_expr q) < uint (mo_address mo)))"
proof -
  let ?p = "query_expr q" and ?b = "ConstantExpr (APInt pw (uint (mo_address mo)))"
  have p: "wt ?p" "narrow ?p" "pw \<le> 64" "getWidth ?p = pw" "0 < pw"
    using assms(1) narrow_width [of ?p] by (auto simp: query_ok_def pointer_query_def)
  note b = base_create [OF assms(2) p(5,3)]
  have wb: "wt ?b" "narrow ?b" "getWidth ?p = getWidth ?b" "divisor_ok Ult ?b" "divisor_ok Uge ?b" using b p by (simp_all add: divisor_ok_def)
  obtain c where c: "Binary_create R Uge ?p ?b = Some c" "narrow c" using Binary_create_total [OF p(1) wb(1) p(2) wb(2,3,5)] by auto
  with Binary_create_refines [OF p(1) wb(1,5) c(1)] b
  show "\<exists>c. do { b \<leftarrow> getBaseExpr R pw mo; UgeExpr_create R ?p b } = Some c \<and> wt c \<and> narrow c \<and> getWidth c = Bool
      \<and> (\<forall>\<sigma>. eval \<sigma> c = of_bool (uint (mo_address mo) \<le> eval \<sigma> ?p))"
    by (intro exI [of _ c]) (auto simp: refines_on_def binary_cond_def is_cmp_def)
  obtain c where c: "Binary_create R Ult ?p ?b = Some c" "narrow c" using Binary_create_total [OF p(1) wb(1) p(2) wb(2-4)] by auto
  with Binary_create_refines [OF p(1) wb(1,4) c(1)] b
  show "\<exists>c. do { b \<leftarrow> getBaseExpr R pw mo; UltExpr_create R ?p b } = Some c \<and> wt c \<and> narrow c \<and> getWidth c = Bool
      \<and> (\<forall>\<sigma>. eval \<sigma> c = of_bool (eval \<sigma> ?p < uint (mo_address mo)))"
    by (intro exI [of _ c]) (auto simp: refines_on_def binary_cond_def is_cmp_def)
qed

lemma resolution_questions:
  assumes s: "sinv s" and q: "pointer_query pw q" and mo: "fits pw mo"
  shows "outcome_ok live sinv (\<lambda>b. b = (\<exists>v\<in>feasible q. in_object mo v)) (may_be_in R S pw q mo s)"
    and "outcome_ok live sinv (\<lambda>b. b = (\<forall>v\<in>feasible q. in_object mo v)) (must_be_in R S pw q mo s)"
    and "outcome_ok live sinv (\<lambda>b. b = (\<forall>v\<in>feasible q. uint (mo_address mo) \<le> v)) (must_be_above R S pw q mo s)"
    and "outcome_ok live sinv (\<lambda>b. b = (\<forall>v\<in>feasible q. v < uint (mo_address mo))) (must_be_below R S pw q mo s)"
proof -
  have ok: "query_ok q" "query_safe q" "getWidth (query_expr q) = pw" "32 \<le> pw" using q by (auto simp: pointer_query_def)
  obtain c where c: "getBoundsCheckPointer R pw mo (query_expr q) = Some c" "wt c" "narrow c" "getWidth c = Bool"
    "\<And>\<sigma>. sat \<sigma> (constraints q) \<Longrightarrow> eval \<sigma> c = of_bool (in_object mo (eval \<sigma> (query_expr q)))"
    by (rule bounds_create [OF ok mo]) blast
  note a = asked [OF ok(1) c(2-5)]
  show "outcome_ok live sinv (\<lambda>b. b = (\<exists>v\<in>feasible q. in_object mo v)) (may_be_in R S pw q mo s)"
    using timing_may [OF s a(1)] a(3) c(1) by (simp add: may_be_in_def)
  show "outcome_ok live sinv (\<lambda>b. b = (\<forall>v\<in>feasible q. in_object mo v)) (must_be_in R S pw q mo s)"
    using timing_must [OF s a(1)] a(2) c(1) by (simp add: must_be_in_def)
  obtain c where c: "do { b \<leftarrow> getBaseExpr R pw mo; UgeExpr_create R (query_expr q) b } = Some c" "wt c" "narrow c" "getWidth c = Bool"
    "\<And>\<sigma>. eval \<sigma> c = of_bool (uint (mo_address mo) \<le> eval \<sigma> (query_expr q))" using base_compare(1) [OF q mo] by auto
  note a = asked [OF ok(1) c(2-5)]
  show "outcome_ok live sinv (\<lambda>b. b = (\<forall>v\<in>feasible q. uint (mo_address mo) \<le> v)) (must_be_above R S pw q mo s)"
    using timing_must [OF s a(1)] a(2) c(1) by (simp add: must_be_above_def)
  obtain c where c: "do { b \<leftarrow> getBaseExpr R pw mo; UltExpr_create R (query_expr q) b } = Some c" "wt c" "narrow c" "getWidth c = Bool"
    "\<And>\<sigma>. eval \<sigma> c = of_bool (eval \<sigma> (query_expr q) < uint (mo_address mo))" using base_compare(2) [OF q mo] by auto
  note a = asked [OF ok(1) c(2-5)]
  show "outcome_ok live sinv (\<lambda>b. b = (\<forall>v\<in>feasible q. v < uint (mo_address mo))) (must_be_below R S pw q mo s)"
    using timing_must [OF s a(1)] a(2) c(1) by (simp add: must_be_below_def)
qed

end

end
