(* ===== verification/Resolution.thy ===== *)
theory Resolution
  imports PointerChecks
begin

text \<open>
  From a symbolic pointer to memory objects: the searches of \<^verbatim>\<open>AddressSpace::resolveOne\<close> and
  \<^verbatim>\<open>AddressSpace::resolve\<close> (\<^verbatim>\<open>src/klee/lib/Core/AddressSpace.cpp\<close>). The searches walk the address map with
  its iterators; the fuel of the loops is one more than the number of objects, and the theorems show
  that this is enough.
\<close>

section \<open>Resolution\<close>

type_synonym object_pair = "memory_object \<times> nat"

text \<open>A constant address: the object at or before it, if the address is inside.\<close>

definition contains :: "memory_object \<Rightarrow> 64 word \<Rightarrow> bool" where
  "contains mo address \<longleftrightarrow>
     mo_size mo = 0 \<and> address = mo_address mo \<or> address - mo_address mo < ucast (mo_size mo)"

definition resolveOne_constant :: "address_space \<Rightarrow> apint \<Rightarrow> object_pair option option" where
  "resolveOne_constant as addr =
     do { address \<leftarrow> ConstantExpr_getZExtValue addr 64;
          Some (case tree_lookup_previous MemoryObjectLT fst (hack address) (objects as) of
                  None \<Rightarrow> None
                | Some res \<Rightarrow> if contains (fst res) address then Some res else None) }"

text \<open>A solver call whose failure makes the function return a given value.\<close>

definition else_return ::
  "('s \<Rightarrow> 'a answer \<times> 's) \<Rightarrow> 'b \<Rightarrow> ('a \<Rightarrow> 's \<Rightarrow> 'b answer \<times> 's) \<Rightarrow> 's \<Rightarrow> 'b answer \<times> 's" where
  "else_return f d g s =
     (case f s of
        (Abort, s') \<Rightarrow> (Abort, s')
      | (Fail, s') \<Rightarrow> (Answer d, s')
      | (Answer a, s') \<Rightarrow> g a s')"

text \<open>
  The search for one object. The value of the loops is \<^verbatim>\<open>None\<close> when they go on, otherwise what the
  function returns: \<^verbatim>\<open>None\<close> for \<^verbatim>\<open>false\<close> (a query failed), and the object that was found for \<^verbatim>\<open>true\<close>.
\<close>

type_synonym one_result = "object_pair option option"

fun resolveOne_back ::
  "klee_rt \<Rightarrow> 's solver_impl \<Rightarrow> width \<Rightarrow> query \<Rightarrow> object_pair tree_iterator \<Rightarrow> nat \<Rightarrow> object_pair tree_iterator
    \<Rightarrow> 's \<Rightarrow> one_result option answer \<times> 's" where
  "resolveOne_back R S pw q begin_it 0 oi s = (Abort, s)"
| "resolveOne_back R S pw q begin_it (Suc fuel) oi s =
     (if it_stack oi = it_stack begin_it then (Answer None, s)
      else let oi = iterator_decr oi in
        case iterator_deref oi of
          None \<Rightarrow> (Abort, s)
        | Some x \<Rightarrow>
            else_return (may_be_in R S pw q (fst x)) (Some None) (\<lambda>mayBeTrue.
              if mayBeTrue then answer (Some (Some (Some x)))
              else else_return (must_be_above R S pw q (fst x)) (Some None) (\<lambda>mustBeTrue.
                if mustBeTrue then answer None
                else resolveOne_back R S pw q begin_it fuel oi)) s)"

fun resolveOne_forward ::
  "klee_rt \<Rightarrow> 's solver_impl \<Rightarrow> width \<Rightarrow> query \<Rightarrow> object_pair tree_iterator \<Rightarrow> nat \<Rightarrow> object_pair tree_iterator
    \<Rightarrow> 's \<Rightarrow> one_result option answer \<times> 's" where
  "resolveOne_forward R S pw q end_it 0 oi s = (Abort, s)"
| "resolveOne_forward R S pw q end_it (Suc fuel) oi s =
     (if it_stack oi = it_stack end_it then (Answer None, s)
      else case iterator_deref oi of
          None \<Rightarrow> (Abort, s)
        | Some x \<Rightarrow>
            else_return (must_be_below R S pw q (fst x)) (Some None) (\<lambda>mustBeTrue.
              if mustBeTrue then answer None
              else else_return (may_be_in R S pw q (fst x)) (Some None) (\<lambda>mayBeTrue.
                if mayBeTrue then answer (Some (Some (Some x)))
                else and_then (asserted (iterator_incr oi)) (resolveOne_forward R S pw q end_it fuel))) s)"

definition resolveOne_search ::
  "klee_rt \<Rightarrow> 's solver_impl \<Rightarrow> width \<Rightarrow> address_space \<Rightarrow> query \<Rightarrow> 64 word \<Rightarrow> 's \<Rightarrow> one_result answer \<times> 's" where
  "resolveOne_search R S pw as q example =
     (let fuel = length (inorder (objects as)) + 1 in
      and_then (asserted (tree_upper_bound MemoryObjectLT fst (hack example) (objects as))) (\<lambda>start.
      and_then (resolveOne_back R S pw q (tree_begin (objects as)) fuel start) (\<lambda>back.
        case back of
          Some r \<Rightarrow> answer r
        | None \<Rightarrow>
            and_then (resolveOne_forward R S pw q (tree_end (objects as)) fuel start) (\<lambda>forward.
              answer (case forward of Some r \<Rightarrow> r | None \<Rightarrow> Some None)))))"

definition resolveOne ::
  "klee_rt \<Rightarrow> 's solver_impl \<Rightarrow> width \<Rightarrow> address_space \<Rightarrow> query \<Rightarrow> 's \<Rightarrow> one_result answer \<times> 's" where
  "resolveOne R S pw as q =
     (case dyn_cast_Constant (query_expr q) of
        Some CE \<Rightarrow> and_then (asserted (resolveOne_constant as CE)) (\<lambda>res. answer (Some res))
      | None \<Rightarrow>
          else_return (Timing_getValue S q) None (\<lambda>cex.
          and_then (asserted (ConstantExpr_getZExtValue cex 64)) (\<lambda>example.
            case tree_lookup_previous MemoryObjectLT fst (hack example) (objects as) of
              Some res \<Rightarrow>
                if example - mo_address (fst res) < ucast (mo_size (fst res)) then answer (Some (Some res))
                else resolveOne_search R S pw as q example
            | None \<Rightarrow> resolveOne_search R S pw as q example)))"

text \<open>
  The search for all objects. The value of the loops is the list of objects together with \<^verbatim>\<open>None\<close> when
  they go on, otherwise with what the function returns: whether the resolution is incomplete. The
  clock of the time limit is a function of the solver's state.
\<close>

type_synonym progress = "bool option \<times> object_pair list"

definition visit ::
  "klee_rt \<Rightarrow> 's solver_impl \<Rightarrow> width \<Rightarrow> query \<Rightarrow> 32 word \<Rightarrow> object_pair \<Rightarrow> object_pair list
    \<Rightarrow> (object_pair list \<Rightarrow> 's \<Rightarrow> progress answer \<times> 's) \<Rightarrow> 's \<Rightarrow> progress answer \<times> 's" where
  "visit R S pw q maxResolutions x rl go_on =
     else_return (may_be_in R S pw q (fst x)) (Some True, rl) (\<lambda>mayBeTrue.
       if mayBeTrue then
         (let rl = rl @ [x]; size = (of_nat (length rl) :: 32 word) in
          if size = 1 then
            else_return (must_be_in R S pw q (fst x)) (Some True, rl) (\<lambda>mustBeTrue.
              if mustBeTrue then answer (Some False, rl) else go_on rl)
          else if size = maxResolutions then answer (Some True, rl)
          else go_on rl)
       else go_on rl)"

fun resolve_back ::
  "klee_rt \<Rightarrow> 's solver_impl \<Rightarrow> width \<Rightarrow> ('s \<Rightarrow> bool) \<Rightarrow> query \<Rightarrow> 32 word \<Rightarrow> object_pair tree_iterator \<Rightarrow> nat
    \<Rightarrow> object_pair tree_iterator \<Rightarrow> object_pair list \<Rightarrow> 's \<Rightarrow> progress answer \<times> 's" where
  "resolve_back R S pw expired q maxResolutions begin_it 0 oi rl s = (Abort, s)"
| "resolve_back R S pw expired q maxResolutions begin_it (Suc fuel) oi rl s =
     (if it_stack oi = it_stack begin_it then (Answer (None, rl), s)
      else let oi = iterator_decr oi in
        case iterator_deref oi of
          None \<Rightarrow> (Abort, s)
        | Some x \<Rightarrow>
            if expired s then (Answer (Some True, rl), s)
            else visit R S pw q maxResolutions x rl (\<lambda>rl.
              else_return (must_be_above R S pw q (fst x)) (Some True, rl) (\<lambda>mustBeTrue.
                if mustBeTrue then answer (None, rl)
                else resolve_back R S pw expired q maxResolutions begin_it fuel oi rl)) s)"

fun resolve_forward ::
  "klee_rt \<Rightarrow> 's solver_impl \<Rightarrow> width \<Rightarrow> ('s \<Rightarrow> bool) \<Rightarrow> query \<Rightarrow> 32 word \<Rightarrow> object_pair tree_iterator \<Rightarrow> nat
    \<Rightarrow> object_pair tree_iterator \<Rightarrow> object_pair list \<Rightarrow> 's \<Rightarrow> progress answer \<times> 's" where
  "resolve_forward R S pw expired q maxResolutions end_it 0 oi rl s = (Abort, s)"
| "resolve_forward R S pw expired q maxResolutions end_it (Suc fuel) oi rl s =
     (if it_stack oi = it_stack end_it then (Answer (None, rl), s)
      else case iterator_deref oi of
          None \<Rightarrow> (Abort, s)
        | Some x \<Rightarrow>
            if expired s then (Answer (Some True, rl), s)
            else else_return (must_be_below R S pw q (fst x)) (Some True, rl) (\<lambda>mustBeTrue.
              if mustBeTrue then answer (None, rl)
              else visit R S pw q maxResolutions x rl (\<lambda>rl.
                and_then (asserted (iterator_incr oi)) (\<lambda>oi.
                  resolve_forward R S pw expired q maxResolutions end_it fuel oi rl))) s)"

definition resolve_search ::
  "klee_rt \<Rightarrow> 's solver_impl \<Rightarrow> width \<Rightarrow> ('s \<Rightarrow> bool) \<Rightarrow> address_space \<Rightarrow> query \<Rightarrow> 32 word \<Rightarrow> 64 word
    \<Rightarrow> 's \<Rightarrow> (bool \<times> object_pair list) answer \<times> 's" where
  "resolve_search R S pw expired as q maxResolutions example =
     (let fuel = length (inorder (objects as)) + 1 in
      and_then (asserted (tree_upper_bound MemoryObjectLT fst (hack example) (objects as))) (\<lambda>start.
      and_then (resolve_back R S pw expired q maxResolutions (tree_begin (objects as)) fuel start []) (\<lambda>(stop, rl).
        case stop of
          Some incomplete \<Rightarrow> answer (incomplete, rl)
        | None \<Rightarrow>
            and_then (resolve_forward R S pw expired q maxResolutions (tree_end (objects as)) fuel start rl) (\<lambda>(stop, rl).
              answer (case stop of Some incomplete \<Rightarrow> incomplete | None \<Rightarrow> False, rl)))))"

definition resolve ::
  "klee_rt \<Rightarrow> 's solver_impl \<Rightarrow> width \<Rightarrow> ('s \<Rightarrow> bool) \<Rightarrow> address_space \<Rightarrow> query \<Rightarrow> 32 word
    \<Rightarrow> 's \<Rightarrow> (bool \<times> object_pair list) answer \<times> 's" where
  "resolve R S pw expired as q maxResolutions =
     (case dyn_cast_Constant (query_expr q) of
        Some CE \<Rightarrow>
          and_then (asserted (resolveOne_constant as CE)) (\<lambda>res.
            answer (False, case res of None \<Rightarrow> [] | Some x \<Rightarrow> [x]))
      | None \<Rightarrow>
          else_return (Timing_getValue S q) (True, []) (\<lambda>cex.
          and_then (asserted (ConstantExpr_getZExtValue cex 64)) (resolve_search R S pw expired as q maxResolutions)))"

lemma outcome_else_return:
  assumes "outcome_ok l I P (f s)" and "Q d" and "\<And>a s'. P a \<Longrightarrow> I s' \<Longrightarrow> outcome_ok True I Q (g a s')"
  shows "outcome_ok True I Q (else_return f d g s)"
  using assms by (cases "f s"; cases "fst (f s)") (auto simp: outcome_ok_def else_return_def)

section \<open>The searches\<close>

definition may_hit :: "query \<Rightarrow> object_pair \<Rightarrow> bool" where
  "may_hit q x \<longleftrightarrow> (\<exists>v\<in>feasible q. in_object (fst x) v)"

text \<open>What the answers say about the other objects of a space, which do not overlap.\<close>

lemma below_base:
  assumes "placed pw as" and "x \<in> entries as" and "y \<in> entries as" and "mo_address (fst x) < mo_address (fst y)"
    and "\<forall>v\<in>feasible q. uint (mo_address (fst y)) \<le> v"
  shows "\<not> may_hit q x"
  using assms by (fastforce simp: may_hit_def placed_def in_object_def word_less_def split: if_splits)

lemma above_base:
  assumes "mo_address (fst x) \<le> mo_address (fst y)" and "\<forall>v\<in>feasible q. v < uint (mo_address (fst x))"
  shows "\<not> may_hit q y"
  using assms by (fastforce simp: may_hit_def in_object_def word_le_def split: if_splits)

lemma inside_apart:
  assumes "placed pw as" and "x \<in> entries as" and "y \<in> entries as" and "mo_address (fst x) < mo_address (fst y)"
    and "in_object (fst x) v"
  shows "\<not> in_object (fst y) v"
  using assms by (fastforce simp: placed_def in_object_def word_less_def split: if_splits)

lemma same_address:
  assumes "mo_map.ordered xs" and "x \<in> set xs" and "y \<in> set xs" and "mo_address (fst x) = mo_address (fst y)"
  shows "x = y"
proof -
  obtain i j where "i < length xs" "xs ! i = x" "j < length xs" "xs ! j = y" using assms(2,3) by (auto simp: in_set_conv_nth)
  moreover from this have "i = j"
    using assms(1,4) by (metis linorder_neq_iff mo_ordered order_less_irrefl sorted_wrt_nth_less)
  ultimately show ?thesis by simp
qed

lemma inside_only:
  assumes "placed pw as" and "mo_map.ordered (inorder (objects as))" and "x \<in> entries as" and "y \<in> entries as"
    and "\<forall>v\<in>feasible q. in_object (fst x) v" and "may_hit q y"
  shows "y = x"
proof -
  obtain v where v: "in_object (fst x) v" "in_object (fst y) v" using assms(5,6) by (auto simp: may_hit_def)
  have "\<not> mo_address (fst x) < mo_address (fst y)" "\<not> mo_address (fst y) < mo_address (fst x)"
    using inside_apart [OF assms(1)] assms(3,4) v by blast+
  then show ?thesis using same_address [OF assms(2,4,3)] by simp
qed

lemma addr_less:
  assumes "mo_map.ordered xs" and "j < length xs"
  shows "i < j \<Longrightarrow> mo_address (fst (xs ! i)) < mo_address (fst (xs ! j))"
    and "y \<in> set (take j xs) \<Longrightarrow> mo_address (fst y) < mo_address (fst (xs ! j))"
    and "y \<in> set (drop (Suc j) xs) \<Longrightarrow> mo_address (fst (xs ! j)) < mo_address (fst y)"
    and "y \<in> set (drop (Suc j) (take k xs)) \<Longrightarrow> mo_address (fst (xs ! j)) < mo_address (fst y)"
proof -
  have less: "mo_address (fst (xs ! a)) < mo_address (fst (xs ! b))" if "a < b" "b < length xs" for a b
    using sorted_wrt_nth_less [OF _ that] assms(1) unfolding mo_ordered by blast
  then show "i < j \<Longrightarrow> mo_address (fst (xs ! i)) < mo_address (fst (xs ! j))" using assms(2) by blast
  from less assms(2) show "y \<in> set (take j xs) \<Longrightarrow> mo_address (fst y) < mo_address (fst (xs ! j))"
    by (auto simp: in_set_conv_nth)
  from less show d: "y \<in> set (drop (Suc j) xs) \<Longrightarrow> mo_address (fst (xs ! j)) < mo_address (fst y)" for y
    by (auto simp: in_set_conv_nth)
  show "y \<in> set (drop (Suc j) (take k xs)) \<Longrightarrow> mo_address (fst (xs ! j)) < mo_address (fst y)"
    using d set_take_subset by (metis drop_take subsetD)
qed

text \<open>
  What a search has achieved: the list holds objects that the pointer may be in, each once, and no
  more than asked for; if the search goes on it has found all of them in the part \<^verbatim>\<open>Y\<close> of the space,
  and if it returns that the list is complete it has found all of them.
\<close>

definition within :: "32 word \<Rightarrow> object_pair list \<Rightarrow> bool" where
  "within n rl \<longleftrightarrow> (2 \<le> n \<longrightarrow> length rl < unat n)"

definition found_all :: "query \<Rightarrow> object_pair set \<Rightarrow> object_pair list \<Rightarrow> bool" where
  "found_all q Y rl \<longleftrightarrow> (\<forall>x\<in>Y. may_hit q x \<longrightarrow> x \<in> set rl)"

definition good :: "query \<Rightarrow> 32 word \<Rightarrow> object_pair set \<Rightarrow> object_pair set \<Rightarrow> progress \<Rightarrow> bool" where
  "good q n X Y p \<longleftrightarrow> (case p of (stop, rl) \<Rightarrow>
     set rl \<subseteq> X \<and> (\<forall>x\<in>set rl. may_hit q x) \<and> distinct rl \<and> (2 \<le> n \<longrightarrow> length rl \<le> unat n)
     \<and> (case stop of None \<Rightarrow> within n rl \<and> set rl \<subseteq> Y \<and> found_all q Y rl | Some incomplete \<Rightarrow> \<not> incomplete \<longrightarrow> found_all q X rl))"

definition hits :: "query \<Rightarrow> 32 word \<Rightarrow> object_pair set \<Rightarrow> object_pair list \<Rightarrow> bool" where
  "hits q n X rl \<longleftrightarrow> set rl \<subseteq> X \<and> (\<forall>x\<in>set rl. may_hit q x) \<and> distinct rl \<and> within n rl"

lemma hits_good:
  assumes "hits q n X rl"
  shows "good q n X Y (Some True, rl)"
    and "set rl \<subseteq> Y \<Longrightarrow> found_all q Y rl \<Longrightarrow> good q n X Y (None, rl)"
    and "x \<in> X \<Longrightarrow> x \<notin> set rl \<Longrightarrow> may_hit q x \<Longrightarrow> good q n X Y (Some True, rl @ [x])"
    and "x \<in> X \<Longrightarrow> x \<notin> set rl \<Longrightarrow> may_hit q x \<Longrightarrow> (\<And>y. y \<in> X \<Longrightarrow> may_hit q y \<Longrightarrow> y = x) \<Longrightarrow> good q n X Y (Some False, rl @ [x])"
proof -
  have r: "set rl \<subseteq> X" "\<forall>x\<in>set rl. may_hit q x" "distinct rl" "within n rl" using assms by (simp_all add: hits_def)
  then show "good q n X Y (Some True, rl)" and "set rl \<subseteq> Y \<Longrightarrow> found_all q Y rl \<Longrightarrow> good q n X Y (None, rl)" by (auto simp: good_def within_def)
  show g: "good q n X Y (Some True, rl @ [x])" if "x \<in> X" "x \<notin> set rl" "may_hit q x" using r that by (auto simp: good_def within_def)
  show "good q n X Y (Some False, rl @ [x])" if "x \<in> X" "x \<notin> set rl" "may_hit q x" "\<And>y. y \<in> X \<Longrightarrow> may_hit q y \<Longrightarrow> y = x"
    using g [OF that(1-3)] that(4) by (simp add: good_def found_all_def)
qed

context solver_contract
begin

lemma visit_ok:
  assumes s: "sinv s" and q: "pointer_query pw q" and x: "fits pw (fst x)" and n: "within n rl"
    and P: "P (Some True, rl)" "may_hit q x \<Longrightarrow> P (Some True, rl @ [x])"
      "may_hit q x \<Longrightarrow> \<forall>v\<in>feasible q. in_object (fst x) v \<Longrightarrow> P (Some False, rl @ [x])"
    and go: "\<And>s'. sinv s' \<Longrightarrow> \<not> may_hit q x \<Longrightarrow> outcome_ok True sinv P (go_on rl s')"
      "\<And>s'. sinv s' \<Longrightarrow> may_hit q x \<Longrightarrow> within n (rl @ [x]) \<Longrightarrow> outcome_ok True sinv P (go_on (rl @ [x]) s')"
  shows "outcome_ok True sinv P (visit R S pw q n x rl go_on s)"
  unfolding visit_def
proof (rule outcome_else_return, rule resolution_questions(1) [OF s q x, folded may_hit_def], rule P(1))
  fix b s' assume b: "b = may_hit q x" and s': "sinv s'"
  have step: "within n (rl @ [x])" if "of_nat (length (rl @ [x])) \<noteq> n \<or> length (rl @ [x]) = 1"
  proof (cases "2 \<le> n")
    case True
    then have "length rl < unat n" "2 \<le> unat n" using n by (simp_all add: within_def word_le_nat_alt)
    moreover have "length (rl @ [x]) \<noteq> unat n"
    proof
      assume e: "length (rl @ [x]) = unat n"
      then have "of_nat (length (rl @ [x])) = n" by (metis of_nat_unat ucast_id)
      with that have "length (rl @ [x]) = 1" by blast
      with e \<open>2 \<le> unat n\<close> show False by simp
    qed
    ultimately show ?thesis by (simp add: within_def)
  qed (simp add: within_def)
  have one: "length (rl @ [x]) = 1 \<or> \<not> 2 \<le> n" if "of_nat (length (rl @ [x])) = (1 :: 32 word)"
  proof (cases "2 \<le> n")
    case True
    then have "length (rl @ [x]) < 2 ^ 32" using n unsigned_less [of n, where ?'a = nat] by (auto simp: within_def)
    then have "unat (of_nat (length (rl @ [x])) :: 32 word) = length (rl @ [x])"
      by (simp add: unsigned_of_nat take_bit_nat_eq_self del: length_append of_nat_add)
    with that show ?thesis by (metis unat_1)
  qed simp
  show "outcome_ok True sinv P ((if b then let rl = rl @ [x]; size = (of_nat (length rl) :: 32 word)
      in if size = 1 then else_return (must_be_in R S pw q (fst x)) (Some True, rl) (\<lambda>m. if m then answer (Some False, rl) else go_on rl)
         else if size = n then answer (Some True, rl) else go_on rl else go_on rl) s')"
  proof (cases b)
    case True
    then have hit: "may_hit q x" using b by simp
    have w: "within n (rl @ [x])" if "of_nat (length (rl @ [x])) = (1 :: 32 word) \<or> of_nat (length (rl @ [x])) \<noteq> n"
      using that one step by (auto simp: within_def)
    have "outcome_ok True sinv P (else_return (must_be_in R S pw q (fst x)) (Some True, rl @ [x])
        (\<lambda>m. if m then answer (Some False, rl @ [x]) else go_on (rl @ [x])) s')"
      if "of_nat (length (rl @ [x])) = (1 :: 32 word)"
    proof (rule outcome_else_return, rule resolution_questions(2) [OF s' q x], rule P(2) [OF hit])
      fix m s'' assume m: "m = (\<forall>v\<in>feasible q. in_object (fst x) v)" and s'': "sinv s''"
      show "outcome_ok True sinv P ((if m then answer (Some False, rl @ [x]) else go_on (rl @ [x])) s'')"
        using P(3) [OF hit] go(2) [OF s'' hit] w that m s'' by auto
    qed
    then show ?thesis using True P(2) [OF hit] go(2) [OF s' hit] w s' by (auto simp: Let_def)
  qed (use b go(1) [OF s'] in simp)
qed

text \<open>One round of a loop, given what holds of the rest of it.\<close>

lemma visit_good:
  assumes "sinv s" and "pointer_query pw q" and "placed pw as" and "mo_map.ordered (inorder (objects as))"
    and "hits q n (entries as) rl" and "x \<in> entries as" and "x \<notin> set rl"
    and go: "\<And>rl' s'. sinv s' \<Longrightarrow> hits q n (entries as) rl' \<Longrightarrow> set rl \<subseteq> set rl' \<Longrightarrow> set rl' \<subseteq> insert x (set rl) \<Longrightarrow> (may_hit q x \<longrightarrow> x \<in> set rl')
      \<Longrightarrow> outcome_ok True sinv (good q n (entries as) Y) (go_on rl' s')"
  shows "outcome_ok True sinv (good q n (entries as) Y) (visit R S pw q n x rl go_on s)"
proof (rule visit_ok [OF assms(1,2)])
  note h = hits_good [OF assms(5), where Y = Y]
  show "fits pw (fst x)" using assms(3,6) by (simp add: placed_def)
  show "within n rl" using assms(5) by (simp add: hits_def)
  show "good q n (entries as) Y (Some True, rl)" by (rule h(1))
  show "may_hit q x \<Longrightarrow> good q n (entries as) Y (Some True, rl @ [x])" by (rule h(3) [OF assms(6,7)])
  show "may_hit q x \<Longrightarrow> \<forall>v\<in>feasible q. in_object (fst x) v \<Longrightarrow> good q n (entries as) Y (Some False, rl @ [x])"
    using h(4) [OF assms(6,7)] inside_only [OF assms(3,4,6)] by blast
  show "outcome_ok True sinv (good q n (entries as) Y) (go_on rl s')" if "sinv s'" "\<not> may_hit q x" for s'
    using go [OF that(1) assms(5)] that(2) by auto
  show "outcome_ok True sinv (good q n (entries as) Y) (go_on (rl @ [x]) s')"
    if "sinv s'" "may_hit q x" "within n (rl @ [x])" for s'
    using go [OF that(1), of "rl @ [x]"] that(2,3) assms(5-7) by (auto simp: hits_def)
qed

lemma resolve_back_ok:
  assumes t: "mo_map.ordered (inorder t)" "t = objects as" "placed pw as" and q: "pointer_query pw q"
    and "mo_map.at_pos oi i" "it_root oi = t" "i \<le> k" "k \<le> length (inorder t)" "i < fuel" "sinv s"
    and "hits q n (entries as) rl" "set rl \<subseteq> set (drop i (take k (inorder t)))"
    and "found_all q (set (drop i (take k (inorder t)))) rl"
  shows "outcome_ok True sinv (good q n (entries as) (set (take k (inorder t))))
    (resolve_back R S pw expired q n (tree_begin t) fuel oi rl s)"
  using assms(5-)
proof (induction fuel arbitrary: oi i rl s)
  case (Suc fuel)
  note p = Suc.prems
  let ?G = "good q n (entries as) (set (take k (inorder t)))"
  have at_begin: "it_stack oi = it_stack (tree_begin t) \<longleftrightarrow> i = 0"
    using mo_map.at_pos_unique [OF p(1) mo_map.at_pos_begin [of t]] p(2) t(1) by (simp add: tree_begin_def iterator_def)
  show ?case
  proof (cases i)
    case 0
    with at_begin p hits_good(2) [OF p(7), of "set (take k (inorder t))"] show ?thesis by (auto simp: outcome_ok_def)
  next
    case (Suc j)
    let ?oi = "iterator_decr oi" and ?x = "inorder t ! j"
    have j: "mo_map.at_pos ?oi j" "it_root ?oi = t" using mo_map.at_pos_decr [of oi j] p(1,2) t(1) Suc by auto
    have jk: "j < k" "j < length (inorder t)" "j < fuel" "j \<le> k" using p(3-5) Suc by auto
    have x: "iterator_deref ?oi = Some ?x" using mo_map.at_pos_deref [OF j(1)] j(2) jk by simp
    have xin: "?x \<in> entries as" and fx: "fits pw (fst ?x)" using jk t(2,3) by (auto simp: placed_def)
    have dj: "set (drop j (take k (inorder t))) = insert ?x (set (drop i (take k (inorder t))))"
      using Cons_nth_drop_Suc [of j "take k (inorder t)"] jk Suc by (metis list.simps(15) length_take min_less_iff_conj nth_take)
    have dist: "?x \<notin> set rl" using addr_less(4) [OF t(1) jk(2)] p(8) Suc by fastforce
    have tk: "set (take k (inorder t)) = set (take j (inorder t)) \<union> set (drop j (take k (inorder t)))"
      by (metis append_take_drop_id jk(1) less_imp_le min_absorb1 set_append take_take)
    have "outcome_ok True sinv ?G (visit R S pw q n ?x rl (\<lambda>rl. else_return (must_be_above R S pw q (fst ?x)) (Some True, rl)
        (\<lambda>m. if m then answer (None, rl) else resolve_back R S pw expired q n (tree_begin t) fuel ?oi rl)) s)"
    proof (rule visit_good [OF p(6) q t(3) _ p(7) xin dist], use t in blast, rule outcome_else_return)
      fix rl' s' assume s': "sinv s'" and rl': "hits q n (entries as) rl'" "set rl \<subseteq> set rl'" "set rl' \<subseteq> insert ?x (set rl)" "may_hit q ?x \<longrightarrow> ?x \<in> set rl'"
      have inv: "set rl' \<subseteq> set (drop j (take k (inorder t)))" "found_all q (set (drop j (take k (inorder t)))) rl'"
        using rl' p(8,9) dj by (auto simp: found_all_def)
      show "outcome_ok live sinv (\<lambda>b. b = (\<forall>v\<in>feasible q. uint (mo_address (fst ?x)) \<le> v)) (must_be_above R S pw q (fst ?x) s')"
        by (rule resolution_questions(3) [OF s' q fx])
      show "?G (Some True, rl')" by (rule hits_good(1) [OF rl'(1)])
      fix m s'' assume m: "m = (\<forall>v\<in>feasible q. uint (mo_address (fst ?x)) \<le> v)" and s'': "sinv s''"
      have "found_all q (set (take k (inorder t))) rl'" if m
      proof -
        have "\<not> may_hit q y" if "y \<in> set (take j (inorder t))" for y
          using below_base [OF t(3) _ xin addr_less(2) [OF t(1) jk(2) that]] that set_take_subset [of j "inorder t"] m \<open>m\<close> t(2) by blast
        with inv(2) show ?thesis unfolding found_all_def tk by blast
      qed
      moreover have "set rl' \<subseteq> set (take k (inorder t))" using inv(1) tk by blast
      ultimately
      show "outcome_ok True sinv ?G ((if m then answer (None, rl') else resolve_back R S pw expired q n (tree_begin t) fuel ?oi rl') s'')"
        using Suc.IH [OF j jk(4) p(4) jk(3) s'' rl'(1) inv] hits_good(2) [OF rl'(1)] s'' by simp
    qed
    then show ?thesis using at_begin Suc x p(6) hits_good(1) [OF p(7)] by (auto simp: outcome_ok_def)
  qed
qed simp

lemma resolve_forward_ok:
  assumes t: "mo_map.ordered (inorder t)" "t = objects as" "placed pw as" and q: "pointer_query pw q"
    and "mo_map.at_pos oi i" "it_root oi = t" "length (inorder t) - i < fuel" "sinv s"
    and "hits q n (entries as) rl" "set rl \<subseteq> set (take i (inorder t))" "found_all q (set (take i (inorder t))) rl"
  shows "outcome_ok True sinv (good q n (entries as) (entries as))
    (resolve_forward R S pw expired q n (tree_end t) fuel oi rl s)"
  using assms(5-)
proof (induction fuel arbitrary: oi i rl s)
  case (Suc fuel)
  note p = Suc.prems
  let ?G = "good q n (entries as) (entries as)"
  have at_end: "it_stack oi = it_stack (tree_end t) \<longleftrightarrow> i = length (inorder t)"
    using mo_map.at_pos_unique [OF p(1) mo_map.at_pos_end [of t]] p(2) t(1) by (simp add: tree_end_def iterator_def)
  show ?case
  proof (cases "i = length (inorder t)")
    case True
    with at_end p hits_good(2) [OF p(5), of "entries as"] t(2) hits_def show ?thesis by (auto simp: outcome_ok_def)
  next
    case False
    let ?x = "inorder t ! i"
    have i: "i < length (inorder t)" using False p(1,2) by (simp add: mo_map.at_pos_def)
    obtain oi' where oi': "iterator_incr oi = Some oi'" "it_root oi' = it_root oi" "mo_map.at_pos oi' (Suc i)"
      using mo_map.at_pos_incr [OF p(1)] i p(2) t(1) by blast
    have x: "iterator_deref oi = Some ?x" using mo_map.at_pos_deref [OF p(1)] p(2) i by simp
    have xin: "?x \<in> entries as" and fx: "fits pw (fst ?x)" using i t(2,3) by (auto simp: placed_def)
    have ti: "set (take (Suc i) (inorder t)) = insert ?x (set (take i (inorder t)))" using i by (simp add: take_Suc_conv_app_nth)
    have dist: "?x \<notin> set rl" using addr_less(2) [OF t(1) i] p(6) by fastforce
    have "outcome_ok True sinv ?G (else_return (must_be_below R S pw q (fst ?x)) (Some True, rl) (\<lambda>m.
        if m then answer (None, rl)
        else visit R S pw q n ?x rl (\<lambda>rl. and_then (asserted (iterator_incr oi)) (\<lambda>oi.
          resolve_forward R S pw expired q n (tree_end t) fuel oi rl))) s)"
    proof (rule outcome_else_return, rule resolution_questions(4) [OF p(4) q fx], rule hits_good(1) [OF p(5)])
      fix m s' assume m: "m = (\<forall>v\<in>feasible q. v < uint (mo_address (fst ?x)))" and s': "sinv s'"
      have "found_all q (entries as) rl" if m
      proof -
        have "\<not> may_hit q y" if "y \<in> set (drop i (inorder t))" for y
          using above_base [of ?x y q] addr_less(3) [OF t(1) i, of y] that m \<open>m\<close> Cons_nth_drop_Suc [OF i]
          by (metis less_imp_le order_refl set_ConsD)
        moreover have "entries as = set (take i (inorder t)) \<union> set (drop i (inorder t))"
          using t(2) by (metis append_take_drop_id set_append)
        ultimately show ?thesis using p(7) unfolding found_all_def by blast
      qed
      moreover have "outcome_ok True sinv ?G (visit R S pw q n ?x rl (\<lambda>rl. and_then (asserted (iterator_incr oi)) (\<lambda>oi.
          resolve_forward R S pw expired q n (tree_end t) fuel oi rl)) s')"
      proof (rule visit_good [OF s' q t(3) _ p(5) xin dist], use t in blast)
        fix rl' s'' assume s'': "sinv s''" and rl': "hits q n (entries as) rl'" "set rl \<subseteq> set rl'"
          "set rl' \<subseteq> insert ?x (set rl)" "may_hit q ?x \<longrightarrow> ?x \<in> set rl'"
        have "set rl' \<subseteq> set (take (Suc i) (inorder t))" "found_all q (set (take (Suc i) (inorder t))) rl'"
          using rl' p(6,7) ti by (auto simp: found_all_def)
        with Suc.IH [OF oi'(3) _ _ s'' rl'(1)] oi' p(2,3) i
        show "outcome_ok True sinv ?G (and_then (asserted (iterator_incr oi)) (\<lambda>oi.
          resolve_forward R S pw expired q n (tree_end t) fuel oi rl') s'')" by simp
      qed
      ultimately show "outcome_ok True sinv ?G ((if m then answer (None, rl)
        else visit R S pw q n ?x rl (\<lambda>rl. and_then (asserted (iterator_incr oi)) (\<lambda>oi.
          resolve_forward R S pw expired q n (tree_end t) fuel oi rl))) s')"
        using hits_good(2) [OF p(5)] s' p(5) by (simp add: hits_def)
    qed
    then show ?thesis using at_end False x p(4) hits_good(1) [OF p(5)] by (auto simp: outcome_ok_def)
  qed
qed simp

end

section \<open>Constant addresses\<close>

lemma contains_in_object:
  assumes "mo_address mo \<le> a"
  shows "contains mo a \<longleftrightarrow> in_object mo (uint a)"
proof -
  have "uint (a - mo_address mo) = uint a - uint (mo_address mo)" using assms uint_minus_simple_alt by blast
  moreover have "uint (ucast (mo_size mo) :: 64 word) = uint (mo_size mo)"
    using uint_lt2p [of "mo_size mo"] by (simp add: unsigned_ucast_eq take_bit_int_eq_self)
  ultimately have "a - mo_address mo < ucast (mo_size mo) \<longleftrightarrow> uint a - uint (mo_address mo) < uint (mo_size mo)"
    by (simp add: word_less_def)
  then show ?thesis using assms uint_ge_0 [of "mo_size mo"]
    by (auto simp: contains_def in_object_def word_le_def word_uint_eq_iff)
qed

text \<open>The object at or before an address is the only one that can contain it.\<close>

lemma lookup_previous_contains:
  assumes "mo_map.tree_inv (objects as)" and "placed pw as"
  shows "case tree_lookup_previous MemoryObjectLT fst (hack a) (objects as) of
      None \<Rightarrow> \<forall>y\<in>entries as. \<not> in_object (fst y) (uint a)
    | Some x \<Rightarrow> x \<in> entries as \<and> mo_address (fst x) \<le> a \<and> (\<forall>y\<in>entries as. in_object (fst y) (uint a) \<longrightarrow> y = x)"
proof -
  have inv: "in_object (fst y) (uint a) \<Longrightarrow> mo_address (fst y) \<le> a" for y
    by (auto simp: in_object_def word_le_def split: if_splits)
  show ?thesis
  proof (cases "tree_lookup_previous MemoryObjectLT fst (hack a) (objects as)")
    case None
    then have "\<forall>v\<in>entries as. a < mo_address (fst v)"
      using mo_map.lookup_previous_last [OF assms(1), of "hack a"] by (simp add: MemoryObjectLT_def hack_def)
    with None inv show ?thesis by fastforce
  next
    case (Some x)
    then have x: "x \<in> entries as" "mo_address (fst x) \<le> a" "\<forall>w\<in>entries as. mo_address (fst w) \<le> a \<longrightarrow> mo_address (fst w) \<le> mo_address (fst x)"
      using mo_map.lookup_previous_last [OF assms(1), of "hack a"] by (simp_all add: MemoryObjectLT_def hack_def not_less)
    have "y = x" if y: "y \<in> entries as" "in_object (fst y) (uint a)" for y
    proof (rule ccontr)
      assume ne: "y \<noteq> x"
      have le: "mo_address (fst y) \<le> mo_address (fst x)" using x(3) y inv by blast
      moreover have "mo_address (fst y) \<noteq> mo_address (fst x)"
        using same_address [OF _ y(1) x(1)] ne assms(1) by (auto simp: mo_map.tree_inv_def)
      ultimately have "mo_address (fst y) < mo_address (fst x)" by simp
      then have "uint (mo_address (fst y)) + uint (mo_size (fst y)) \<le> uint a" "uint (mo_address (fst y)) < uint a"
        using assms(2) x(1,2) y(1) by (fastforce simp: placed_def word_le_def word_less_def)+
      with y(2) show False by (auto simp: in_object_def split: if_splits)
    qed
    with Some x show ?thesis by auto
  qed
qed

lemma resolveOne_constant_ok:
  assumes "mo_map.tree_inv (objects as)" and "placed pw as" and "ap_wf c" and "getBitWidth c \<le> 64"
  shows "\<exists>res. resolveOne_constant as c = Some res \<and> (case res of
      None \<Rightarrow> \<forall>y\<in>entries as. \<not> in_object (fst y) (apValue c)
    | Some x \<Rightarrow> x \<in> entries as \<and> in_object (fst x) (apValue c) \<and> (\<forall>y\<in>entries as. in_object (fst y) (apValue c) \<longrightarrow> y = x))"
proof -
  obtain a where a: "ConstantExpr_getZExtValue c 64 = Some a" using getZExtValue_narrow [OF assms(3,4,4)] by blast
  with getZExtValue_Some [OF assms(3) a] have v: "apValue c = uint a" by simp
  show ?thesis
  proof (cases "tree_lookup_previous MemoryObjectLT fst (hack a) (objects as)")
    case None
    then show ?thesis using lookup_previous_contains [OF assms(1,2), of a] a v by (simp add: resolveOne_constant_def)
  next
    case (Some x)
    then show ?thesis using lookup_previous_contains [OF assms(1,2), of a] contains_in_object [of "fst x" a] a v
      by (auto simp: resolveOne_constant_def)
  qed
qed

section \<open>The whole resolution\<close>

context solver_contract
begin

lemma example_start:
  assumes "mo_map.ordered (inorder (objects as))" and "ap_wf c" and "getBitWidth c \<le> 64"
  shows "\<exists>a it k. ConstantExpr_getZExtValue c 64 = Some a \<and> tree_upper_bound MemoryObjectLT fst (hack a) (objects as) = Some it
    \<and> it_root it = objects as \<and> mo_map.at_pos it k \<and> k \<le> length (inorder (objects as))"
proof -
  obtain a where a: "ConstantExpr_getZExtValue c 64 = Some a" using getZExtValue_narrow [OF assms(2,3,3)] by blast
  obtain it where it: "tree_upper_bound MemoryObjectLT fst (hack a) (objects as) = Some it" "it_root it = objects as"
    "mo_map.at_pos it (length (mo_map.below (hack a) (inorder (objects as))) + length (mo_map.at (hack a) (inorder (objects as))))"
    using mo_map.at_pos_upper_bound [OF assms(1)] .
  with a show ?thesis unfolding mo_map.at_pos_def by metis
qed

lemma good_end:
  assumes "good q n X Y (stop, rl)" and "stop = None \<Longrightarrow> Y = X"
  shows "good q n X {} (Some (case stop of None \<Rightarrow> False | Some incomplete \<Rightarrow> incomplete), rl)"
  using assms by (cases stop) (simp_all add: good_def)

lemma resolve_search_ok:
  assumes s: "sinv s" and o: "mo_map.ordered (inorder (objects as))" and pl: "placed pw as" and q: "pointer_query pw q"
    and it: "tree_upper_bound MemoryObjectLT fst (hack a) (objects as) = Some it" "it_root it = objects as" "mo_map.at_pos it k"
      "k \<le> length (inorder (objects as))"
  shows "outcome_ok True sinv (\<lambda>(incomplete, rl). good q n (entries as) {} (Some incomplete, rl)) (resolve_search R S pw expired as q n a s)"
proof -
  let ?xs = "inorder (objects as)"
  have n0: "within n []" unfolding within_def by (auto simp: word_le_nat_alt)
  have bk: "outcome_ok True sinv (good q n (entries as) (set (take k ?xs)))
      (resolve_back R S pw expired q n (tree_begin (objects as)) (length ?xs + 1) it [] s)"
    using it n0 s by (intro resolve_back_ok [OF o refl pl q it(3,2)]) (auto simp: hits_def found_all_def)
  show ?thesis unfolding resolve_search_def Let_def it(1) answer_simps
  proof (rule outcome_and_then, rule bk, clarify)
    fix stop rl s' assume g: "good q n (entries as) (set (take k ?xs)) (stop, rl)" and s': "sinv s'"
    show "outcome_ok True sinv (\<lambda>(incomplete, rl). good q n (entries as) {} (Some incomplete, rl))
      ((case stop of Some incomplete \<Rightarrow> answer (incomplete, rl)
         | None \<Rightarrow> and_then (resolve_forward R S pw expired q n (tree_end (objects as)) (length ?xs + 1) it rl)
           (\<lambda>(stop, rl). answer (case stop of None \<Rightarrow> False | Some incomplete \<Rightarrow> incomplete, rl))) s')"
    proof (cases stop)
      case None
      then have h: "hits q n (entries as) rl" "set rl \<subseteq> set (take k ?xs)" "found_all q (set (take k ?xs)) rl"
        using g by (simp_all add: hits_def good_def)
      have "outcome_ok True sinv (good q n (entries as) (entries as)) (resolve_forward R S pw expired q n (tree_end (objects as)) (length ?xs + 1) it rl s')"
        by (rule resolve_forward_ok [OF o refl pl q it(3,2) _ s' h]) simp
      then show ?thesis unfolding None option.case
        by (rule outcome_and_then, clarify, use good_end in simp)
    next
      case (Some b)
      with good_end [of q n "entries as" "set (take k ?xs)" stop rl] g s' show ?thesis by simp
    qed
  qed
qed

lemma resolve_ok:
  assumes s: "sinv s" and inv: "mo_map.tree_inv (objects as)" and pl: "placed pw as" and q: "pointer_query pw q"
  shows "outcome_ok True sinv (\<lambda>(incomplete, rl). good q n (entries as) {} (Some incomplete, rl)) (resolve R S pw expired as q n s)"
proof (cases "dyn_cast_Constant (query_expr q)")
  case (Some c)
  then have c: "query_expr q = ConstantExpr c" by (cases "query_expr q") auto
  then have f: "feasible q = {apValue c}" and w: "ap_wf c" "getBitWidth c \<le> 64"
    using q narrow_width [of "query_expr q"] by (auto simp: feasible_def pointer_query_def query_ok_def)
  obtain res where "resolveOne_constant as c = Some res" "case res of
      None \<Rightarrow> \<forall>y\<in>entries as. \<not> in_object (fst y) (apValue c)
    | Some x \<Rightarrow> x \<in> entries as \<and> in_object (fst x) (apValue c) \<and> (\<forall>y\<in>entries as. in_object (fst y) (apValue c) \<longrightarrow> y = x)"
    using resolveOne_constant_ok [OF inv pl w] by blast
  then show ?thesis using Some s f
    by (cases res) (auto simp: resolve_def good_def found_all_def may_hit_def word_le_nat_alt)
next
  case None
  have o: "mo_map.ordered (inorder (objects as))" using inv by (simp add: mo_map.tree_inv_def)
  have qo: "query_ok q" "getWidth (query_expr q) \<le> 64" using q narrow_width [of "query_expr q"] by (auto simp: pointer_query_def query_ok_def)
  show ?thesis unfolding resolve_def None option.case
  proof (rule outcome_else_return, rule timing_value [OF s qo(1)])
    show "case (True, []) of (incomplete, rl) \<Rightarrow> good q n (entries as) {} (Some incomplete, rl)" by (simp add: good_def)
    fix c s' assume c: "ap_wf c \<and> getBitWidth c = getWidth (query_expr q) \<and> apValue c \<in> feasible q" and s': "sinv s'"
    obtain a it k where it: "ConstantExpr_getZExtValue c 64 = Some a" "tree_upper_bound MemoryObjectLT fst (hack a) (objects as) = Some it"
      "it_root it = objects as" "mo_map.at_pos it k" "k \<le> length (inorder (objects as))" using example_start [OF o, of c] c qo(2) by auto
    show "outcome_ok True sinv (\<lambda>(incomplete, rl). good q n (entries as) {} (Some incomplete, rl))
      (and_then (asserted (ConstantExpr_getZExtValue c 64)) (resolve_search R S pw expired as q n) s')"
      unfolding it(1) answer_simps by (rule resolve_search_ok [OF s' o pl q it(2-5)])
  qed
qed

end

text \<open>The search for one object: until it stops, no object it has passed may contain the pointer.\<close>

definition one_found :: "query \<Rightarrow> object_pair set \<Rightarrow> one_result \<Rightarrow> bool" where
  "one_found q X r \<longleftrightarrow> (case r of
     None \<Rightarrow> True | Some None \<Rightarrow> \<forall>x\<in>X. \<not> may_hit q x | Some (Some x) \<Rightarrow> x \<in> X \<and> may_hit q x)"

definition one_good :: "query \<Rightarrow> object_pair set \<Rightarrow> object_pair set \<Rightarrow> one_result option \<Rightarrow> bool" where
  "one_good q X Y r \<longleftrightarrow> (case r of None \<Rightarrow> \<forall>x\<in>Y. \<not> may_hit q x | Some r \<Rightarrow> one_found q X r)"

context solver_contract
begin

lemma one_visit:
  assumes s: "sinv s" and q: "pointer_query pw q" and x: "fits pw (fst x)" "x \<in> X"
    and go: "\<And>s'. sinv s' \<Longrightarrow> \<not> may_hit q x \<Longrightarrow> outcome_ok True sinv (one_good q X Y) (go_on s')"
  shows "outcome_ok True sinv (one_good q X Y) (else_return (may_be_in R S pw q (fst x)) (Some None) (\<lambda>b.
    if b then answer (Some (Some (Some x))) else go_on) s)"
proof (rule outcome_else_return, rule resolution_questions(1) [OF s q x(1), folded may_hit_def])
  show "one_good q X Y (Some None)" by (simp add: one_good_def one_found_def)
  show "outcome_ok True sinv (one_good q X Y) ((if b then answer (Some (Some (Some x))) else go_on) s')"
    if "b = may_hit q x" "sinv s'" for b s'
    using that go x(2) by (simp add: one_good_def one_found_def)
qed

lemma resolveOne_back_ok:
  assumes t: "mo_map.ordered (inorder t)" "t = objects as" "placed pw as" and q: "pointer_query pw q"
    and "mo_map.at_pos oi i" "it_root oi = t" "i \<le> k" "k \<le> length (inorder t)" "i < fuel" "sinv s"
    and "\<forall>x\<in>set (drop i (take k (inorder t))). \<not> may_hit q x"
  shows "outcome_ok True sinv (one_good q (entries as) (set (take k (inorder t))))
    (resolveOne_back R S pw q (tree_begin t) fuel oi s)"
  using assms(5-)
proof (induction fuel arbitrary: oi i s)
  case (Suc fuel)
  note p = Suc.prems
  let ?G = "one_good q (entries as) (set (take k (inorder t)))"
  have at_begin: "it_stack oi = it_stack (tree_begin t) \<longleftrightarrow> i = 0"
    using mo_map.at_pos_unique [OF p(1) mo_map.at_pos_begin [of t]] p(2) t(1) by (simp add: tree_begin_def iterator_def)
  show ?case
  proof (cases i)
    case 0
    with at_begin p show ?thesis by (auto simp: outcome_ok_def one_good_def)
  next
    case (Suc j)
    let ?oi = "iterator_decr oi" and ?x = "inorder t ! j"
    have j: "mo_map.at_pos ?oi j" "it_root ?oi = t" using mo_map.at_pos_decr [of oi j] p(1,2) t(1) Suc by auto
    have jk: "j < k" "j < length (inorder t)" "j < fuel" "j \<le> k" using p(3-5) Suc by auto
    have x: "iterator_deref ?oi = Some ?x" using mo_map.at_pos_deref [OF j(1)] j(2) jk by simp
    have xin: "?x \<in> entries as" and fx: "fits pw (fst ?x)" using jk t(2,3) by (auto simp: placed_def)
    have dj: "set (drop j (take k (inorder t))) = insert ?x (set (drop i (take k (inorder t))))"
      using Cons_nth_drop_Suc [of j "take k (inorder t)"] jk Suc by (metis list.simps(15) length_take min_less_iff_conj nth_take)
    have tk: "set (take k (inorder t)) = set (take j (inorder t)) \<union> set (drop j (take k (inorder t)))"
      by (metis append_take_drop_id jk(1) less_imp_le min_absorb1 set_append take_take)
    have "outcome_ok True sinv ?G (else_return (must_be_above R S pw q (fst ?x)) (Some None) (\<lambda>m.
        if m then answer None else resolveOne_back R S pw q (tree_begin t) fuel ?oi) s')" if nx: "\<not> may_hit q ?x" and s': "sinv s'" for s'
    proof (rule outcome_else_return, rule resolution_questions(3) [OF s' q fx])
      have nj: "\<forall>x\<in>set (drop j (take k (inorder t))). \<not> may_hit q x" using p(7) nx unfolding dj by simp
      show "?G (Some None)" by (simp add: one_good_def one_found_def)
      fix m s'' assume m: "m = (\<forall>v\<in>feasible q. uint (mo_address (fst ?x)) \<le> v)" and s'': "sinv s''"
      have "\<not> may_hit q y" if "y \<in> set (take j (inorder t))" m for y
        using below_base [OF t(3) _ xin addr_less(2) [OF t(1) jk(2) that(1)]] that set_take_subset [of j "inorder t"] m t(2) by blast
      then have "?G None" if m unfolding one_good_def option.case tk using nj that by blast
      with Suc.IH [OF j jk(4) p(4) jk(3) s'' nj] s''
      show "outcome_ok True sinv ?G ((if m then answer None else resolveOne_back R S pw q (tree_begin t) fuel ?oi) s'')" by simp
    qed
    then have "outcome_ok True sinv ?G (else_return (may_be_in R S pw q (fst ?x)) (Some None) (\<lambda>b.
        if b then answer (Some (Some (Some ?x))) else else_return (must_be_above R S pw q (fst ?x)) (Some None) (\<lambda>m.
          if m then answer None else resolveOne_back R S pw q (tree_begin t) fuel ?oi)) s)"
      by (intro one_visit [OF p(6) q fx xin])
    then show ?thesis using at_begin Suc x by simp
  qed
qed simp

lemma resolveOne_forward_ok:
  assumes t: "mo_map.ordered (inorder t)" "t = objects as" "placed pw as" and q: "pointer_query pw q"
    and "mo_map.at_pos oi i" "it_root oi = t" "length (inorder t) - i < fuel" "sinv s"
    and "\<forall>x\<in>set (take i (inorder t)). \<not> may_hit q x"
  shows "outcome_ok True sinv (one_good q (entries as) (entries as)) (resolveOne_forward R S pw q (tree_end t) fuel oi s)"
  using assms(5-)
proof (induction fuel arbitrary: oi i s)
  case (Suc fuel)
  note p = Suc.prems
  let ?G = "one_good q (entries as) (entries as)"
  have at_end: "it_stack oi = it_stack (tree_end t) \<longleftrightarrow> i = length (inorder t)"
    using mo_map.at_pos_unique [OF p(1) mo_map.at_pos_end [of t]] p(2) t(1) by (simp add: tree_end_def iterator_def)
  show ?case
  proof (cases "i = length (inorder t)")
    case True
    with at_end p t(2) show ?thesis by (auto simp: outcome_ok_def one_good_def)
  next
    case False
    let ?x = "inorder t ! i"
    have i: "i < length (inorder t)" using False p(1,2) by (simp add: mo_map.at_pos_def)
    obtain oi' where oi': "iterator_incr oi = Some oi'" "it_root oi' = it_root oi" "mo_map.at_pos oi' (Suc i)"
      using mo_map.at_pos_incr [OF p(1)] i p(2) t(1) by blast
    have x: "iterator_deref oi = Some ?x" using mo_map.at_pos_deref [OF p(1)] p(2) i by simp
    have xin: "?x \<in> entries as" and fx: "fits pw (fst ?x)" using i t(2,3) by (auto simp: placed_def)
    have ti: "set (take (Suc i) (inorder t)) = insert ?x (set (take i (inorder t)))" using i by (simp add: take_Suc_conv_app_nth)
    have go: "outcome_ok True sinv ?G (and_then (asserted (iterator_incr oi)) (resolveOne_forward R S pw q (tree_end t) fuel) s')"
      if "sinv s'" "\<not> may_hit q ?x" for s'
      using Suc.IH [OF oi'(3) _ _ that(1)] oi' p(2,3,5) i ti that(2) by simp
    have "outcome_ok True sinv ?G (else_return (must_be_below R S pw q (fst ?x)) (Some None) (\<lambda>m. if m then answer None
        else else_return (may_be_in R S pw q (fst ?x)) (Some None) (\<lambda>b. if b then answer (Some (Some (Some ?x)))
          else and_then (asserted (iterator_incr oi)) (resolveOne_forward R S pw q (tree_end t) fuel))) s)"
    proof (rule outcome_else_return, rule resolution_questions(4) [OF p(4) q fx])
      show "?G (Some None)" by (simp add: one_good_def one_found_def)
      fix m s' assume m: "m = (\<forall>v\<in>feasible q. v < uint (mo_address (fst ?x)))" and s': "sinv s'"
      have "?G None" if m
      proof -
        have "\<not> may_hit q y" if "y \<in> set (drop i (inorder t))" for y
          using above_base [of ?x y q] addr_less(3) [OF t(1) i, of y] that m \<open>m\<close> Cons_nth_drop_Suc [OF i]
          by (metis less_imp_le order_refl set_ConsD)
        moreover have "entries as = set (take i (inorder t)) \<union> set (drop i (inorder t))"
          using t(2) by (metis append_take_drop_id set_append)
        ultimately show ?thesis using p(5) unfolding one_good_def by auto
      qed
      with one_visit [OF s' q fx xin go] s'
      show "outcome_ok True sinv ?G ((if m then answer None
        else else_return (may_be_in R S pw q (fst ?x)) (Some None) (\<lambda>b. if b then answer (Some (Some (Some ?x)))
          else and_then (asserted (iterator_incr oi)) (resolveOne_forward R S pw q (tree_end t) fuel))) s')" by simp
    qed
    then show ?thesis using at_end False x by simp
  qed
qed simp

lemma resolveOne_search_ok:
  assumes s: "sinv s" and o: "mo_map.ordered (inorder (objects as))" and pl: "placed pw as" and q: "pointer_query pw q"
    and it: "tree_upper_bound MemoryObjectLT fst (hack a) (objects as) = Some it" "it_root it = objects as" "mo_map.at_pos it k"
      "k \<le> length (inorder (objects as))"
  shows "outcome_ok True sinv (one_found q (entries as)) (resolveOne_search R S pw as q a s)"
  unfolding resolveOne_search_def Let_def it(1) answer_simps
proof (rule outcome_and_then)
  let ?xs = "inorder (objects as)"
  show "outcome_ok True sinv (one_good q (entries as) (set (take k ?xs)))
      (resolveOne_back R S pw q (tree_begin (objects as)) (length ?xs + 1) it s)"
    using it s by (intro resolveOne_back_ok [OF o refl pl q it(3,2)]) auto
  fix r s' assume g: "one_good q (entries as) (set (take k ?xs)) r" and s': "sinv s'"
  show "outcome_ok True sinv (one_found q (entries as)) ((case r of Some r \<Rightarrow> answer r
      | None \<Rightarrow> and_then (resolveOne_forward R S pw q (tree_end (objects as)) (length ?xs + 1) it)
          (\<lambda>f. answer (case f of Some r \<Rightarrow> r | None \<Rightarrow> Some None))) s')"
  proof (cases r)
    case None
    then have "outcome_ok True sinv (one_good q (entries as) (entries as)) (resolveOne_forward R S pw q (tree_end (objects as)) (length ?xs + 1) it s')"
      using g by (intro resolveOne_forward_ok [OF o refl pl q it(3,2) _ s']) (simp_all add: one_good_def)
    then show ?thesis unfolding None option.case
      by (rule outcome_and_then) (auto simp: one_good_def one_found_def split: option.splits)
  qed (use g s' in \<open>simp add: one_good_def\<close>)
qed

lemma resolveOne_ok:
  assumes s: "sinv s" and inv: "mo_map.tree_inv (objects as)" and pl: "placed pw as" and q: "pointer_query pw q"
  shows "outcome_ok True sinv (one_found q (entries as)) (resolveOne R S pw as q s)"
proof (cases "dyn_cast_Constant (query_expr q)")
  case (Some c)
  then have c: "query_expr q = ConstantExpr c" by (cases "query_expr q") auto
  then have f: "feasible q = {apValue c}" and w: "ap_wf c" "getBitWidth c \<le> 64"
    using q narrow_width [of "query_expr q"] by (auto simp: feasible_def pointer_query_def query_ok_def)
  obtain res where "resolveOne_constant as c = Some res" "case res of
      None \<Rightarrow> \<forall>y\<in>entries as. \<not> in_object (fst y) (apValue c)
    | Some x \<Rightarrow> x \<in> entries as \<and> in_object (fst x) (apValue c) \<and> (\<forall>y\<in>entries as. in_object (fst y) (apValue c) \<longrightarrow> y = x)"
    using resolveOne_constant_ok [OF inv pl w] by blast
  then show ?thesis using Some s f by (cases res) (auto simp: resolveOne_def one_found_def may_hit_def)
next
  case None
  have o: "mo_map.ordered (inorder (objects as))" using inv by (simp add: mo_map.tree_inv_def)
  have qo: "query_ok q" "getWidth (query_expr q) \<le> 64" using q narrow_width [of "query_expr q"] by (auto simp: pointer_query_def query_ok_def)
  show ?thesis unfolding resolveOne_def None option.case
  proof (rule outcome_else_return, rule timing_value [OF s qo(1)])
    show "one_found q (entries as) None" by (simp add: one_found_def)
    fix c s' assume c: "ap_wf c \<and> getBitWidth c = getWidth (query_expr q) \<and> apValue c \<in> feasible q" and s': "sinv s'"
    obtain a it k where it: "ConstantExpr_getZExtValue c 64 = Some a" "tree_upper_bound MemoryObjectLT fst (hack a) (objects as) = Some it"
      "it_root it = objects as" "mo_map.at_pos it k" "k \<le> length (inorder (objects as))" using example_start [OF o, of c] c qo(2) by auto
    have v: "apValue c = uint a" using getZExtValue_Some [of c 64 a] c it(1) by simp
    note search = resolveOne_search_ok [OF s' o pl q it(2-5)]
    have "outcome_ok True sinv (one_found q (entries as)) ((case tree_lookup_previous MemoryObjectLT fst (hack a) (objects as) of
          None \<Rightarrow> resolveOne_search R S pw as q a
        | Some res \<Rightarrow> if a - mo_address (fst res) < ucast (mo_size (fst res)) then answer (Some (Some res)) else resolveOne_search R S pw as q a) s')"
    proof (cases "tree_lookup_previous MemoryObjectLT fst (hack a) (objects as)")
      case (Some x)
      then have x: "x \<in> entries as" "mo_address (fst x) \<le> a" using lookup_previous_contains [OF inv pl, of a] by auto
      have "may_hit q x" if "a - mo_address (fst x) < ucast (mo_size (fst x))"
        using that contains_in_object [OF x(2)] c v by (auto simp: may_hit_def contains_def)
      with Some x search s' show ?thesis by (simp add: one_found_def)
    qed (use search in simp)
    then show "outcome_ok True sinv (one_found q (entries as)) (and_then (asserted (ConstantExpr_getZExtValue c 64)) (\<lambda>example.
        case tree_lookup_previous MemoryObjectLT fst (hack example) (objects as) of
          Some res \<Rightarrow> if example - mo_address (fst res) < ucast (mo_size (fst res)) then answer (Some (Some res)) else resolveOne_search R S pw as q example
        | None \<Rightarrow> resolveOne_search R S pw as q example) s')"
      unfolding it(1) answer_simps .
  qed
qed

end

section \<open>A solver with values\<close>

text \<open>The specification as a solver that also knows one value, zero, of the expressions that can be zero.\<close>

definition zero_solver :: "'s solver_impl" where
  "zero_solver = ideal_solver\<lparr>computeValue := (\<lambda>q s.
     (if 0 \<in> feasible q then Answer (ConstantExpr (APInt (getWidth (query_expr q)) 0)) else Fail, s))\<rparr>"

lemma zero_solver_contract: "klee_rt_laws R \<Longrightarrow> solver_contract R (zero_solver :: 's solver_impl) I live"
  by (intro solver_contract.intro solver_contract_axioms.intro)
    (auto simp: zero_solver_def ideal_solver_def outcome_ok_def value_ok_def query_ok_def ap_wf_def)

interpretation zero: solver_contract klee_rt_ref "zero_solver :: unit solver_impl" "\<lambda>_. True" True
  by (rule zero_solver_contract [OF klee_rt_ref_laws])

text \<open>Two objects, and a pointer that is an input byte extended to the address width.\<close>

definition object_at :: "64 word \<Rightarrow> memory_object" where
  "object_at a = \<lparr>mo_id = 0, mo_address = a, mo_size = 16, isUserSpecified = False\<rparr>"

definition two_objects :: address_space where
  "two_objects = \<lparr>cowKey = 1, objects = Node (Node Terminator (object_at 0, 1) 1 Terminator) (object_at 64, 2) 2 Terminator,
     owner_state = None\<rparr>"

definition byte_pointer :: query where
  "byte_pointer = \<lparr>cm_root = 0, constraints = [], query_expr = ZExtExpr (input_byte 0) 32\<rparr>"

lemma two_objects_ok: "mo_map.tree_inv (objects two_objects)" "placed 32 two_objects"
  "entries two_objects = {(object_at 0, 1), (object_at 64, 2)}"
  by (simp_all add: two_objects_def mo_map.tree_inv_def mo_ordered object_at_def placed_def fits_def)

lemma byte_pointer_ok: "pointer_query 32 byte_pointer"
  by (simp add: byte_pointer_def pointer_query_def query_ok_def query_safe_def sat_def)

lemma byte_pointer_feasible: "feasible byte_pointer = {0..<256}"
  using input_byte_values by (simp add: feasible_def sat_def byte_pointer_def)

lemma byte_pointer_hits:
  "may_hit byte_pointer (object_at 0, 1)" "may_hit byte_pointer (object_at 64, 2)"
  by (auto simp: may_hit_def byte_pointer_feasible in_object_def object_at_def intro: bexI [of _ 0] bexI [of _ 64])

section \<open>Properties\<close>

text \<open>
  C4. The resolution of a pointer is sound and complete. In an address space whose objects do not
  overlap, with a solver that meets its contract, \<^verbatim>\<open>AddressSpace::resolve\<close> ends without running into an
  assertion; it lists, each once, only objects that contain some value the pointer can take under the
  constraints, and when it reports the list as complete every such object is in it. A limit of two
  or more objects is kept.
\<close>

theorem resolve_complete:
  assumes "solver_contract R S I live" and "I s" and "mo_map.tree_inv (objects as)" and "placed pw as" and "pointer_query pw q"
  shows "\<exists>incomplete rl s'. resolve R S pw expired as q n s = (Answer (incomplete, rl), s') \<and> I s' \<and> distinct rl
    \<and> (\<forall>x\<in>set rl. x \<in> entries as \<and> (\<exists>v\<in>feasible q. in_object (fst x) v))
    \<and> (\<not> incomplete \<longrightarrow> (\<forall>x\<in>entries as. (\<exists>v\<in>feasible q. in_object (fst x) v) \<longrightarrow> x \<in> set rl))
    \<and> (2 \<le> n \<longrightarrow> length rl \<le> unat n)"
proof -
  obtain incomplete rl s' where r: "resolve R S pw expired as q n s = (Answer (incomplete, rl), s')" "I s'"
    "good q n (entries as) {} (Some incomplete, rl)"
    using outcome_live [OF solver_contract.resolve_ok [OF assms, where n = n and expired = expired]] by auto
  from r(3) have "distinct rl" "\<forall>x\<in>set rl. x \<in> entries as \<and> may_hit q x" "\<not> incomplete \<longrightarrow> found_all q (entries as) rl"
    "2 \<le> n \<longrightarrow> length rl \<le> unat n" by (auto simp add: good_def)
  with r(1,2) show ?thesis unfolding may_hit_def found_all_def by blast
qed

theorem resolve_complete_witness:
  "\<exists>incomplete rl s'. resolve klee_rt_ref zero_solver 32 (\<lambda>_. False) two_objects byte_pointer 0 () = (Answer (incomplete, rl), s')
    \<and> distinct rl \<and> set rl \<subseteq> {(object_at 0, 1), (object_at 64, 2)}
    \<and> (\<not> incomplete \<longrightarrow> (object_at 0, 1) \<in> set rl \<and> (object_at 64, 2) \<in> set rl)"
proof -
  note r = resolve_complete [OF zero.solver_contract_axioms TrueI two_objects_ok(1,2) byte_pointer_ok,
      where s = "()" and expired = "\<lambda>_. False" and n = 0, unfolded two_objects_ok(3)]
  then show ?thesis using byte_pointer_hits unfolding may_hit_def by blast
qed

text \<open>
  C17. Finding one object for a pointer is right: the first form of \<^verbatim>\<open>AddressSpace::resolveOne\<close>, for a
  constant, finds the object that contains the address, the only one, if there is one. The second, for
  an expression, ends without running into an assertion; an object it returns contains some value
  the pointer can take, and when it reports that there is none, no object contains such a value.
\<close>

theorem resolveOne_correct:
  assumes "solver_contract R S I live" and "I s" and "mo_map.tree_inv (objects as)" and "placed pw as"
    and "pointer_query pw q" and "ap_wf c" and "getBitWidth c \<le> 64"
  shows "(\<exists>res. resolveOne_constant as c = Some res \<and> (case res of
        None \<Rightarrow> \<forall>y\<in>entries as. \<not> in_object (fst y) (apValue c)
      | Some x \<Rightarrow> x \<in> entries as \<and> in_object (fst x) (apValue c) \<and> (\<forall>y\<in>entries as. in_object (fst y) (apValue c) \<longrightarrow> y = x)))
    \<and> (\<exists>r s'. resolveOne R S pw as q s = (Answer r, s') \<and> I s' \<and> (case r of
        None \<Rightarrow> True
      | Some None \<Rightarrow> \<forall>x\<in>entries as. \<forall>v\<in>feasible q. \<not> in_object (fst x) v
      | Some (Some x) \<Rightarrow> x \<in> entries as \<and> (\<exists>v\<in>feasible q. in_object (fst x) v)))"
proof
  obtain r s' where r: "resolveOne R S pw as q s = (Answer r, s')" "I s'" "one_found q (entries as) r"
    using outcome_live [OF solver_contract.resolveOne_ok [OF assms(1-5)]] by auto
  then show "\<exists>r s'. resolveOne R S pw as q s = (Answer r, s') \<and> I s' \<and> (case r of
        None \<Rightarrow> True
      | Some None \<Rightarrow> \<forall>x\<in>entries as. \<forall>v\<in>feasible q. \<not> in_object (fst x) v
      | Some (Some x) \<Rightarrow> x \<in> entries as \<and> (\<exists>v\<in>feasible q. in_object (fst x) v))"
    by (intro exI [of _ r] exI [of _ s']) (auto simp: one_found_def may_hit_def split: option.splits)
qed (rule resolveOne_constant_ok [OF assms(3,4,6,7)])

theorem resolveOne_correct_witness:
  "resolveOne_constant two_objects (APInt 32 70) = Some (Some (object_at 64, 2))
    \<and> (\<exists>r s'. resolveOne klee_rt_ref zero_solver 32 two_objects byte_pointer () = (Answer r, s') \<and> r \<noteq> Some None)"
proof -
  have c: "ap_wf (APInt 32 70)" "getBitWidth (APInt 32 70) \<le> 64" by (simp_all add: ap_wf_def bv_def)
  note r = resolveOne_correct [OF zero.solver_contract_axioms TrueI two_objects_ok(1,2) byte_pointer_ok c, where s = "()",
      unfolded two_objects_ok(3)]
  have "in_object (object_at 64) 70" "\<not> in_object (object_at 0) 70" by (simp_all add: in_object_def object_at_def)
  then have "resolveOne_constant two_objects (APInt 32 70) = Some (Some (object_at 64, 2))"
    using conjunct1 [OF r] by (auto split: option.splits)
  moreover have "\<not> (\<forall>x\<in>{(object_at 0, 1), (object_at 64, 2 :: nat)}. \<forall>v\<in>feasible byte_pointer. \<not> in_object (fst x) v)"
    using byte_pointer_hits unfolding may_hit_def by blast
  then have "\<exists>r s'. resolveOne klee_rt_ref zero_solver 32 two_objects byte_pointer () = (Answer r, s') \<and> r \<noteq> Some None"
    using conjunct2 [OF r] by auto
  ultimately show ?thesis by simp
qed

text \<open>The answers about the two objects.\<close>

lemma two_objects_answers:
  "a \<in> {0, 64} \<Longrightarrow> may_be_in klee_rt_ref zero_solver 32 byte_pointer (object_at a) () = (Answer True, ())"
  "a \<in> {0, 64} \<Longrightarrow> must_be_in klee_rt_ref zero_solver 32 byte_pointer (object_at a) () = (Answer False, ())"
  "must_be_above klee_rt_ref zero_solver 32 byte_pointer (object_at 0) () = (Answer True, ())"
  "must_be_below klee_rt_ref zero_solver 32 byte_pointer (object_at 64) () = (Answer False, ())"
proof -
  have f: "fits 32 (object_at a)" if "a \<in> {0, 64}" for a using that by (auto simp: fits_def object_at_def)
  note q = zero.resolution_questions [OF TrueI byte_pointer_ok f, THEN outcome_live]
  show "a \<in> {0, 64} \<Longrightarrow> may_be_in klee_rt_ref zero_solver 32 byte_pointer (object_at a) () = (Answer True, ())"
    using q(1) [of a "()"] byte_pointer_hits by (auto simp: may_hit_def)
  have "255 \<in> feasible byte_pointer" by (simp add: byte_pointer_feasible)
  then show "a \<in> {0, 64} \<Longrightarrow> must_be_in klee_rt_ref zero_solver 32 byte_pointer (object_at a) () = (Answer False, ())"
    using q(2) [of a "()"] by (auto simp: in_object_def object_at_def intro!: bexI [of _ 255])
  show "must_be_above klee_rt_ref zero_solver 32 byte_pointer (object_at 0) () = (Answer True, ())"
    using q(3) [of 0 "()"] by (auto simp: object_at_def byte_pointer_feasible)
  have "255 \<in> feasible byte_pointer" by (simp add: byte_pointer_feasible)
  then show "must_be_below klee_rt_ref zero_solver 32 byte_pointer (object_at 64) () = (Answer False, ())"
    using q(4) [of 64 "()"] by (auto simp: object_at_def intro!: bexI [of _ 255])
qed

text \<open>
  C33. A limit of one object is not kept. The list reaches length one without being compared with the
  limit, and later lengths differ from it: asked for at most one object for a pointer that may be in
  two, \<^verbatim>\<open>resolve\<close> returns both and reports the list as complete, where the documentation of
  \<^verbatim>\<open>maxResolutions\<close> promises no more pairs than asked for.
\<close>

theorem resolve_limit_of_one:
  "resolve klee_rt_ref zero_solver 32 (\<lambda>_. False) two_objects byte_pointer 1 () =
     (Answer (False, [(object_at 0, 1), (object_at 64, 2)]), ())"
proof -
  have v: "Timing_getValue zero_solver byte_pointer () = (Answer (APInt 32 0), ())"
    using byte_pointer_feasible
    by (simp add: Timing_getValue_def Solver_getValue_def zero_solver_def byte_pointer_def answer_def and_then_def asserted_def)
  have n: "dyn_cast_Constant (query_expr byte_pointer) = None" by (simp add: byte_pointer_def)
  have z: "ConstantExpr_getZExtValue (APInt 32 0) 64 = Some 0" by (simp add: ConstantExpr_getZExtValue_def ap_getZExtValue_def)
  let ?t = "Node (Node Terminator (object_at 0, 1 :: nat) 1 Terminator) (object_at 64, 2) 2 Terminator"
  have t: "objects two_objects = ?t" by (simp add: two_objects_def)
  have up: "tree_upper_bound MemoryObjectLT fst (hack 0) ?t = Some \<lparr>it_root = ?t, it_stack = [?t]\<rparr>"
    by (simp add: tree_upper_bound_def tree_lower_bound_def iterator_deref_def iterator_incr_def MemoryObjectLT_def hack_def object_at_def)
  show ?thesis
    using two_objects_answers(1,2) [of 0] two_objects_answers(1,2) [of 64] two_objects_answers(3,4) up
    by (simp add: resolve_def n v z t resolve_search_def else_return_def and_then_def asserted_def answer_def Let_def visit_def
      tree_begin_def tree_end_def iterator_def iterator_decr_def iterator_deref_def iterator_incr_def)
qed

end
