(* ===== verification/BitfieldSimplifier.thy ===== *)
theory BitfieldSimplifier
  imports ExprMake
begin

unbundle bit_operations_syntax

text \<open>
  The simplification of expressions by what is known of their bits
  (\<^verbatim>\<open>src/klee/lib/Expr/BitfieldSimplifier.cpp\<close>): bits known to be one or zero are passed up, bits that the
  context ignores are passed down. The analysis is an abstract interpretation of expressions of at
  most 64 bits, for which no shift of the code is undefined.
\<close>

section \<open>The analysis\<close>

record bits_info =
  ignoredBits :: "64 word"
  knownOneBits :: "64 word"
  knownZeroBits :: "64 word"

definition zeroMask :: "nat \<Rightarrow> 64 word" where
  "zeroMask w = (if w < 64 then push_bit w (- 1) else 0)"

text \<open>The caches, keyed by the structure of an expression; \<^verbatim>\<open>insert\<close> keeps an existing entry.\<close>

type_synonym bits_cache = "expr \<Rightarrow> bits_info option"

definition cache_insert :: "expr \<Rightarrow> bits_info \<Rightarrow> bits_cache \<Rightarrow> bits_cache" where
  "cache_insert e b c = (case c e of None \<Rightarrow> c(e \<mapsto> b) | Some _ \<Rightarrow> c)"

fun cache_erase :: "expr list \<Rightarrow> bits_cache \<Rightarrow> bits_cache" where
  "cache_erase [] c = c"
| "cache_erase (e # es) c = cache_erase es (c(e := None))"

definition replaceWithConstant :: "klee_rt \<Rightarrow> expr \<Rightarrow> 64 word \<Rightarrow> bits_cache \<Rightarrow> (expr \<times> bits_cache) option" where
  "replaceWithConstant R e value c =
     do { same \<leftarrow> (case dyn_cast_Constant e of
                     Some ce \<Rightarrow> do { v \<leftarrow> ConstantExpr_getZExtValue ce 64; Some (v = value) }
                   | None \<Rightarrow> Some False);
          if same then Some (e, c)
          else do { k \<leftarrow> ConstantExpr_create R (value AND NOT (zeroMask (getWidth e))) (getWidth e);
                    Some (ConstantExpr k, cache_erase (kids e @ [e]) c) } }"

text \<open>
  The bits of an expression from the bits of its kids, and the bits of the kids that can be ignored,
  by its kind. For \<^verbatim>\<open>And\<close> (\<^verbatim>\<open>Or\<close>) a kid whose bits are all one (zero) or ignored counts as known.
\<close>

definition known :: "bits_info \<Rightarrow> 64 word \<Rightarrow> 64 word \<Rightarrow> bits_info" where
  "known b one zero = b\<lparr>knownOneBits := one, knownZeroBits := zero\<rparr>"

definition and_kid :: "bits_info \<Rightarrow> bits_info" where
  "and_kid b = (if NOT (knownOneBits b OR ignoredBits b) = 0 then known b (- 1) 0 else b)"

definition or_kid :: "bits_info \<Rightarrow> bits_info" where
  "or_kid b = (if NOT (knownZeroBits b OR ignoredBits b) = 0 then known b 0 (- 1) else b)"

definition ignoring :: "64 word \<Rightarrow> bits_info \<Rightarrow> bits_info" where
  "ignoring i b = b\<lparr>ignoredBits := i\<rparr>"

definition shift_bits ::
  "klee_rt \<Rightarrow> bkind \<Rightarrow> nat \<Rightarrow> expr list \<Rightarrow> 64 word \<Rightarrow> bits_info list \<Rightarrow> (bits_info \<times> bits_info list) option" where
  "shift_bits R k width ks ign bs =
     (let rbits = \<lparr>ignoredBits = ign, knownOneBits = 0, knownZeroBits = 0\<rparr>; b0 = bs ! 0; b1 = bs ! 1 in
      case dyn_cast_Constant (ks ! 1) of
        Some c1 \<Rightarrow>
          do { s \<leftarrow> ConstantExpr_getZExtValue c1 64;
               require (width = getWidth (ks ! 0));
               let shift = unat s in
               if shift < width then
                 (if k = Shl then
                    Some (known rbits (push_bit shift (knownOneBits b0) AND NOT (zeroMask width))
                            (push_bit shift (knownZeroBits b0) OR zeroMask width OR NOT (zeroMask shift)),
                          [ignoring (drop_bit shift (ign AND NOT (zeroMask width)) OR zeroMask (width - shift)) b0, b1])
                  else
                    Some (known rbits (drop_bit shift (knownOneBits b0))
                            (drop_bit shift (knownZeroBits b0) OR zeroMask (width - shift)),
                          [ignoring (push_bit shift ign OR NOT (zeroMask shift) OR zeroMask width) b0, b1]))
               else Some (known rbits 0 (- 1), [ignoring (- 1) b0, b1]) }
      | None \<Rightarrow> Some (known rbits 0 (zeroMask width), bs))"

fun kind_bits ::
  "klee_rt \<Rightarrow> expr \<Rightarrow> expr list \<Rightarrow> 64 word \<Rightarrow> bits_info list \<Rightarrow> (bits_info \<times> bits_info list) option" where
  "kind_bits R (BinaryExpr k l r) ks ign bs =
     (let e = BinaryExpr k l r; rbits = \<lparr>ignoredBits = ign, knownOneBits = 0, knownZeroBits = 0\<rparr>; b0 = bs ! 0; b1 = bs ! 1 in
      case k of
        And \<Rightarrow>
          Some (known rbits (knownOneBits b0 AND knownOneBits b1) (knownZeroBits b0 OR knownZeroBits b1),
                [and_kid (ignoring (ign OR knownZeroBits b1) b0),
                 and_kid (ignoring (ign OR (knownZeroBits b0 AND NOT (knownZeroBits b1))) b1)])
      | Or \<Rightarrow>
          Some (known rbits (knownOneBits b0 OR knownOneBits b1) (knownZeroBits b0 AND knownZeroBits b1),
                [or_kid (ignoring (ign OR knownOneBits b1) b0),
                 or_kid (ignoring (ign OR (knownOneBits b0 AND NOT (knownOneBits b1))) b1)])
      | Xor \<Rightarrow>
          Some (known rbits
                  ((knownZeroBits b0 AND knownOneBits b1) OR (knownOneBits b0 AND knownZeroBits b1))
                  ((knownOneBits b0 AND knownOneBits b1) OR (knownZeroBits b0 AND knownZeroBits b1)),
                [ignoring ign b0, ignoring ign b1])
      | Shl \<Rightarrow> shift_bits R Shl (getWidth e) ks ign bs
      | LShr \<Rightarrow> shift_bits R LShr (getWidth e) ks ign bs
      | _ \<Rightarrow> Some (known rbits 0 (zeroMask (getWidth e)), bs))"
| "kind_bits R (NotExpr e) ks ign bs =
     (let rbits = \<lparr>ignoredBits = ign, knownOneBits = 0, knownZeroBits = 0\<rparr>; b0 = bs ! 0; w = getWidth (NotExpr e) in
      Some (known rbits (knownZeroBits b0 AND NOT (zeroMask w)) (knownOneBits b0 OR zeroMask w), [ignoring ign b0]))"
| "kind_bits R (ExtractExpr e offset width) ks ign bs =
     (let rbits = \<lparr>ignoredBits = ign, knownOneBits = 0, knownZeroBits = 0\<rparr>; b0 = bs ! 0; mask' = zeroMask width in
      Some (known rbits (drop_bit offset (knownOneBits b0) AND NOT mask') (drop_bit offset (knownZeroBits b0) OR mask'),
            [ignoring (push_bit offset ign OR NOT (push_bit offset (NOT mask'))) b0]))"
| "kind_bits R (ConcatExpr l r) ks ign bs =
     (let rbits = \<lparr>ignoredBits = ign, knownOneBits = 0, knownZeroBits = 0\<rparr>; b0 = bs ! 0; b1 = bs ! 1;
          shift = getWidth (ks ! 1) in
      Some (known rbits (push_bit shift (knownOneBits b0) OR knownOneBits b1)
              (push_bit shift (knownZeroBits b0) OR (knownZeroBits b1 AND NOT (zeroMask (getWidth (ks ! 1))))),
            [ignoring (drop_bit shift ign OR zeroMask (getWidth (ks ! 0))) b0,
             ignoring (ign OR zeroMask (getWidth (ks ! 1))) b1]))"
| "kind_bits R (SelectExpr c t f) ks ign bs =
     (let rbits = \<lparr>ignoredBits = ign, knownOneBits = 0, knownZeroBits = 0\<rparr>; b1 = bs ! 1; b2 = bs ! 2 in
      Some (known rbits (knownOneBits b1 AND knownOneBits b2)
              ((knownZeroBits b1 AND knownZeroBits b2) OR zeroMask (getWidth (SelectExpr c t f))),
            [bs ! 0, ignoring ign b1, ignoring ign b2]))"
| "kind_bits R (CastExpr ZExt e w) ks ign bs =
     (let rbits = \<lparr>ignoredBits = ign, knownOneBits = 0, knownZeroBits = 0\<rparr>; b0 = bs ! 0 in
      Some (known rbits (knownOneBits b0) (knownZeroBits b0), [ignoring ign b0]))"
| "kind_bits R (CastExpr SExt e w) ks ign bs =
     (let rbits = \<lparr>ignoredBits = ign, knownOneBits = 0, knownZeroBits = 0\<rparr>; b0 = bs ! 0;
          kw = getWidth (ks ! 0); mask' = zeroMask kw AND NOT (zeroMask w); sign = push_bit (kw - 1) 1 in
      Some (if knownOneBits b0 AND sign \<noteq> 0 then
              known rbits (knownOneBits b0 OR mask') (knownZeroBits b0 AND NOT mask')
            else if knownZeroBits b0 AND sign \<noteq> 0 then
              known rbits (knownOneBits b0) (knownZeroBits b0 OR mask')
            else known rbits (knownOneBits b0) (knownZeroBits b0 AND NOT mask'),
            [ignoring (if mask' AND NOT ign \<noteq> 0 then ign AND NOT sign else ign) b0]))"
| "kind_bits R (ConstantExpr c) ks ign bs =
     do { v \<leftarrow> ConstantExpr_getZExtValue c 64;
          Some (\<lparr>ignoredBits = ign, knownOneBits = v, knownZeroBits = NOT v\<rparr>, bs) }"
| "kind_bits R e ks ign bs =
     Some (\<lparr>ignoredBits = ign, knownOneBits = 0, knownZeroBits = zeroMask (getWidth e)\<rparr>, bs)"

section \<open>The simplification\<close>

text \<open>The loop over the kids that obtains their bits, and the one that replaces or reoptimises them.\<close>

type_synonym simplify_fun = "expr \<Rightarrow> 64 word \<Rightarrow> bits_cache \<Rightarrow> ((expr \<times> bits_info) \<times> bits_cache) option"

fun visit_kids :: "simplify_fun \<Rightarrow> expr list \<Rightarrow> bits_cache \<Rightarrow> ((expr \<times> bits_info) list \<times> bits_cache) option" where
  "visit_kids f [] c = Some ([], c)"
| "visit_kids f (k # ks) c =
     do { (r, c) \<leftarrow> f k 0 c; (rs, c) \<leftarrow> visit_kids f ks c; Some (r # rs, c) }"

fun revisit_kids ::
  "klee_rt \<Rightarrow> simplify_fun \<Rightarrow> (expr \<times> bits_info \<times> 64 word) list \<Rightarrow> bits_cache \<Rightarrow> (expr list \<times> bits_cache) option" where
  "revisit_kids R f [] c = Some ([], c)"
| "revisit_kids R f ((k, b, old) # ks) c =
     do { (k', c) \<leftarrow>
            (if NOT (knownOneBits b OR knownZeroBits b OR ignoredBits b) = 0
             then replaceWithConstant R k (knownOneBits b) c
             else if ignoredBits b AND NOT old \<noteq> 0
             then do { (r, c) \<leftarrow> f k (ignoredBits b) c; Some (fst r, c) }
             else Some (k, c));
          (ks', c) \<leftarrow> revisit_kids R f ks c;
          Some (k' # ks', c) }"

primrec doSimplifyBits :: "nat \<Rightarrow> klee_rt \<Rightarrow> simplify_fun" where
  "doSimplifyBits 0 R = (\<lambda>e ign c. None)"
| "doSimplifyBits (Suc fuel) R = (\<lambda>e ign c.
     case c e of
       Some b \<Rightarrow> Some ((e, b), c)
     | None \<Rightarrow>
       do { (rs, c) \<leftarrow> visit_kids (doSimplifyBits fuel R) (kids e) c;
            (rbits, bs) \<leftarrow> kind_bits R e (map fst rs) ign (map snd rs);
            let one = knownOneBits rbits;
            let zero = knownZeroBits rbits;
            let w = getWidth e;
            require (one AND zero = 0);
            require (one AND zeroMask w = 0);
            require (zero AND zeroMask w = zeroMask w);
            (e', c) \<leftarrow>
              (if \<not> is_constant e \<and> NOT (one OR zero OR ign) = 0 then replaceWithConstant R e one c
               else do { (ks, c) \<leftarrow> revisit_kids R (doSimplifyBits fuel R)
                                     (zip (map fst rs) (zip bs (map (ignoredBits \<circ> snd) rs))) c;
                         e' \<leftarrow> (if ks \<noteq> kids e then rebuild R e ks else Some e);
                         Some (e', c) });
            Some ((e', rbits), if 1 < length (kids e') then cache_insert e' rbits c else c) })"

text \<open>The public function with its own cache; it returns the known zero and one bits with the expression.\<close>

record simplifier =
  m_bitsInfoCache :: bits_cache
  m_simplifiedExpressions :: "expr \<Rightarrow> (expr \<times> bits_info) option"

definition simplify :: "nat \<Rightarrow> klee_rt \<Rightarrow> expr \<Rightarrow> simplifier \<Rightarrow> ((expr \<times> bits_info option) \<times> simplifier) option" where
  "simplify fuel R e s =
     (if is_constant e then Some ((e, None), s)
      else case m_simplifiedExpressions s e of
        Some r \<Rightarrow> Some ((fst r, Some (snd r)), s)
      | None \<Rightarrow>
          do { (r, c) \<leftarrow> doSimplifyBits fuel R e 0 (m_bitsInfoCache s);
               Some ((fst r, Some (snd r)),
                 s\<lparr>m_bitsInfoCache := c, m_simplifiedExpressions := (m_simplifiedExpressions s)(e \<mapsto> r)\<rparr>) })"

section \<open>What the bits mean\<close>

text \<open>
  The known bits of a node are right when the value of the node has them, and when every bit above its
  width is a known zero. Two values agree outside the ignored bits of a node; the kids of a node may be
  exchanged for kids with that relation, which \<^term>\<open>with_kids\<close> does.
\<close>

definition known_ok :: "width \<Rightarrow> int \<Rightarrow> bits_info \<Rightarrow> bool" where
  "known_ok w v b \<longleftrightarrow>
     (\<forall>j<64. (bit (knownOneBits b) j \<longrightarrow> bit v j) \<and> (bit (knownZeroBits b) j \<longrightarrow> \<not> bit v j)
        \<and> (w \<le> j \<longrightarrow> bit (knownZeroBits b) j))"

abbreviation bits_ok :: "assignment \<Rightarrow> expr \<Rightarrow> bits_info \<Rightarrow> bool" where
  "bits_ok \<sigma> e \<equiv> known_ok (getWidth e) (eval \<sigma> e)"

definition kids_known :: "assignment \<Rightarrow> expr \<Rightarrow> expr list \<Rightarrow> bits_info list \<Rightarrow> bool" where
  "kids_known \<sigma> e ks bs \<longleftrightarrow> kids_like e ks \<and> map (eval \<sigma>) ks = map (eval \<sigma>) (kids e) \<and> list_all2 (bits_ok \<sigma>) ks bs"

definition agree_outside :: "64 word \<Rightarrow> int \<Rightarrow> int \<Rightarrow> bool" where
  "agree_outside ign v u \<longleftrightarrow> (\<forall>j<64. bit ign j \<or> bit v j = bit u j)"

fun with_kids :: "expr \<Rightarrow> expr list \<Rightarrow> expr" where
  "with_kids (NotOptimizedExpr _) [e] = NotOptimizedExpr e"
| "with_kids (ReadExpr a u _) [i] = ReadExpr a u i"
| "with_kids (SelectExpr _ _ _) [c, t, f] = SelectExpr c t f"
| "with_kids (ConcatExpr _ _) [l, r] = ConcatExpr l r"
| "with_kids (ExtractExpr _ off w) [e] = ExtractExpr e off w"
| "with_kids (NotExpr _) [e] = NotExpr e"
| "with_kids (CastExpr k _ w) [e] = CastExpr k e w"
| "with_kids (BinaryExpr k _ _) [l, r] = BinaryExpr k l r"
| "with_kids e _ = e"

definition kids_agree :: "assignment \<Rightarrow> bits_info list \<Rightarrow> expr list \<Rightarrow> expr list \<Rightarrow> bool" where
  "kids_agree \<sigma> bs ks ks' \<longleftrightarrow>
     (\<forall>i<length ks. agree_outside (ignoredBits (bs ! i)) (eval \<sigma> (ks ! i)) (eval \<sigma> (ks' ! i)))"

definition known_outside :: "int \<Rightarrow> bits_info \<Rightarrow> bool" where
  "known_outside v b \<longleftrightarrow>
     (\<forall>j<64. bit (ignoredBits b) j \<or> ((bit (knownOneBits b) j \<longrightarrow> bit v j) \<and> (bit (knownZeroBits b) j \<longrightarrow> \<not> bit v j)))"

section \<open>Bits of words\<close>

lemma bit_zeroMask: "bit (zeroMask w) j \<longleftrightarrow> w \<le> j \<and> j < 64"
  by (auto simp: zeroMask_def bit_not_iff bit_mask_iff)

lemma word64_eq_iff: "(x :: 64 word) = y \<longleftrightarrow> (\<forall>j<64. bit x j = bit y j)"
  by (auto simp: bit_eq_iff)

lemma word64_bit: "bit (x :: 64 word) j \<Longrightarrow> j < 64"
  by (auto dest: bit_imp_le_length)

lemmas word64_bits = bit_and_iff bit_or_iff bit_xor_iff bit_not_iff bit_push_bit_iff bit_drop_bit_eq bit_zeroMask
  bit_take_bit_iff bit_0_eq

section \<open>The known bits are right\<close>

lemma known_simps [simp]:
  "knownOneBits (known b x y) = x" "knownZeroBits (known b x y) = y" "ignoredBits (known b x y) = ignoredBits b"
  "knownOneBits (ignoring i b) = knownOneBits b" "knownZeroBits (ignoring i b) = knownZeroBits b"
  "ignoredBits (ignoring i b) = i"
  by (simp_all add: known_def ignoring_def)

lemma known_ok_unknown: "bv w v \<Longrightarrow> knownOneBits b = 0 \<Longrightarrow> knownZeroBits b = zeroMask w \<Longrightarrow> known_ok w v b"
  using bv_bitD [of w v] by (fastforce simp: known_ok_def bit_zeroMask)

lemma known_ok_asserts:
  assumes "known_ok w v b"
  shows "knownOneBits b AND knownZeroBits b = 0" "knownOneBits b AND zeroMask w = 0"
    "knownZeroBits b AND zeroMask w = zeroMask w"
  using assms by (auto simp: known_ok_def word64_eq_iff word64_bits)

lemma known_okD:
  "known_ok w v b \<Longrightarrow> bit (knownOneBits b) j \<Longrightarrow> bit v j"
  "known_ok w v b \<Longrightarrow> bit (knownZeroBits b) j \<Longrightarrow> \<not> bit v j"
  "known_ok w v b \<Longrightarrow> w \<le> j \<Longrightarrow> j < 64 \<Longrightarrow> bit (knownZeroBits b) j"
  using word64_bit by (auto simp: known_ok_def)

lemma known_shl:
  assumes "known_ok w v b" "n < w" "w \<le> 64"
  shows "known_ok w (take_bit w (push_bit n v)) (known r (push_bit n (knownOneBits b) AND NOT (zeroMask w))
     (push_bit n (knownZeroBits b) OR zeroMask w OR NOT (zeroMask n)))"
  using known_okD [OF assms(1)] assms(2,3) unfolding known_ok_def by (auto simp: word64_bits)

lemma known_lshr:
  assumes "known_ok w v b" "bv w v" "n < w" "w \<le> 64"
  shows "known_ok w (drop_bit n v) (known r (drop_bit n (knownOneBits b)) (drop_bit n (knownZeroBits b) OR zeroMask (w - n)))"
  using known_okD [OF assms(1)] assms(3,4) bv_bitD [OF assms(2)]  unfolding known_ok_def by (fastforce simp: word64_bits)

lemma known_extract:
  assumes "known_ok v a b" "off + w \<le> v"
  shows "known_ok w (take_bit w (drop_bit off a)) (known r (drop_bit off (knownOneBits b) AND NOT (zeroMask w)) 
     (drop_bit off (knownZeroBits b) OR zeroMask w))"
  using known_okD [OF assms(1)] assms(2) unfolding known_ok_def by (auto simp: word64_bits)

lemma known_concat:
  assumes "known_ok v a b" "known_ok w a' b'" "v + w \<le> 64" "bv w a'"
  shows "known_ok (v + w) (push_bit w a OR a') (known r (push_bit w (knownOneBits b) OR knownOneBits b')
     (push_bit w (knownZeroBits b) OR (knownZeroBits b' AND NOT (zeroMask w))))"
  using known_okD [OF assms(1)] known_okD [OF assms(2)] bv_bitD [OF assms(4)] assms(3) unfolding known_ok_def by (fastforce simp: word64_bits)

lemma known_not:
  assumes "known_ok w v b" "w \<le> 64"
  shows "known_ok w (take_bit w (NOT v)) (known r (knownZeroBits b AND NOT (zeroMask w)) (knownOneBits b OR zeroMask w))"
  using known_okD [OF assms(1)] assms(2) unfolding known_ok_def by (auto simp: word64_bits)

lemma sbv_bit: "0 < v \<Longrightarrow> bit (sbv v a) j \<longleftrightarrow> (if v \<le> j then bit a (v - 1) else bit a j)"
  by (cases "v \<le> j") (auto simp: sbv_def bit_signed_take_bit_iff min_absorb1 min_absorb2)

lemma known_sext:
  assumes "known_ok v a b" "0 < v" "v \<le> w" "w \<le> 64" "mask' = zeroMask v AND NOT (zeroMask w)" "sign = push_bit (v - 1) 1"
  shows "known_ok w (take_bit w (sbv v a))
    (if knownOneBits b AND sign \<noteq> 0 then known r (knownOneBits b OR mask') (knownZeroBits b AND NOT mask')
     else if knownZeroBits b AND sign \<noteq> 0 then known r (knownOneBits b) (knownZeroBits b OR mask')
     else known r (knownOneBits b) (knownZeroBits b AND NOT mask'))"
proof -
  have s: "x AND sign \<noteq> 0 \<longleftrightarrow> bit x (v - 1)" for x
    using assms(2-4) unfolding assms(6) word64_eq_iff by (auto simp: word64_bits bit_exp_iff)
  show ?thesis unfolding s
  using known_okD [OF assms(1)] assms(2-4) unfolding known_ok_def assms(5)
    by (auto simp: word64_bits sbv_bit)
qed

lemma known_binary:
  assumes "known_ok w v b" "known_ok w v' b'"
  shows "known_ok w (v AND v') (known r (knownOneBits b AND knownOneBits b') (knownZeroBits b OR knownZeroBits b'))"
    "known_ok w (v OR v') (known r (knownOneBits b OR knownOneBits b') (knownZeroBits b AND knownZeroBits b'))"
    "known_ok w (v XOR v') (known r
       ((knownZeroBits b AND knownOneBits b') OR (knownOneBits b AND knownZeroBits b'))
       ((knownOneBits b AND knownOneBits b') OR (knownZeroBits b AND knownZeroBits b')))"
    "known_ok w (if c then v else v') (known r (knownOneBits b AND knownOneBits b')
       ((knownZeroBits b AND knownZeroBits b') OR zeroMask w))"
  using known_okD [OF assms(1)] known_okD [OF assms(2)] unfolding known_ok_def by (auto simp: word64_bits)

lemma known_shift:
  assumes "k \<in> {Shl, LShr}" "wt l'" "wt r'" "narrow l'" "narrow r'" "getWidth l' = w" "getWidth r' = w"
    "known_ok w (eval \<sigma> l') b0"
  shows "\<exists>rbits bs'. shift_bits R k w [l', r'] ign [b0, b1] = Some (rbits, bs')
    \<and> known_ok w (eval_binary k w (eval \<sigma> l') (eval \<sigma> r')) rbits"
proof (cases "\<exists>c. r' = ConstantExpr c")
  case True
  then obtain c where c: "r' = ConstantExpr c" by blast
  with assms obtain v where v: "ConstantExpr_getZExtValue c 64 = Some v" "uint v = apValue c"
    using getZExtValue_narrow [of c 64] getZExtValue_Some(2) [of c 64] by auto
  define n where "n = unat v"
  have r: "apValue c = int n" using c v(2) by (simp add: n_def)
  have w: "w \<le> 64" "bv w (eval \<sigma> l')" using narrow_width [OF assms(4)] eval_bv [OF assms(2), of \<sigma>] assms(6) by auto
  show ?thesis
  proof (cases "n < w")
    case True
    then show ?thesis using assms(1) known_shl [OF assms(8) True w(1)] known_lshr [OF assms(8) w(2) True w(1)]
      by (auto simp: shift_bits_def Let_def c v(1) n_def [symmetric] assms(6) r)
  next
    case False
    then show ?thesis using assms(1)
      by (auto simp: shift_bits_def Let_def c v(1) n_def [symmetric] assms(6) r known_ok_def)
  qed
next
  case False
  then have "dyn_cast_Constant r' = None" by (cases r') auto
  moreover have "bv w (eval_binary k w (eval \<sigma> l') (eval \<sigma> r'))"
    using assms eval_binary_bv [of w "eval \<sigma> l'" "eval \<sigma> r'" k] eval_bv [OF assms(2), of \<sigma>] eval_bv [OF assms(3), of \<sigma>] by auto
  ultimately show ?thesis by (auto simp: shift_bits_def Let_def intro!: known_ok_unknown)
qed

lemma known_unknown_kind:
  assumes "wt e"
  shows "bits_ok \<sigma> e \<lparr>ignoredBits = ign, knownOneBits = 0, knownZeroBits = zeroMask (getWidth e)\<rparr>"
    "bits_ok \<sigma> e (known b 0 (zeroMask (getWidth e)))"
  using assms by (auto intro!: known_ok_unknown eval_bv)

lemmas kids_known_defs = kids_known_def kids_like_def list_all2_Cons1 list_all2_Cons2

lemma binary_bits_sound:
  assumes "wt (BinaryExpr k l r)" "narrow (BinaryExpr k l r)" "kids_known \<sigma> (BinaryExpr k l r) ks bs"
  shows "\<exists>rbits bs'. kind_bits R (BinaryExpr k l r) ks ign bs = Some (rbits, bs') \<and> bits_ok \<sigma> (BinaryExpr k l r) rbits"
proof -
  from assms(3) obtain l' r' b0 b1 where k: "ks = [l', r']" "bs = [b0, b1]" 
    and l: "wt l'" "narrow l'" "getWidth l' = getWidth l" "eval \<sigma> l' = eval \<sigma> l" "known_ok (getWidth l) (eval \<sigma> l) b0"
    and r: "wt r'" "narrow r'" "getWidth r' = getWidth l" "eval \<sigma> r' = eval \<sigma> r" "known_ok (getWidth l) (eval \<sigma> r) b1"
    using assms(1) by (auto simp: kids_known_defs)
  show ?thesis
  proof (cases "k \<in> {Shl, LShr}")
    case True
    from known_shift [OF True l(1) r(1) l(2) r(2) l(3) r(3), of \<sigma> b0 R ign b1, unfolded l(4) r(4), OF l(5)] True k
    show ?thesis by (auto simp: Let_def simp del: eval_binary.simps)
  next
    case False
    then show ?thesis using known_binary [OF l(5) r(5)] known_unknown_kind(2) [OF assms(1), of \<sigma>] k
      by (cases k) simp_all
  qed
qed

lemma kind_bits_sound:
  assumes "wt e" "narrow e" "kids_known \<sigma> e ks bs"
  shows "\<exists>rbits bs'. kind_bits R e ks ign bs = Some (rbits, bs') \<and> bits_ok \<sigma> e rbits"
proof (cases e)
  case (ConstantExpr c)
  then obtain v where v: "ConstantExpr_getZExtValue c 64 = Some v" "uint v = apValue c"
    using assms getZExtValue_narrow [of c 64] getZExtValue_Some(2) [of c 64] by auto
  have "known_ok (getBitWidth c) (uint v) \<lparr>ignoredBits = ign, knownOneBits = v, knownZeroBits = NOT v\<rparr>"
    using bv_bitD [of "getBitWidth c" "uint v"] ap_wf_bv [of c] assms(1) ConstantExpr v(2) [symmetric]
    by (force simp: known_ok_def bit_not_iff bit_uint_iff)
  with v ConstantExpr show ?thesis by simp
next
  case (NotOptimizedExpr x)
  with known_unknown_kind [OF assms(1), of \<sigma>] show ?thesis by simp
next
  case (ReadExpr a u i)
  with known_unknown_kind [OF assms(1), of \<sigma>] show ?thesis by simp
next
  case (SelectExpr c t f)
  with assms known_binary(4) [of "getWidth t" "eval \<sigma> t" _ "eval \<sigma> f" _ "eval \<sigma> c \<noteq> 0"]
  show ?thesis by (auto simp: kids_known_defs Let_def split del: if_split)
next
  case (ConcatExpr l r)
  with assms known_concat [of "getWidth l" "eval \<sigma> l" _ "getWidth r" "eval \<sigma> r"] eval_bv [of r \<sigma>] 
  show ?thesis by (auto simp: kids_known_defs Let_def)
next
  case (ExtractExpr x off w)
  with assms known_extract [of "getWidth x" "eval \<sigma> x" _ off w] show ?thesis by (auto simp: kids_known_defs Let_def)
next
  case (NotExpr x)
  with assms known_not [of "getWidth x" "eval \<sigma> x"] narrow_width [of x] show ?thesis by (auto simp: kids_known_defs Let_def)
next
  case (CastExpr k x w)
  with assms(3) obtain x' b where x: "ks = [x']" "bs = [b]" "getWidth x' = getWidth x" "known_ok (getWidth x) (eval \<sigma> x) b"
    by (auto simp: kids_known_defs)
  have w: "0 < getWidth x" "getWidth x \<le> w" "w \<le> 64" "bv (getWidth x) (eval \<sigma> x)" using assms CastExpr eval_bv [of x \<sigma>] by auto
  have "known_ok w (take_bit w (eval \<sigma> x)) (known r (knownOneBits b) (knownZeroBits b))" for r
    using x(4) w(2) take_bit_bv [OF bv_mono [OF w(4,2)]] by (auto simp: known_ok_def)
  with known_sext [OF x(4) w(1-3) refl refl, of "\<lparr>ignoredBits = ign, knownOneBits = 0, knownZeroBits = 0\<rparr>"]
  show ?thesis using CastExpr x by (cases k) (simp_all add: Let_def split del: if_split cong: if_cong)
next
  case (BinaryExpr k l r)
  with binary_bits_sound assms show ?thesis by blast
qed

section \<open>The ignored bits do not matter\<close>

lemma agree_outsideD: "agree_outside ign v u \<Longrightarrow> j < 64 \<Longrightarrow> \<not> bit ign j \<Longrightarrow> bit v j = bit u j"
  by (auto simp: agree_outside_def)

lemma agree_outsideI: "(\<And>j. j < 64 \<Longrightarrow> \<not> bit ign j \<Longrightarrow> bit v j = bit u j) \<Longrightarrow> agree_outside ign v u"
  by (auto simp: agree_outside_def)

lemma agree_outside_refl [simp]: "agree_outside ign v v"
  by (simp add: agree_outside_def)

lemma agree_outside_0: "bv w v \<Longrightarrow> bv w u \<Longrightarrow> w \<le> 64 \<Longrightarrow> agree_outside 0 v u \<longleftrightarrow> v = u"
  using bv_bitD [of w v] bv_bitD [of w u] by (force simp: agree_outside_def intro!: bit_eqI)

lemma ignored_and:
  assumes "known_ok w v b" "known_ok w v' b'" "agree_outside (ign OR knownZeroBits b') v u"
    "agree_outside (ign OR (knownZeroBits b AND NOT (knownZeroBits b'))) v' u'"
  shows "agree_outside ign (v AND v') (u AND u')"
  using known_okD(2) [OF assms(1)] known_okD(2) [OF assms(2)] agree_outsideD [OF assms(3)] agree_outsideD [OF assms(4)]
  by (intro agree_outsideI) (simp add: word64_bits, blast)

lemma ignored_or:
  assumes "known_ok w v b" "known_ok w v' b'" "agree_outside (ign OR knownOneBits b') v u"
    "agree_outside (ign OR (knownOneBits b AND NOT (knownOneBits b'))) v' u'"
  shows "agree_outside ign (v OR v') (u OR u')"
  using known_okD(1) [OF assms(1)] known_okD(1) [OF assms(2)] agree_outsideD [OF assms(3)] agree_outsideD [OF assms(4)]
  by (intro agree_outsideI) (simp add: word64_bits, blast)

lemma ignored_xor: "agree_outside ign v u \<Longrightarrow> agree_outside ign v' u' \<Longrightarrow> agree_outside ign (v XOR v') (u XOR u')"
  by (auto simp: agree_outside_def word64_bits)

lemma ignored_not: "agree_outside ign v u \<Longrightarrow> agree_outside ign (take_bit w (NOT v)) (take_bit w (NOT u))"
  by (auto simp: agree_outside_def word64_bits)

lemma ignored_zext: "agree_outside ign v u \<Longrightarrow> agree_outside ign (take_bit w v) (take_bit w u)"
  by (auto simp: agree_outside_def word64_bits)

lemma ignored_shl:
  assumes "agree_outside (drop_bit n (ign AND NOT (zeroMask w)) OR zeroMask (w - n)) v u" "n < w" "w \<le> 64"
  shows "agree_outside ign (take_bit w (push_bit n v)) (take_bit w (push_bit n u))"
proof (rule agree_outsideI)
  fix j assume j: "j < (64 :: nat)" "\<not> bit ign j"
  show "bit (take_bit w (push_bit n v)) j = bit (take_bit w (push_bit n u)) j"
    using agree_outsideD [OF assms(1), of "j - n"] assms(2,3) j by (auto simp: word64_bits)
qed

lemma ignored_lshr:
  assumes "agree_outside (push_bit n ign OR NOT (zeroMask n) OR zeroMask w) v u" "n < w" "w \<le> 64" "bv w v" "bv w u"
  shows "agree_outside ign (drop_bit n v) (drop_bit n u)"
proof (rule agree_outsideI)
  fix j assume j: "j < (64 :: nat)" "\<not> bit ign j"
  show "bit (drop_bit n v) j = bit (drop_bit n u) j"
    using agree_outsideD [OF assms(1), of "n + j"] assms(2,3) j bv_bitD [OF assms(4), of "n + j"] bv_bitD [OF assms(5), of "n + j"]
    by (cases "n + j < w") (auto simp: word64_bits)
qed

lemma ignored_extract:
  assumes "agree_outside (push_bit off ign OR NOT (push_bit off (NOT (zeroMask w)))) v u" "off + w \<le> 64"
  shows "agree_outside ign (take_bit w (drop_bit off v)) (take_bit w (drop_bit off u))"
proof (rule agree_outsideI)
  fix j assume j: "j < (64 :: nat)" "\<not> bit ign j"
  show "bit (take_bit w (drop_bit off v)) j = bit (take_bit w (drop_bit off u)) j"
    using agree_outsideD [OF assms(1), of "off + j"] assms(2) j by (auto simp: word64_bits)
qed

lemma ignored_concat:
  assumes "agree_outside (drop_bit w ign OR zeroMask v) a c" "agree_outside (ign OR zeroMask w) a' c'"
    "bv v a" "bv v c" "bv w a'" "bv w c'" "v + w \<le> 64"
  shows "agree_outside ign (push_bit w a OR a') (push_bit w c OR c')"
proof (rule agree_outsideI)
  fix j assume j: "j < (64 :: nat)" "\<not> bit ign j"
  show "bit (push_bit w a OR a') j = bit (push_bit w c OR c') j"
    using agree_outsideD [OF assms(1), of "j - w"] agree_outsideD [OF assms(2), of j] j assms(7)
      bv_bitD [OF assms(3), of "j - w"] bv_bitD [OF assms(4), of "j - w"] bv_bitD [OF assms(5), of j] bv_bitD [OF assms(6), of j]
    by (cases "w \<le> j"; cases "j - w < v") (auto simp: word64_bits)
qed

lemma ignored_sext:
  assumes "mask' = zeroMask v AND NOT (zeroMask w)" "sign = push_bit (v - 1) 1" "0 < v" "v \<le> w" "w \<le> 64"
    "agree_outside (if mask' AND NOT ign \<noteq> 0 then ign AND NOT sign else ign) a c"
  shows "agree_outside ign (take_bit w (sbv v a)) (take_bit w (sbv v c))"
proof (rule agree_outsideI)
  fix j assume j: "j < (64 :: nat)" "\<not> bit ign j"
  show "bit (take_bit w (sbv v a)) j = bit (take_bit w (sbv v c)) j"
  proof (cases "v \<le> j \<and> j < w")
    case True
    then have m: "mask' AND NOT ign \<noteq> 0" using j assms(1,5) by (auto simp: word64_eq_iff word64_bits intro!: exI [of _ j])
    have "\<not> bit (ign AND NOT sign) (v - 1)" using assms(2-5) by (simp add: word64_bits bit_exp_iff)
    with m agree_outsideD [OF assms(6), of "v - 1"] assms(3-5) have "bit a (v - 1) = bit c (v - 1)" by simp
    with True assms(3) show ?thesis by (simp add: sbv_bit bit_take_bit_iff)
  next
    case False
    with j agree_outsideD [OF assms(6), of j] assms(3-5) show ?thesis
      by (auto simp: sbv_bit word64_bits split: if_splits)
  qed
qed

lemma and_or_kid_ignored [simp]: "ignoredBits (and_kid b) = ignoredBits b" "ignoredBits (or_kid b) = ignoredBits b"
  by (simp_all add: and_kid_def or_kid_def)

lemma all_less_simps: "(\<forall>i<Suc n. P i) \<longleftrightarrow> P 0 \<and> (\<forall>i<n. P (Suc i))"
  by (auto simp: less_Suc_eq_0_disj)

lemma ignored_shift:
  assumes "k \<in> {Shl, LShr}" "wt l" "wt r" "narrow l" "narrow r" "getWidth l = w" "getWidth r = w"
    "wt l'" "wt r'" "narrow l'" "narrow r'" "getWidth l' = w" "getWidth r' = w"
    "ignoredBits b0 = 0" "ignoredBits b1 = 0"
    "shift_bits R k w [l, r] ign [b0, b1] = Some (rbits, bs')" "kids_agree \<sigma> bs' [l, r] [l', r']"
  shows "agree_outside ign (eval_binary k w (eval \<sigma> l) (eval \<sigma> r)) (eval_binary k w (eval \<sigma> l') (eval \<sigma> r'))"
proof -
  have bvs: "bv w (eval \<sigma> l)" "bv w (eval \<sigma> r)" "bv w (eval \<sigma> l')" "bv w (eval \<sigma> r')" "w \<le> 64"
    using eval_bv [OF assms(2), of \<sigma>] eval_bv [OF assms(3), of \<sigma>] eval_bv [OF assms(8), of \<sigma>] eval_bv [OF assms(9), of \<sigma>]
      narrow_width [OF assms(4)] assms(6,7,12,13) by simp_all
  have "ignoredBits (bs' ! 1) = 0" using assms(14-16)
    by (auto simp: shift_bits_def Let_def option_bind_simps split: option.splits if_splits)
  with assms(17) bvs have r: "eval \<sigma> r' = eval \<sigma> r" by (simp add: kids_agree_def all_less_simps agree_outside_0)
  show ?thesis
  proof (cases "\<exists>c. r = ConstantExpr c")
    case True
    then obtain c where c: "r = ConstantExpr c" by blast
    with assms(3,5) obtain v where v: "ConstantExpr_getZExtValue c 64 = Some v" "uint v = apValue c"
      using getZExtValue_narrow [of c 64] getZExtValue_Some(2) [of c 64] by auto
    define n where "n = unat v"
    have n: "eval \<sigma> r = int n" using c v(2) by (simp add: n_def)
    show ?thesis
    proof (cases "n < w")
      case True
      with assms(1,6,16,17) have "agree_outside (if k = Shl then drop_bit n (ign AND NOT (zeroMask w)) OR zeroMask (w - n)
          else push_bit n ign OR NOT (zeroMask n) OR zeroMask w) (eval \<sigma> l) (eval \<sigma> l')"
        by (auto simp: shift_bits_def Let_def c v(1) n_def [symmetric] kids_agree_def all_less_simps split: if_splits)
      with True assms(1) ignored_shl [of n ign w] ignored_lshr [of n ign w] bvs show ?thesis
        by (auto simp: r n)
    next
      case False
      with assms(1) show ?thesis by (auto simp: r n)
    qed
  next
    case False
    then have "dyn_cast_Constant r = None" by (cases r) auto
    with assms(14-17) have "agree_outside 0 (eval \<sigma> l) (eval \<sigma> l')"
      by (auto simp: shift_bits_def Let_def kids_agree_def all_less_simps)
    with bvs r show ?thesis by (simp add: agree_outside_0)
  qed
qed

lemma binary_bits_ignored:
  assumes "wt (BinaryExpr k l r)" "narrow (BinaryExpr k l r)" "kids_known \<sigma> (BinaryExpr k l r) ks bs" "\<forall>b \<in> set bs. ignoredBits b = 0"
    "kind_bits R (BinaryExpr k l r) ks ign bs = Some (rbits, bs')" "kids_like (BinaryExpr k l r) ks'" "kids_agree \<sigma> bs' ks ks'"
  shows "agree_outside ign (eval \<sigma> (BinaryExpr k l r)) (eval \<sigma> (with_kids (BinaryExpr k l r) ks'))"
proof -
  from assms(3) obtain l' r' b0 b1 where k: "ks = [l', r']" "bs = [b0, b1]"
    and l: "wt l'" "narrow l'" "getWidth l' = getWidth l" "eval \<sigma> l' = eval \<sigma> l" "known_ok (getWidth l) (eval \<sigma> l) b0"
    and r: "wt r'" "narrow r'" "getWidth r' = getWidth l" "eval \<sigma> r' = eval \<sigma> r" "known_ok (getWidth l) (eval \<sigma> r) b1"
    using assms(1) by (auto simp: kids_known_defs)
  from assms(6) obtain x y where xy: "ks' = [x, y]" "wt x" "narrow x" "getWidth x = getWidth l" "wt y" "narrow y" "getWidth y = getWidth l"
    using assms(1) by (auto simp: kids_like_def list_all2_Cons1)
  have b: "ignoredBits b0 = 0" "ignoredBits b1 = 0" using assms(4) k by auto
  consider "k \<in> {Shl, LShr}" | "k \<in> {And, Or, Xor}" | "k \<notin> {Shl, LShr, And, Or, Xor}" by blast
  then show ?thesis
  proof cases
    case 1
    then have "shift_bits R k (getWidth l) [l', r'] ign [b0, b1] = Some (rbits, bs')" using assms(5) k by auto
    from ignored_shift [OF 1 l(1) r(1) l(2) r(2) l(3) r(3) xy(2,5,3,6,4,7) b this, of \<sigma>] assms(7) k xy
    show ?thesis by (simp add: l r)
  next
    case 2
    then show ?thesis using assms(5,7) k xy ignored_and [OF l(5) r(5)] ignored_or [OF l(5) r(5)]
      by (auto simp: kids_agree_def all_less_simps Let_def l r intro!: ignored_xor)
  next
    case 3
    then have "bs' = bs" using assms(5) by (cases k) (auto simp: Let_def)
    with assms(7) b k xy l r have "eval \<sigma> x = eval \<sigma> l" "eval \<sigma> y = eval \<sigma> r"
      using agree_outside_0 [OF _ _ narrow_width [OF l(2)]] eval_bv [OF l(1), of \<sigma>] eval_bv [OF r(1), of \<sigma>]
        eval_bv [OF xy(2), of \<sigma>] eval_bv [OF xy(5), of \<sigma>]
      by (auto simp: kids_agree_def all_less_simps)
    with xy show ?thesis by simp
  qed
qed

lemma equal_kids:
  assumes "kids_like e ks" "kids_like e ks'" "kids_agree \<sigma> bs ks ks'" "i < length ks" "ignoredBits (bs ! i) = 0"
  shows "eval \<sigma> (ks' ! i) = eval \<sigma> (ks ! i)"
proof -
  have "wt (ks ! i)" "wt (ks' ! i)" "getWidth (ks ! i) = getWidth (ks' ! i)" and n: "narrow (ks ! i)"
    using assms(1,2,4) by (auto simp: kids_like_def list_all2_conv_all_nth)
  with narrow_width [OF n] show ?thesis
    using assms(3-5) agree_outside_0 [of "getWidth (ks ! i)" "eval \<sigma> (ks ! i)" "eval \<sigma> (ks' ! i)"] eval_bv [of "ks ! i" \<sigma>] eval_bv [of "ks' ! i" \<sigma>]
    by (auto simp: kids_agree_def)
qed

lemma kind_bits_ignored:
  assumes "wt e" "narrow e" "kids_known \<sigma> e ks bs" "\<forall>b \<in> set bs. ignoredBits b = 0"
    "kind_bits R e ks ign bs = Some (rbits, bs')" "kids_like e ks'" "kids_agree \<sigma> bs' ks ks'"
  shows "agree_outside ign (eval \<sigma> e) (eval \<sigma> (with_kids e ks'))"
proof (cases e)
  case (BinaryExpr k l r)
  with binary_bits_ignored assms show ?thesis by blast
next
  case (ConstantExpr c)
  then show ?thesis by simp
next
  case (NotOptimizedExpr x)
  with assms equal_kids [of e ks ks' \<sigma> bs' 0] show ?thesis by (auto simp: kids_known_defs)
next
  case (ReadExpr a u i)
  with assms equal_kids [of e ks ks' \<sigma> bs' 0] show ?thesis by (auto simp: kids_known_defs)
next
  case (SelectExpr c t f)
  with assms equal_kids [of e ks ks' \<sigma> bs' 0] show ?thesis
    by (auto simp: kids_known_defs Let_def kids_agree_def all_less_simps)
next
  case (ConcatExpr l r)
  then obtain l' r' x y where k: "ks = [l', r']" "ks' = [x, y]" "wt x" "wt y" "wt l" "wt r"
    and w: "getWidth l' = getWidth l" "getWidth r' = getWidth r" "getWidth x = getWidth l" "getWidth y = getWidth r"
    and v: "eval \<sigma> l' = eval \<sigma> l" "eval \<sigma> r' = eval \<sigma> r"
    using assms(1,3,6) by (auto simp: kids_known_defs)
  have "agree_outside (drop_bit (getWidth r) ign OR zeroMask (getWidth l)) (eval \<sigma> l) (eval \<sigma> x)"
    "agree_outside (ign OR zeroMask (getWidth r)) (eval \<sigma> r) (eval \<sigma> y)"
    using assms(5,7) ConcatExpr k w v by (auto simp: Let_def kids_agree_def all_less_simps)
  from ignored_concat [OF this] show ?thesis
    using ConcatExpr k w eval_bv [of l \<sigma>] eval_bv [of r \<sigma>] eval_bv [of x \<sigma>] eval_bv [of y \<sigma>] assms(2) by simp
next
  case (ExtractExpr x off w)
  with assms(1,2) narrow_width [of x] have "off + w \<le> 64" by simp
  with ExtractExpr assms ignored_extract [of off ign w] show ?thesis
    by (auto simp: kids_known_defs Let_def kids_agree_def)
next
  case (NotExpr x)
  with assms show ?thesis by (auto simp: kids_known_defs Let_def kids_agree_def intro!: ignored_not)
next
  case (CastExpr k x w)
  then obtain x' y b where k: "ks = [x']" "ks' = [y]" "getWidth x' = getWidth x" "getWidth y = getWidth x" "eval \<sigma> x' = eval \<sigma> x"
    and b: "bs = [b]"
    using assms(1,3,6) by (auto simp: kids_known_defs)
  show ?thesis
  proof (cases k)
    case ZExt
    with assms(5,7) CastExpr k show ?thesis by (auto simp: Let_def kids_agree_def intro!: ignored_zext)
  next
    case SExt
    have w: "0 < getWidth x" "getWidth x \<le> w" "w \<le> 64" using assms(1,2) CastExpr by auto
    have "agree_outside (if (zeroMask (getWidth x) AND NOT (zeroMask w)) AND NOT ign \<noteq> 0 then ign AND NOT (push_bit (getWidth x - 1) 1) else ign) (eval \<sigma> x) (eval \<sigma> y)"
      using assms(5,7) CastExpr SExt k by (auto simp: Let_def kids_agree_def split del: if_split cong: if_cong)
    from ignored_sext [OF refl refl w this] show ?thesis using CastExpr SExt k by simp
  qed
qed

lemma known_outside_ignoring: "known_ok w v b \<Longrightarrow> known_outside v b" "known_ok w v b \<Longrightarrow> known_outside v (ignoring i b)"
  by (auto simp: known_outside_def known_ok_def)

lemma known_outside_kid:
  "known_outside v b \<Longrightarrow> known_outside v (and_kid b)" "known_outside v b \<Longrightarrow> known_outside v (or_kid b)"
  by (auto simp: known_outside_def and_kid_def or_kid_def word64_eq_iff word64_bits)

lemma shift_bits_outside:
  assumes "known_ok w v b0" "known_ok w' v' b1" "shift_bits R k w'' ks ign [b0, b1] = Some (rbits, bs')"
  shows "known_outside v (bs' ! 0)" "known_outside v' (bs' ! 1)"
  using assms by (auto simp: shift_bits_def Let_def option_bind_simps known_outside_ignoring split: option.splits if_splits)

lemma kind_bits_outside:
  assumes "kids_known \<sigma> e ks bs" "kind_bits R e ks ign bs = Some (rbits, bs')" "i < length ks"
  shows "known_outside (eval \<sigma> (ks ! i)) (bs' ! i)"
proof (cases e)
  case (BinaryExpr k l r)
  with assms(1) obtain l' r' b0 b1 where k: "ks = [l', r']" "bs = [b0, b1]" "bits_ok \<sigma> l' b0" "bits_ok \<sigma> r' b1"
    by (auto simp: kids_known_defs)
  have "known_outside (eval \<sigma> l') (bs' ! 0) \<and> known_outside (eval \<sigma> r') (bs' ! 1)"
  proof (cases "k \<in> {Shl, LShr}")
    case True
    with assms(2) BinaryExpr k shift_bits_outside [OF k(3,4)] show ?thesis by auto
  next
    case False
    with assms(2) BinaryExpr k show ?thesis
      by (cases k) (auto simp: Let_def intro!: known_outside_kid intro: known_outside_ignoring)
  qed
  with k assms(3) show ?thesis by (auto simp: less_Suc_eq)
next
  case (CastExpr k x w)
  with assms show ?thesis by (cases k) (auto simp: kids_known_defs Let_def known_outside_ignoring)
qed (use assms in \<open>auto simp: kids_known_defs Let_def less_Suc_eq known_outside_ignoring\<close>)

lemma replaceWithConstant_correct:
  assumes "klee_rt_laws R" "wt e" "narrow e" "known_outside (eval \<sigma> e) b"
    "NOT (knownOneBits b OR knownZeroBits b OR ignoredBits b) = 0"
  shows "\<exists>e' c'. replaceWithConstant R e (knownOneBits b) c = Some (e', c') \<and> wt e' \<and> narrow e' \<and> getWidth e' = getWidth e
    \<and> agree_outside (ignoredBits b) (eval \<sigma> e) (eval \<sigma> e')"
proof -
  define k where "k = APInt (getWidth e) (take_bit (getWidth e) (uint (knownOneBits b AND NOT (zeroMask (getWidth e)))))"
  have w: "0 < getWidth e" "getWidth e \<le> 64" using assms(2,3) narrow_width by auto
  have k: "ConstantExpr_create R (knownOneBits b AND NOT (zeroMask (getWidth e))) (getWidth e) = Some k"
    using w klee_rt_laws.alloc_simp [OF assms(1) w(1)]
      by (auto simp: ConstantExpr_create_def k_def truncateToNBits_eq word64_eq_iff word64_bits bit_mask_iff)
  have "agree_outside (ignoredBits b) (eval \<sigma> e) (eval \<sigma> (ConstantExpr k))"
  proof (rule agree_outsideI)
    fix j assume j: "j < (64 :: nat)" "\<not> bit (ignoredBits b) j"
    show "bit (eval \<sigma> e) j = bit (eval \<sigma> (ConstantExpr k)) j"
      using j w assms(4,5) bv_bitD [OF eval_bv [OF assms(2)], of \<sigma> j]
      by (auto simp: k_def known_outside_def word64_eq_iff word64_bits bit_uint_iff)
  qed
  moreover have "wt (ConstantExpr k)" "narrow (ConstantExpr k)" using w by (auto simp: k_def ap_wf_def)
  moreover have "\<exists>v. ConstantExpr_getZExtValue c' 64 = Some v" if "e = ConstantExpr c'" for c'
    using that assms(2,3) getZExtValue_narrow [of c' 64] by auto
  ultimately show ?thesis using k assms(2,3)
    by (cases e) (auto simp: replaceWithConstant_def k_def)
qed

section \<open>Properties\<close>

text \<open>
  C34. The analysis is right at every node: if the kids have the values of the node's kids and their known
  bits are right, the switch of \<^verbatim>\<open>doSimplifyBits\<close> returns known bits that are right for the node, and its
  three assertions hold.
\<close>

theorem kind_bits_correct:
  assumes "wt e" "narrow e" "kids_known \<sigma> e ks bs"
  shows "\<exists>rbits bs'. kind_bits R e ks ign bs = Some (rbits, bs') \<and> bits_ok \<sigma> e rbits
    \<and> knownOneBits rbits AND knownZeroBits rbits = 0 \<and> knownOneBits rbits AND zeroMask (getWidth e) = 0
    \<and> knownZeroBits rbits AND zeroMask (getWidth e) = zeroMask (getWidth e)"
  using kind_bits_sound [OF assms, of R ign] known_ok_asserts by fastforce

text \<open>
  C35. The bits that a node ignores do not matter. After the switch, the kids can be exchanged for any kids
  that agree with them outside the bits ignored of each, and the node keeps its bits outside the bits
  ignored of it. A kid whose bits are all known or ignored is replaced with such a constant.
\<close>

theorem ignored_bits_correct:
  assumes "klee_rt_laws R" "wt e" "narrow e" "kids_known \<sigma> e ks bs" "\<forall>b \<in> set bs. ignoredBits b = 0"
    "kind_bits R e ks ign bs = Some (rbits, bs')"
  shows "(\<forall>ks'. kids_like e ks' \<and> kids_agree \<sigma> bs' ks ks' \<longrightarrow> agree_outside ign (eval \<sigma> e) (eval \<sigma> (with_kids e ks')))
    \<and> (\<forall>i<length ks. NOT (knownOneBits (bs' ! i) OR knownZeroBits (bs' ! i) OR ignoredBits (bs' ! i)) = 0 \<longrightarrow>
         (\<exists>k' c'. replaceWithConstant R (ks ! i) (knownOneBits (bs' ! i)) c = Some (k', c') \<and> wt k' \<and> narrow k'
            \<and> getWidth k' = getWidth (ks ! i) \<and> agree_outside (ignoredBits (bs' ! i)) (eval \<sigma> (ks ! i)) (eval \<sigma> k')))"
proof (intro conjI allI impI)
  fix ks' assume "kids_like e ks' \<and> kids_agree \<sigma> bs' ks ks'"
  then show "agree_outside ign (eval \<sigma> e) (eval \<sigma> (with_kids e ks'))"
    using kind_bits_ignored [OF assms(2-6)] by blast
next
  fix i assume i: "i < length ks" "NOT (knownOneBits (bs' ! i) OR knownZeroBits (bs' ! i) OR ignoredBits (bs' ! i)) = 0"
  then have "wt (ks ! i)" "narrow (ks ! i)" using assms(4) by (auto simp: kids_known_def kids_like_def list_all2_conv_all_nth)
  from replaceWithConstant_correct [OF assms(1) this kind_bits_outside [OF assms(4,6) i(1)] i(2)]
  show "\<exists>k' c'. replaceWithConstant R (ks ! i) (knownOneBits (bs' ! i)) c = Some (k', c') \<and> wt k' \<and> narrow k'
      \<and> getWidth k' = getWidth (ks ! i) \<and> agree_outside (ignoredBits (bs' ! i)) (eval \<sigma> (ks ! i)) (eval \<sigma> k')" .
qed

text \<open>
  A byte masked with 15, in a context that ignores its lowest bit; nothing is known of the byte, which is
  read from an array.
\<close>

definition sample_array :: klee_array where
  "sample_array = \<lparr>arr_addr = 1, arr_name = ''i'', arr_size = 4, constantValues = []\<rparr>"

definition sample_byte :: expr where
  "sample_byte = ReadExpr sample_array NoUpdate (ConstantExpr (APInt 32 0))"

definition low_bits :: expr where
  "low_bits = AndExpr (ConstantExpr (APInt 8 15)) sample_byte"

definition low_bits_kids :: "bits_info list" where
  "low_bits_kids =
     [\<lparr>ignoredBits = 0, knownOneBits = 15, knownZeroBits = NOT 15\<rparr>,
      \<lparr>ignoredBits = 0, knownOneBits = 0, knownZeroBits = zeroMask 8\<rparr>]"

lemma low_bits_known: "wt low_bits" "narrow low_bits" "kids_known \<sigma> low_bits (kids low_bits) low_bits_kids"
proof -
  show w: "wt low_bits" "narrow low_bits"
    by (simp_all add: low_bits_def sample_byte_def sample_array_def array_ok_def ap_wf_def bv_def)
  have c: "bits_ok \<sigma> (ConstantExpr (APInt 8 15)) \<lparr>ignoredBits = 0, knownOneBits = 15, knownZeroBits = NOT 15\<rparr>"
    using kind_bits_sound [of "ConstantExpr (APInt 8 15)" \<sigma> "[]" "[]" klee_rt_ref 0]
    by (simp add: ap_wf_def bv_def kids_known_def kids_like_def ConstantExpr_getZExtValue_def ap_getZExtValue_def)
  have "bits_ok \<sigma> sample_byte \<lparr>ignoredBits = 0, knownOneBits = 0, knownZeroBits = zeroMask 8\<rparr>"
    using w(1) known_unknown_kind(1) [of sample_byte \<sigma> 0] by (simp add: low_bits_def sample_byte_def)
  with c w show "kids_known \<sigma> low_bits (kids low_bits) low_bits_kids"
    by (simp add: kids_known_def kids_like_def low_bits_def low_bits_kids_def)
qed

theorem kind_bits_correct_witness:
  "\<exists>rbits bs'. kind_bits klee_rt_ref low_bits (kids low_bits) 1 low_bits_kids = Some (rbits, bs') \<and> bits_ok (\<lambda>_ _. 3) low_bits rbits
    \<and> knownOneBits rbits AND knownZeroBits rbits = 0"
  using kind_bits_correct [OF low_bits_known, of klee_rt_ref 1 "\<lambda>_ _. 3"] by blast

theorem ignored_bits_correct_witness:
  "\<exists>rbits bs'. kind_bits klee_rt_ref low_bits (kids low_bits) 1 low_bits_kids = Some (rbits, bs')
    \<and> (\<forall>ks'. kids_like low_bits ks' \<and> kids_agree (\<lambda>_ _. 3) bs' (kids low_bits) ks'
         \<longrightarrow> agree_outside 1 (eval (\<lambda>_ _. 3) low_bits) (eval (\<lambda>_ _. 3) (with_kids low_bits ks')))"
proof -
  have z: "\<forall>b \<in> set low_bits_kids. ignoredBits b = 0" by (simp add: low_bits_kids_def)
  obtain rbits bs' where b: "kind_bits klee_rt_ref low_bits (kids low_bits) 1 low_bits_kids = Some (rbits, bs')"
    using kind_bits_sound [OF low_bits_known, of klee_rt_ref 1] by blast
  with ignored_bits_correct [OF klee_rt_ref_laws low_bits_known z b] show ?thesis by blast
qed

text \<open>
  The cache breaks this. An expression that was rebuilt in a context with ignored bits enters the cache with
  the known bits of the expression it replaced; a later query finds it there although nothing is ignored
  any more. In the first of the two queries below the lower kid of the conjunction is rebuilt as the
  expression \<^term>\<open>stale_key\<close>, once its own entry has been erased with the kids of a replaced sibling.
\<close>

definition stale_key :: expr where
  "stale_key = OrExpr (ConstantExpr (APInt 8 1)) (AndExpr (ConstantExpr (APInt 8 132)) sample_byte)"

definition stale_first :: expr where
  "stale_first =
     (let k = OrExpr stale_key (ShlExpr stale_key (ConstantExpr (APInt 8 3)))
      in AndExpr (ShlExpr k (ConstantExpr (APInt 8 4))) k)"

definition stale_second :: expr where
  "stale_second = AndExpr (ConstantExpr (APInt 8 8)) stale_key"

definition new_simplifier :: simplifier where
  "new_simplifier = \<lparr>m_bitsInfoCache = (\<lambda>_. None), m_simplifiedExpressions = (\<lambda>_. None)\<rparr>"

definition two_queries :: "(expr \<times> expr) option" where
  "two_queries =
     do { (r, s) \<leftarrow> simplify 20 klee_rt_ref stale_first new_simplifier;
          (r', s) \<leftarrow> simplify 20 klee_rt_ref stale_second s;
          Some (fst r, fst r') }"

definition one_query :: "expr option" where
  "one_query = do { (r, s) \<leftarrow> simplify 20 klee_rt_ref stale_second new_simplifier; Some (fst r) }"

text \<open>
  C36. A query changes what a later one returns, and makes it wrong: the second expression is zero under every
  assignment, and a new simplifier says so, but after the first query it is simplified to the constant 8.
\<close>

theorem simplify_stale_cache:
  "one_query = Some (ConstantExpr (APInt 8 0)) \<and> map_option snd two_queries = Some (ConstantExpr (APInt 8 8))
   \<and> (\<forall>\<sigma>. eval \<sigma> stale_second = 0)"
proof (intro conjI allI)
  show "one_query = Some (ConstantExpr (APInt 8 0))" by code_simp
  show "map_option snd two_queries = Some (ConstantExpr (APInt 8 8))" by code_simp
  fix \<sigma> :: assignment
  have "8 AND (1 OR (132 AND x)) = (0 :: int)" for x
    by (simp add: bit.conj_disj_distrib flip: and.assoc)
  then show "eval \<sigma> stale_second = 0" by (simp add: stale_second_def stale_key_def)
qed

end
