(* ===== verification/FastResolution.thy ===== *)
theory FastResolution
  imports Resolution BitfieldSimplifier
begin

unbundle bit_operations_syntax

text \<open>
  \<^verbatim>\<open>AddressSpace::resolveOneFast\<close> (\<^verbatim>\<open>src/klee/lib/Core/AddressSpace.cpp\<close>), which resolves a constant address,
  or a constant base plus an offset of one byte, without the solver. It is the first attempt of
  \<^verbatim>\<open>Executor::executeMemoryOperation\<close>, which checks no bounds when it reports the access as in bounds.
\<close>

section \<open>Resolution without the solver\<close>

definition getMinBytesForWidth :: "width \<Rightarrow> nat" where
  "getMinBytesForWidth w = (w + 7) div 8"

text \<open>
  The result is the object with the flag \<^verbatim>\<open>inBounds\<close>, or nothing where the function returns false. The
  known bits of a constant offset are read without having been set, which counts as a failure.
\<close>

definition resolveOneFast ::
  "nat \<Rightarrow> klee_rt \<Rightarrow> address_space \<Rightarrow> expr \<Rightarrow> width \<Rightarrow> simplifier \<Rightarrow> ((object_pair \<times> bool) option \<times> simplifier) option" where
  "resolveOneFast fuel R as address width s =
     (case dyn_cast_Constant address of
        Some ce \<Rightarrow>
          do { res \<leftarrow> resolveOne_constant as ce;
               case res of
                 None \<Rightarrow> Some (None, s)
               | Some result \<Rightarrow>
                   do { v \<leftarrow> ConstantExpr_getZExtValue ce 64;
                        let val = v - mo_address (fst result);
                        Some (Some (result, val + of_nat (getMinBytesForWidth width) \<le> ucast (mo_size (fst result))), s) } }
      | None \<Rightarrow>
          (case dyn_cast_Binary Add address of
             None \<Rightarrow> Some (None, s)
           | Some (l, offset) \<Rightarrow>
               (case dyn_cast_Constant l of
                  None \<Rightarrow> Some (None, s)
                | Some base \<Rightarrow>
                    do { (r, s) \<leftarrow> simplify fuel R offset s;
                         bits \<leftarrow> snd r;
                         if knownZeroBits bits AND NOT 0xff \<noteq> NOT 0xff then Some (None, s)
                         else
                           do { res \<leftarrow> resolveOne_constant as base;
                                case res of
                                  None \<Rightarrow> Some (None, s)
                                | Some result \<Rightarrow>
                                    do { b \<leftarrow> ConstantExpr_getZExtValue base 64;
                                         if mo_address (fst result) \<noteq> b then Some (None, s)
                                         else Some (Some (result, ucast (mo_size (fst result)) \<le> (256 :: 64 word)), s) } } })))"

section \<open>Properties\<close>

text \<open>An access of some bytes at an address lies in an object.\<close>

definition access_in :: "memory_object \<Rightarrow> int \<Rightarrow> nat \<Rightarrow> bool" where
  "access_in mo v bytes \<longleftrightarrow>
     uint (mo_address mo) \<le> v \<and> v + int bytes \<le> uint (mo_address mo) + uint (mo_size mo)"

lemma access_in_word:
  fixes a :: "64 word"
  assumes "in_object mo (uint a)" "n < 2 ^ 32"
  shows "(a - mo_address mo) + of_nat n \<le> ucast (mo_size mo) \<longleftrightarrow> access_in mo (uint a) n"
proof -
  have le: "mo_address mo \<le> a" using assms(1) by (auto simp: in_object_def word_le_def split: if_splits)
  then have d: "uint (a - mo_address mo) = uint a - uint (mo_address mo)" by (simp add: uint_minus_simple_alt word_le_def)
  have s: "uint (mo_size mo) < 2 ^ 32" using uint_lt2p [of "mo_size mo"] by simp
  have b: "uint a - uint (mo_address mo) \<le> uint (mo_size mo)" using assms(1) by (auto simp: in_object_def split: if_splits)
  have "uint (of_nat n :: 64 word) = int n" using assms(2) by (simp add: uint_nat unat_of_nat)
  moreover have "uint ((a - mo_address mo) + of_nat n) = uint a - uint (mo_address mo) + int n"
    using assms(2) d b s calculation by (simp add: uint_word_ariths)
  ultimately show ?thesis using le by (auto simp: access_in_def word_le_def uint_up_ucast is_up)
qed

text \<open>
  C37. On a constant address \<^verbatim>\<open>resolveOneFast\<close> never fails an assertion. It finds the one object that contains the
  address, and reports the access as in bounds if and only if all its bytes lie in that object; it finds
  nothing only when no object contains the address.
\<close>

theorem resolveOneFast_constant:
  assumes "mo_map.tree_inv (objects as)" "placed pw as" "ap_wf c" "getBitWidth c \<le> 64" "getMinBytesForWidth width < 2 ^ 32"
  shows "\<exists>res. resolveOneFast fuel R as (ConstantExpr c) width s = Some (res, s) \<and> (case res of
      None \<Rightarrow> \<forall>y\<in>entries as. \<not> in_object (fst y) (apValue c)
    | Some (x, inBounds) \<Rightarrow> x \<in> entries as \<and> in_object (fst x) (apValue c)
        \<and> (inBounds \<longleftrightarrow> access_in (fst x) (apValue c) (getMinBytesForWidth width)))"
proof -
  obtain a where a: "ConstantExpr_getZExtValue c 64 = Some a" using getZExtValue_narrow [OF assms(3,4,4)] by blast
  with getZExtValue_Some [OF assms(3) a] have v: "apValue c = uint a" by simp
  from resolveOne_constant_ok [OF assms(1-4)] access_in_word [OF _ assms(5)] a v
  show ?thesis by (fastforce simp: resolveOneFast_def split: option.splits)
qed

theorem resolveOneFast_constant_witness:
  "\<exists>x. resolveOneFast 0 klee_rt_ref two_objects (ConstantExpr (APInt 32 78)) 32 new_simplifier = Some (Some (x, False), new_simplifier)"
proof -
  have c: "ap_wf (APInt 32 78)" "getBitWidth (APInt 32 78) \<le> 64" "getMinBytesForWidth 32 < 2 ^ 32"
    by (simp_all add: ap_wf_def bv_def getMinBytesForWidth_def)
  from resolveOneFast_constant [OF two_objects_ok(1,2) c, where s = new_simplifier and fuel = 0 and R = klee_rt_ref, unfolded two_objects_ok(3)]
  show ?thesis by (auto simp: in_object_def object_at_def access_in_def getMinBytesForWidth_def split: option.splits)
qed

text \<open>A byte added to the base of the second object, which has 16 bytes.\<close>

definition byte_offset :: expr where
  "byte_offset = AddExpr (ConstantExpr (APInt 32 64)) (ZExtExpr sample_byte 32)"

text \<open>
  C38. For a symbolic offset the comparison with the size of the object is the wrong way round. A byte is added to the
  base of an object of 16 bytes; \<^verbatim>\<open>resolveOneFast\<close> reports the access as in bounds, although the address can
  be far outside the object.
\<close>

theorem resolveOneFast_out_of_bounds:
  "map_option fst (resolveOneFast 5 klee_rt_ref two_objects byte_offset 8 new_simplifier) = Some (Some ((object_at 64, 2), True))
   \<and> (\<exists>\<sigma>. eval \<sigma> byte_offset = 319 \<and> \<not> access_in (object_at 64) (eval \<sigma> byte_offset) (getMinBytesForWidth 8))"
proof
  show "map_option fst (resolveOneFast 5 klee_rt_ref two_objects byte_offset 8 new_simplifier) = Some (Some ((object_at 64, 2), True))"
    by code_simp
  have "eval (\<lambda>_ _. 255) byte_offset = 319"
    by (simp add: byte_offset_def sample_byte_def sample_array_def initial_value_def isConstantArray_def isSymbolicArray_def)
  then show "\<exists>\<sigma>. eval \<sigma> byte_offset = 319 \<and> \<not> access_in (object_at 64) (eval \<sigma> byte_offset) (getMinBytesForWidth 8)"
    by (intro exI [of _ "\<lambda>_ _. 255"]) (simp add: access_in_def object_at_def)
qed

end
