(* ===== verification/BitArray.thy ===== *)
theory BitArray
  imports Prelude
begin

unbundle bit_operations_syntax

text \<open>
  The bit sets of \<^verbatim>\<open>src/klee/include/klee/util/BitArray.h\<close>: an array of 32-bit words that does not know its
  sz. Every operation that scans the array is given the number of bits.
\<close>

section \<open>Operations\<close>

type_synonym bit_array = "32 word list"

definition ba_length :: "nat \<Rightarrow> nat" where
  "ba_length sz = (sz + 31) div 32"

definition new_BitArray :: "nat \<Rightarrow> bool \<Rightarrow> bit_array" where
  "new_BitArray sz value = replicate (ba_length sz) (if value then - 1 else 0)"

definition copy_BitArray :: "bit_array \<Rightarrow> nat \<Rightarrow> bit_array" where
  "copy_BitArray b sz = take (ba_length sz) b"

definition ba_get :: "bit_array \<Rightarrow> nat \<Rightarrow> bool" where
  "ba_get b idx \<longleftrightarrow> drop_bit (idx mod 32) (b ! (idx div 32)) AND 1 \<noteq> 0"

definition ba_set :: "bit_array \<Rightarrow> nat \<Rightarrow> bit_array" where
  "ba_set b idx = b[idx div 32 := b ! (idx div 32) OR push_bit (idx mod 32) 1]"

definition ba_unset :: "bit_array \<Rightarrow> nat \<Rightarrow> bit_array" where
  "ba_unset b idx = b[idx div 32 := b ! (idx div 32) AND NOT (push_bit (idx mod 32) 1)]"

definition ba_set_to :: "bit_array \<Rightarrow> nat \<Rightarrow> bool \<Rightarrow> bit_array" where
  "ba_set_to b idx value = (if value then ba_set b idx else ba_unset b idx)"

text \<open>
  The scans compare whole words, then the remaining bits of the word behind them. That word is read even
  when no bits remain, where the array can end before it; reading it is a failure.
\<close>

definition ba_tail :: "bit_array \<Rightarrow> nat \<Rightarrow> (32 word \<times> 32 word) option" where
  "ba_tail b sz =
     do { require (sz div 32 < length b);
          Some (b ! (sz div 32), push_bit (sz mod 32) 1 - 1) }"

definition isAllZeros :: "bit_array \<Rightarrow> nat \<Rightarrow> bool option" where
  "isAllZeros b sz =
     (if \<exists>x \<in> set (take (sz div 32) b). x \<noteq> 0 then Some False
      else do { (w, m) \<leftarrow> ba_tail b sz; Some (w AND m = 0) })"

definition isAllOnes :: "bit_array \<Rightarrow> nat \<Rightarrow> bool option" where
  "isAllOnes b sz =
     (if \<exists>x \<in> set (take (sz div 32) b). x \<noteq> 0xffffffff then Some False
      else do { (w, m) \<leftarrow> ba_tail b sz; Some (w AND m = m) })"

section \<open>A set of bits\<close>

text \<open>What a bit array promises to its clients, who give indices below the size it was made for.\<close>

locale bit_store =
  fixes get :: "'b \<Rightarrow> nat \<Rightarrow> bool" and set1 :: "'b \<Rightarrow> nat \<Rightarrow> 'b" and unset1 :: "'b \<Rightarrow> nat \<Rightarrow> 'b"
    and new :: "nat \<Rightarrow> bool \<Rightarrow> 'b" and valid :: "nat \<Rightarrow> 'b \<Rightarrow> bool"
  assumes get_new: "i < n \<Longrightarrow> get (new n v) i = v"
    and get_set: "valid n b \<Longrightarrow> i < n \<Longrightarrow> j < n \<Longrightarrow> get (set1 b i) j \<longleftrightarrow> i = j \<or> get b j"
    and get_unset: "valid n b \<Longrightarrow> i < n \<Longrightarrow> j < n \<Longrightarrow> get (unset1 b i) j \<longleftrightarrow> i \<noteq> j \<and> get b j"
    and valid_new: "valid n (new n v)"
    and valid_set: "valid n b \<Longrightarrow> valid n (set1 b i)"
    and valid_unset: "valid n b \<Longrightarrow> valid n (unset1 b i)"
begin

lemmas get_rules = get_new get_set get_unset
lemmas valid_rules = valid_new valid_set valid_unset

text \<open>Clearing a range of indices leaves the other bits.\<close>

lemma foldl_unset:
  "valid n b \<Longrightarrow> \<forall>i \<in> set is. i < n \<Longrightarrow> j < n \<Longrightarrow> get (foldl unset1 b is) j \<longleftrightarrow> j \<notin> set is \<and> get b j"
  by (induction "is" arbitrary: b) (auto simp: get_unset valid_unset)

end

definition ba_valid :: "nat \<Rightarrow> bit_array \<Rightarrow> bool" where
  "ba_valid sz b \<longleftrightarrow> length b = ba_length sz"

lemma ba_get_bit: "ba_get b i \<longleftrightarrow> bit (b ! (i div 32)) (i mod 32)"
proof -
  have "x AND 1 \<noteq> 0 \<longleftrightarrow> bit x 0" for x :: "32 word" by (simp add: and_one_eq bit_0 odd_iff_mod_2_eq_one)
  then show ?thesis by (simp add: ba_get_def bit_drop_bit_eq)
qed

lemma ba_index: "i < sz \<Longrightarrow> i div 32 < ba_length sz"
  using div_le_mono [of "i + 32" "sz + 31" 32] by (simp add: ba_length_def)

lemma ba_length_eq: "ba_length sz = (if sz mod 32 = 0 then sz div 32 else Suc (sz div 32))"
proof -
  have "ba_length sz = sz div 32 + (sz mod 32 + 31) div 32"
    using div_mult_self3 [of 32 "sz div 32" "sz mod 32 + 31"] mult_div_mod_eq [of 32 sz] by (simp add: ba_length_def add.assoc)
  moreover have "(sz mod 32 + 31) div 32 = (if sz mod 32 = 0 then 0 else 1)"
    using mod_less_divisor [of 32 sz] by (auto intro!: div_nat_eqI)
  ultimately show ?thesis by simp
qed

lemma same_bit: "i div 32 = j div 32 \<Longrightarrow> i mod 32 = j mod 32 \<Longrightarrow> i = (j :: nat)"
  by (metis div_mult_mod_eq)

lemma bit_set_unset:
  "k < 32 \<Longrightarrow> bit ((w :: 32 word) OR push_bit k 1) l \<longleftrightarrow> k = l \<or> bit w l"
  "k < 32 \<Longrightarrow> bit ((w :: 32 word) AND NOT (push_bit k 1)) l \<longleftrightarrow> k \<noteq> l \<and> bit w l"
  by (auto simp: bit_or_iff bit_and_iff bit_not_iff bit_exp_iff dest: bit_imp_le_length)

lemma ba_get_update:
  "i < n \<Longrightarrow> ba_valid n b \<Longrightarrow> ba_get (b[i div 32 := w]) j \<longleftrightarrow> (if i div 32 = j div 32 then bit w (j mod 32) else ba_get b j)"
  using ba_index [of i n] by (simp add: ba_get_bit ba_valid_def nth_list_update)

lemma same_bit_iff: "i = (j :: nat) \<longleftrightarrow> i div 32 = j div 32 \<and> i mod 32 = j mod 32"
  using same_bit by blast

interpretation ba: bit_store ba_get ba_set ba_unset new_BitArray ba_valid
proof
  fix n i j :: nat and b v
  show "i < n \<Longrightarrow> ba_get (new_BitArray n v) i = v"
    using ba_index [of i n] by (simp add: ba_get_bit new_BitArray_def)
  have m: "i mod 32 < 32" by simp
  show "ba_get (ba_set b i) j \<longleftrightarrow> i = j \<or> ba_get b j" if "ba_valid n b" "i < n" "j < n"
    unfolding ba_set_def ba_get_update [OF that(2,1)] bit_set_unset(1) [OF m] same_bit_iff [of i j]
    by (cases "i div 32 = j div 32") (simp_all only: ba_get_bit if_True if_False simp_thms)
  show "ba_get (ba_unset b i) j \<longleftrightarrow> i \<noteq> j \<and> ba_get b j" if "ba_valid n b" "i < n" "j < n"
    unfolding ba_unset_def ba_get_update [OF that(2,1)] bit_set_unset(2) [OF m] same_bit_iff [of i j]
    by (cases "i div 32 = j div 32") (simp_all only: ba_get_bit if_True if_False simp_thms)
qed (simp_all add: ba_valid_def new_BitArray_def ba_set_def ba_unset_def)

lemma ba_get_copy: "ba_valid n b \<Longrightarrow> copy_BitArray b n = b"
  by (simp add: ba_valid_def copy_BitArray_def)

section \<open>Scans\<close>

lemma word32_all_bits: "(x :: 32 word) = - 1 \<longleftrightarrow> (\<forall>k<32. bit x k)"
  by (auto simp: bit_eq_iff)

lemma nth_take_all:
  assumes "m \<le> length b"
  shows "(\<exists>x \<in> set (take m b). x \<noteq> c) \<longleftrightarrow> \<not> (\<forall>q<m. b ! q = c)"
proof -
  have "set (take m b) = (!) b ` {0..<m}"
    using assms by (simp add: nth_image)
  then show ?thesis by auto
qed

lemma word32_ones: "(0xffffffff :: 32 word) = - 1"
  by simp

lemma ba_tail_mask: "(w :: 32 word) AND (push_bit k 1 - 1) = push_bit k 1 - 1 \<longleftrightarrow> (\<forall>j<k. j < 32 \<longrightarrow> bit w j)"
proof -
  have m: "push_bit k 1 - 1 = (mask k :: 32 word)" by (simp add: mask_eq_exp_minus_1)
  show ?thesis unfolding m by (auto simp: bit_eq_iff bit_and_iff bit_mask_iff)
qed

lemma split_less: "r < 32 \<Longrightarrow> r' < 32 \<Longrightarrow> 32 * q + r < 32 * q' + r' \<longleftrightarrow> q < q' \<or> q = q' \<and> r < (r' :: nat)"
  by (cases q q' rule: linorder_cases) auto

lemma all_bits_split:
  assumes "n = 32 * q + r" "r < (32 :: nat)"
  shows "(\<forall>i<n. P i) \<longleftrightarrow> (\<forall>q'<q. \<forall>k<32. P (32 * q' + k)) \<and> (\<forall>k<r. P (32 * q + k))"
proof (intro iffI conjI allI impI)
  fix i assume a: "(\<forall>q'<q. \<forall>k<32. P (32 * q' + k)) \<and> (\<forall>k<r. P (32 * q + k))" "i < n"
  obtain p k where i: "i = 32 * p + k" "k < 32" 
    using that [of "i div 32" "i mod 32"] by simp
  with a assms split_less [OF i(2) assms(2), of p q] show "P i" by auto
qed (use assms split_less [OF _ assms(2), of _ _ q] in auto)

text \<open>
  C40. The scan of a bit array for ones is right for every number of bits that is not a multiple of 32: it
  reports whether all the bits are set. For a multiple of 32 it either finds a clear bit, or reads the word
  behind the end of the array.
\<close>

theorem isAllOnes_correct:
  assumes "ba_valid sz b"
  shows "isAllOnes b sz =
    (if sz mod 32 = 0 \<and> (\<forall>i< sz. ba_get b i) then None else Some (\<forall>i< sz. ba_get b i))"
proof -
  have l: "length b = (if sz mod 32 = 0 then sz div 32 else Suc (sz div 32))"
    using assms ba_length_eq by (simp add: ba_valid_def)
  have f: "(\<exists>x \<in> set (take (sz div 32) b). x \<noteq> - 1) \<longleftrightarrow> \<not> (\<forall>q< sz div 32. \<forall>k<32. ba_get b (32 * q + k))"
    using l nth_take_all [of "sz div 32" b] by (simp add: ba_get_bit flip: word32_all_bits)
  have t: "(b ! (sz div 32)) AND (push_bit (sz mod 32) 1 - 1) = push_bit (sz mod 32) 1 - 1
      \<longleftrightarrow> (\<forall>k< sz mod 32. ba_get b (32 * (sz div 32) + k))"
    using mod_less_divisor [of 32 sz] unfolding ba_tail_mask by (auto simp: ba_get_bit)
  have s: "(\<forall>i< sz. ba_get b i) \<longleftrightarrow> (\<forall>q< sz div 32. \<forall>k<32. ba_get b (32 * q + k)) \<and> (\<forall>k< sz mod 32. ba_get b (32 * (sz div 32) + k))"
    by (rule all_bits_split) simp_all
  show ?thesis
  proof (cases "sz mod 32 = 0")
    case True
    with l have "ba_tail b sz = None" by (simp add: ba_tail_def)
    with True show ?thesis unfolding isAllOnes_def word32_ones f s by simp
  next
    case False
    with l have "ba_tail b sz = Some (b ! (sz div 32), push_bit (sz mod 32) 1 - 1)" by (simp add: ba_tail_def)
    with False t show ?thesis unfolding isAllOnes_def word32_ones f s by simp
  qed
qed

theorem isAllOnes_correct_witness:
  "isAllOnes (new_BitArray 33 True) 33 = Some True \<and> isAllOnes (new_BitArray 32 True) 32 = None"
  using isAllOnes_correct [OF ba.valid_new, of 33 True] isAllOnes_correct [OF ba.valid_new, of 32 True]
  by (simp add: ba.get_new)

end
