(* ===== verification/ObjectMemory.thy ===== *)
theory ObjectMemory
  imports AddressSpace BitArray ExprMake
begin

unbundle bit_operations_syntax

text \<open>
  The contents of a memory object: \<^verbatim>\<open>ObjectState\<close> of \<^verbatim>\<open>src/klee/include/klee/Memory.h\<close> and
  \<^verbatim>\<open>src/klee/lib/Core/Memory.cpp\<close>. A byte lives in up to three places: the concrete store, the array of
  known symbolic values, and the list of updates of an array, to which the first two are flushed
  before an access at a symbolic offset. The masks say which place is current. The theorems relate
  this to what it stands for: a function from offsets to bytes.
\<close>

section \<open>State\<close>

text \<open>
  The record extends the fields that \<^verbatim>\<open>AddressSpace\<close> uses. Reference counts are left out, and the
  bytes of an object that is accessed directly are those of the process, a function from addresses.
\<close>

record shared_object = memory_object +
  isSharedConcrete :: bool

type_synonym update_list = "klee_array option \<times> update_node"

record full_state = object_state +
  concreteMask :: "bit_array option"
  os_object :: shared_object
  flushMask :: "bit_array option"
  knownSymbolics :: "expr option list option"
  updates :: update_list
  os_size :: nat

text \<open>
  What the operations use of their surroundings: the byte order of the context, the command-line option
  \<^verbatim>\<open>use-constant-arrays\<close>, LLVM's \<^verbatim>\<open>utostr\<close> and the address that \<^verbatim>\<open>new Array\<close> returns. The mutable part is the memory
  of the process and the two static counters for the names of arrays.
\<close>

record memory_rt =
  isLittleEndian :: bool
  UseConstantArrays :: bool
  utostr :: "nat \<Rightarrow> string"
  new_address :: "string \<Rightarrow> nat"

record world =
  native :: "64 word \<Rightarrow> 8 word"
  tmp_arr_id :: nat
  const_arr_id :: nat

section \<open>Masks and known values\<close>

definition isByteConcrete :: "full_state \<Rightarrow> nat \<Rightarrow> bool" where
  "isByteConcrete os offset = (case concreteMask os of None \<Rightarrow> True | Some b \<Rightarrow> ba_get b offset)"

definition isByteFlushed :: "full_state \<Rightarrow> nat \<Rightarrow> bool" where
  "isByteFlushed os offset = (case flushMask os of None \<Rightarrow> False | Some b \<Rightarrow> \<not> ba_get b offset)"

definition knownSymbolic :: "full_state \<Rightarrow> nat \<Rightarrow> expr option" where
  "knownSymbolic os offset = (case knownSymbolics os of None \<Rightarrow> None | Some ks \<Rightarrow> ks ! offset)"

definition isByteKnownSymbolic :: "full_state \<Rightarrow> nat \<Rightarrow> bool" where
  "isByteKnownSymbolic os offset \<longleftrightarrow> knownSymbolic os offset \<noteq> None"

definition markByteConcrete :: "nat \<Rightarrow> full_state \<Rightarrow> full_state" where
  "markByteConcrete offset os = os\<lparr>concreteMask := map_option (\<lambda>b. ba_set b offset) (concreteMask os)\<rparr>"

definition markByteSymbolic :: "nat \<Rightarrow> full_state \<Rightarrow> full_state" where
  "markByteSymbolic offset os =
     os\<lparr>concreteMask := Some (ba_unset (case concreteMask os of None \<Rightarrow> new_BitArray (os_size os) True | Some b \<Rightarrow> b) offset)\<rparr>"

definition markByteFlushed :: "nat \<Rightarrow> full_state \<Rightarrow> full_state" where
  "markByteFlushed offset os =
     os\<lparr>flushMask := Some (case flushMask os of None \<Rightarrow> new_BitArray (os_size os) False | Some b \<Rightarrow> ba_unset b offset)\<rparr>"

definition markByteUnflushed :: "nat \<Rightarrow> full_state \<Rightarrow> full_state" where
  "markByteUnflushed offset os = os\<lparr>flushMask := map_option (\<lambda>b. ba_set b offset) (flushMask os)\<rparr>"

definition setKnownSymbolic :: "nat \<Rightarrow> expr option \<Rightarrow> full_state \<Rightarrow> full_state" where
  "setKnownSymbolic offset value os =
     (case knownSymbolics os of
        Some ks \<Rightarrow> os\<lparr>knownSymbolics := Some (ks[offset := value])\<rparr>
      | None \<Rightarrow>
          (case value of
             None \<Rightarrow> os
           | Some v \<Rightarrow> os\<lparr>knownSymbolics := Some ((replicate (os_size os) None)[offset := Some v])\<rparr>))"

section \<open>Loops and update lists\<close>

text \<open>The loop over \<^verbatim>\<open>n\<close> numbers from \<^verbatim>\<open>i\<close> on.\<close>

primrec for_loop :: "(nat \<Rightarrow> 's \<Rightarrow> 's option) \<Rightarrow> nat \<Rightarrow> nat \<Rightarrow> 's \<Rightarrow> 's option" where
  "for_loop f i 0 s = Some s"
| "for_loop f i (Suc n) s = do { s \<leftarrow> f i s; for_loop f (Suc i) n s }"

text \<open>\<^verbatim>\<open>UpdateList::extend\<close>, with the assertion of the constructor of \<^verbatim>\<open>UpdateNode\<close>.\<close>

definition extend :: "expr \<Rightarrow> expr \<Rightarrow> update_list \<Rightarrow> update_list option" where
  "extend i v ul = do { require (getWidth v = Int8); Some (fst ul, UpdateNode i v (snd ul)) }"

text \<open>The writes of an update list, the oldest first.\<close>

primrec Writes :: "update_node \<Rightarrow> (expr \<times> expr) list" where
  "Writes NoUpdate = []"
| "Writes (UpdateNode i v n) = Writes n @ [(i, v)]"

text \<open>
  The leading writes of constants at constant indices go into the contents of the new array; an index
  outside them is undefined.
\<close>

fun pull_writes :: "apint list \<Rightarrow> (expr \<times> expr) list \<Rightarrow> (apint list \<times> (expr \<times> expr) list) option" where
  "pull_writes contents ((ConstantExpr i, ConstantExpr v) # ws) =
     do { n \<leftarrow> ConstantExpr_getZExtValue i 64;
          require (unat n < length contents);
          pull_writes (contents[unat n := v]) ws }"
| "pull_writes contents ws = Some (contents, ws)"

fun extend_all :: "(expr \<times> expr) list \<Rightarrow> update_list \<Rightarrow> update_list option" where
  "extend_all [] ul = Some ul"
| "extend_all ((i, v) # ws) ul = do { ul \<leftarrow> extend i v ul; extend_all ws ul }"

text \<open>\<^verbatim>\<open>getUpdates\<close> creates the constant array when it is first needed.\<close>

definition getUpdates ::
  "klee_rt \<Rightarrow> memory_rt \<Rightarrow> full_state \<times> world \<Rightarrow> ((klee_array \<times> update_node) \<times> full_state \<times> world) option" where
  "getUpdates R M = (\<lambda>(os, w).
     case fst (updates os) of
       Some root \<Rightarrow> Some ((root, snd (updates os)), os, w)
     | None \<Rightarrow>
         do { zero \<leftarrow> ConstantExpr_create R 0 Int8;
              (contents, ws) \<leftarrow> pull_writes (replicate (os_size os) zero) (Writes (snd (updates os)));
              let n = const_arr_id w + 1;
              let name = ''const_arr'' @ utostr M n;
              let array = \<lparr>arr_addr = new_address M name, arr_name = name, arr_size = os_size os, constantValues = contents\<rparr>;
              ul \<leftarrow> extend_all ws (Some array, NoUpdate);
              Some ((array, snd ul), os\<lparr>updates := ul\<rparr>, w\<lparr>const_arr_id := n\<rparr>) })"

section \<open>Construction\<close>

definition makeConcrete :: "full_state \<Rightarrow> full_state" where
  "makeConcrete os = os\<lparr>concreteMask := None, flushMask := None, knownSymbolics := None\<rparr>"

definition makeSymbolic :: "full_state \<Rightarrow> full_state option" where
  "makeSymbolic os =
     do { require (snd (updates os) = NoUpdate);
          for_loop (\<lambda>i os. Some (markByteFlushed i (setKnownSymbolic i None (markByteSymbolic i os)))) 0 (os_size os) os }"

text \<open>
  The constructors. The store of a new object has the bytes that the allocator returns, an argument
  here; the array of an object whose contents are not to become a constant array is symbolic.
\<close>

definition new_full_state :: "shared_object \<Rightarrow> 8 word list \<Rightarrow> update_list \<Rightarrow> full_state" where
  "new_full_state mo bytes ul =
     \<lparr>copyOnWriteOwner = 0, readOnly = False, concreteStore = bytes, concreteMask = None, os_object = mo,
      flushMask = None, knownSymbolics = None, updates = ul, os_size = unat (mo_size mo)\<rparr>"

definition new_ObjectState :: "memory_rt \<Rightarrow> shared_object \<Rightarrow> 8 word list \<Rightarrow> world \<Rightarrow> full_state \<times> world" where
  "new_ObjectState M mo bytes w =
     (if UseConstantArrays M then (new_full_state mo bytes (None, NoUpdate), w)
      else
        (let n = tmp_arr_id w + 1; name = ''tmp_arr'' @ utostr M n;
             array = \<lparr>arr_addr = new_address M name, arr_name = name, arr_size = unat (mo_size mo), constantValues = []\<rparr>
         in (new_full_state mo bytes (Some array, NoUpdate), w\<lparr>tmp_arr_id := n\<rparr>)))"

definition new_symbolic_ObjectState :: "shared_object \<Rightarrow> klee_array \<Rightarrow> 8 word list \<Rightarrow> full_state option" where
  "new_symbolic_ObjectState mo array bytes = makeSymbolic (new_full_state mo bytes (Some array, NoUpdate))"

definition copy_ObjectState :: "full_state \<Rightarrow> full_state option" where
  "copy_ObjectState os =
     do { require (\<not> readOnly os);
          Some \<lparr>copyOnWriteOwner = 0, readOnly = False, concreteStore = take (os_size os) (concreteStore os),
                concreteMask = map_option (\<lambda>b. copy_BitArray b (os_size os)) (concreteMask os), os_object = os_object os,
                flushMask = map_option (\<lambda>b. copy_BitArray b (os_size os)) (flushMask os),
                knownSymbolics = map_option (take (os_size os)) (knownSymbolics os), updates = updates os,
                os_size = os_size os\<rparr> }"

definition initializeToZero :: "full_state \<Rightarrow> full_state" where
  "initializeToZero os = (makeConcrete os)\<lparr>concreteStore := replicate (os_size os) 0\<rparr>"

definition initializeToRandom :: "full_state \<Rightarrow> full_state" where
  "initializeToRandom os = (makeConcrete os)\<lparr>concreteStore := replicate (os_size os) 0xAB\<rparr>"

section \<open>Flushing\<close>

definition fastRangeCheckOffset :: "full_state \<Rightarrow> expr \<Rightarrow> nat \<times> nat" where
  "fastRangeCheckOffset os offset = (0, os_size os)"

definition with_flushMask :: "full_state \<Rightarrow> full_state" where
  "with_flushMask os =
     os\<lparr>flushMask := Some (case flushMask os of None \<Rightarrow> new_BitArray (os_size os) True | Some b \<Rightarrow> b)\<rparr>"

definition unset_flushed :: "nat \<Rightarrow> full_state \<Rightarrow> full_state" where
  "unset_flushed offset os = os\<lparr>flushMask := map_option (\<lambda>b. ba_unset b offset) (flushMask os)\<rparr>"

text \<open>The current value of an unflushed byte enters the update list.\<close>

definition flush_byte :: "klee_rt \<Rightarrow> nat \<Rightarrow> full_state \<Rightarrow> full_state option" where
  "flush_byte R offset os =
     do { i \<leftarrow> ConstantExpr_create R (of_nat offset) Int32;
          v \<leftarrow> (if isByteConcrete os offset
                then map_option ConstantExpr (ConstantExpr_create R (ucast (concreteStore os ! offset)) Int8)
                else knownSymbolic os offset);
          ul \<leftarrow> extend (ConstantExpr i) v (updates os);
          Some (os\<lparr>updates := ul\<rparr>) }"

definition flushRangeForRead :: "klee_rt \<Rightarrow> nat \<Rightarrow> nat \<Rightarrow> full_state \<Rightarrow> full_state option" where
  "flushRangeForRead R rangeBase rangeSize os =
     for_loop (\<lambda>offset os.
         if \<not> isByteFlushed os offset
         then do { os \<leftarrow> flush_byte R offset os; Some (unset_flushed offset os) }
         else Some os)
       rangeBase rangeSize (with_flushMask os)"

definition clear_cached :: "nat \<Rightarrow> full_state \<Rightarrow> full_state" where
  "clear_cached offset os =
     (if isByteConcrete os offset then markByteSymbolic offset os
      else if isByteKnownSymbolic os offset then setKnownSymbolic offset None os
      else os)"

definition flushRangeForWrite :: "klee_rt \<Rightarrow> nat \<Rightarrow> nat \<Rightarrow> full_state \<Rightarrow> full_state option" where
  "flushRangeForWrite R rangeBase rangeSize os =
     for_loop (\<lambda>offset os.
         if \<not> isByteFlushed os offset
         then do { os \<leftarrow> flush_byte R offset os; Some (unset_flushed offset (clear_cached offset os)) }
         else Some (clear_cached offset os))
       rangeBase rangeSize (with_flushMask os)"

definition isAllConcrete :: "full_state \<Rightarrow> bool option" where
  "isAllConcrete os = (case concreteMask os of None \<Rightarrow> Some True | Some b \<Rightarrow> isAllOnes b (os_size os))"

definition getConcreteStore :: "full_state \<Rightarrow> bool \<Rightarrow> 8 word list option option" where
  "getConcreteStore os allowSymbolic =
     (if allowSymbolic then Some (Some (concreteStore os))
      else do { c \<leftarrow> isAllConcrete os; Some (if c then Some (concreteStore os) else None) })"

section \<open>Bytes\<close>

text \<open>An offset outside the object is undefined behaviour for its arrays, which counts as a failure.\<close>

definition readConcrete8 :: "full_state \<Rightarrow> world \<Rightarrow> nat \<Rightarrow> 8 word option option" where
  "readConcrete8 os w offset =
     (if isSharedConcrete (os_object os) then Some (Some (native w (mo_address (os_object os) + of_nat offset)))
      else do { require (offset < os_size os);
                Some (if isByteConcrete os offset then Some (concreteStore os ! offset) else None) })"

primrec concrete_bytes :: "full_state \<Rightarrow> nat \<Rightarrow> nat \<Rightarrow> bool option" where
  "concrete_bytes os offset 0 = Some True"
| "concrete_bytes os offset (Suc n) =
     do { require (offset < os_size os);
          if isByteConcrete os offset then concrete_bytes os (Suc offset) n else Some False }"

definition isConcrete :: "full_state \<Rightarrow> nat \<Rightarrow> width \<Rightarrow> bool option" where
  "isConcrete os offset width =
     (case concreteMask os of None \<Rightarrow> Some True | Some b \<Rightarrow> concrete_bytes os offset ((width + 7) div 8))"

definition read8 :: "klee_rt \<Rightarrow> memory_rt \<Rightarrow> nat \<Rightarrow> full_state \<times> world \<Rightarrow> (expr \<times> full_state \<times> world) option" where
  "read8 R M offset = (\<lambda>(os, w).
     if \<not> isSharedConcrete (os_object os) then
       do { require (offset < os_size os);
            if isByteConcrete os offset then
              do { c \<leftarrow> ConstantExpr_create R (ucast (concreteStore os ! offset)) Int8; Some (ConstantExpr c, os, w) }
            else (case knownSymbolic os offset of
                    Some e \<Rightarrow> Some (e, os, w)
                  | None \<Rightarrow>
                      do { require (isByteFlushed os offset);
                           ((root, head), os, w) \<leftarrow> getUpdates R M (os, w);
                           i \<leftarrow> ConstantExpr_create R (of_nat offset) Int32;
                           e \<leftarrow> ReadExpr_create R root head (ConstantExpr i);
                           Some (e, os, w) }) }
     else do { c \<leftarrow> ConstantExpr_create R (ucast (native w (mo_address (os_object os) + of_nat offset))) Int8;
               Some (ConstantExpr c, os, w) })"

definition read8_expr :: "klee_rt \<Rightarrow> memory_rt \<Rightarrow> expr \<Rightarrow> full_state \<times> world \<Rightarrow> (expr \<times> full_state \<times> world) option" where
  "read8_expr R M offset = (\<lambda>(os, w).
     do { require (\<not> is_constant offset);
          require (\<not> isSharedConcrete (os_object os));
          let (base, n) = fastRangeCheckOffset os offset;
          os \<leftarrow> flushRangeForRead R base n os;
          ((root, head), os, w) \<leftarrow> getUpdates R M (os, w);
          i \<leftarrow> ZExtExpr_create R offset Int32;
          e \<leftarrow> ReadExpr_create R root head i;
          Some (e, os, w) })"

definition write8_byte :: "nat \<Rightarrow> 8 word \<Rightarrow> full_state \<times> world \<Rightarrow> (full_state \<times> world) option" where
  "write8_byte offset value = (\<lambda>(os, w).
     if \<not> isSharedConcrete (os_object os) then
       do { require (offset < os_size os);
            Some (markByteUnflushed offset (markByteConcrete offset (setKnownSymbolic offset None
                    (os\<lparr>concreteStore := (concreteStore os)[offset := value]\<rparr>))), w) }
     else Some (os, w\<lparr>native := (native w)(mo_address (os_object os) + of_nat offset := value)\<rparr>))"

definition write8 :: "nat \<Rightarrow> expr \<Rightarrow> full_state \<times> world \<Rightarrow> (full_state \<times> world) option" where
  "write8 offset value = (\<lambda>(os, w).
     case dyn_cast_Constant value of
       Some CE \<Rightarrow> do { v \<leftarrow> ConstantExpr_getZExtValue CE 8; write8_byte offset (ucast v) (os, w) }
     | None \<Rightarrow>
         do { require (\<not> isSharedConcrete (os_object os));
              require (offset < os_size os);
              Some (markByteUnflushed offset (markByteSymbolic offset (setKnownSymbolic offset (Some value) os)), w) })"

definition write8_expr :: "klee_rt \<Rightarrow> expr \<Rightarrow> expr \<Rightarrow> full_state \<times> world \<Rightarrow> (full_state \<times> world) option" where
  "write8_expr R offset value = (\<lambda>(os, w).
     do { require (\<not> is_constant offset);
          require (\<not> isSharedConcrete (os_object os));
          let (base, n) = fastRangeCheckOffset os offset;
          os \<leftarrow> flushRangeForWrite R base n os;
          i \<leftarrow> ZExtExpr_create R offset Int32;
          ul \<leftarrow> extend i value (updates os);
          Some (os\<lparr>updates := ul\<rparr>, w) })"

section \<open>Words\<close>

text \<open>The offset of the \<^verbatim>\<open>i\<close>th byte of a value, and 32-bit additions to a constant offset.\<close>

definition byte_index :: "memory_rt \<Rightarrow> nat \<Rightarrow> nat \<Rightarrow> nat" where
  "byte_index M n i = (if isLittleEndian M then i else n - i - 1)"

definition add32 :: "nat \<Rightarrow> nat \<Rightarrow> nat" where
  "add32 a b = (a + b) mod 2 ^ 32"

definition add_index :: "klee_rt \<Rightarrow> expr \<Rightarrow> nat \<Rightarrow> expr option" where
  "add_index R offset idx = do { c \<leftarrow> ConstantExpr_create R (of_nat idx) Int32; AddExpr_create R offset (ConstantExpr c) }"

text \<open>
  The value read so far is a reference that is null at first; using it then is a failure.
\<close>

definition read_step ::
  "klee_rt \<Rightarrow> (nat \<Rightarrow> full_state \<times> world \<Rightarrow> (expr \<times> full_state \<times> world) option)
    \<Rightarrow> nat \<Rightarrow> expr option \<times> full_state \<times> world \<Rightarrow> (expr option \<times> full_state \<times> world) option" where
  "read_step R rd idx = (\<lambda>(Res, s).
     do { (Byte, s) \<leftarrow> rd idx s;
          Res \<leftarrow> (if idx \<noteq> 0 then do { r \<leftarrow> Res; ConcatExpr_create R Byte r } else Some Byte);
          Some (Some Res, s) })"

definition read_const ::
  "klee_rt \<Rightarrow> memory_rt \<Rightarrow> nat \<Rightarrow> width \<Rightarrow> full_state \<times> world \<Rightarrow> (expr option \<times> full_state \<times> world) option" where
  "read_const R M offset width s =
     (if width = Bool then
        do { (b, s) \<leftarrow> read8 R M offset s; e \<leftarrow> ExtractExpr_create R b 0 Bool; Some (Some e, s) }
      else
        do { let NumBytes = width div 8;
             require (width = NumBytes * 8);
             for_loop (\<lambda>i. read_step R (\<lambda>idx. read8 R M (add32 offset idx)) (byte_index M NumBytes i)) 0 NumBytes (None, s) })"

definition read ::
  "klee_rt \<Rightarrow> memory_rt \<Rightarrow> expr \<Rightarrow> width \<Rightarrow> full_state \<times> world \<Rightarrow> (expr option \<times> full_state \<times> world) option" where
  "read R M offset width s =
     do { offset \<leftarrow> ZExtExpr_create R offset Int32;
          case dyn_cast_Constant offset of
            Some CE \<Rightarrow> do { v \<leftarrow> ConstantExpr_getZExtValue CE 32; read_const R M (unat v) width s }
          | None \<Rightarrow>
              if width = Bool then
                do { (b, s) \<leftarrow> read8_expr R M offset s; e \<leftarrow> ExtractExpr_create R b 0 Bool; Some (Some e, s) }
              else
                do { let NumBytes = width div 8;
                     require (width = NumBytes * 8);
                     for_loop (\<lambda>i. read_step R (\<lambda>idx s. do { o' \<leftarrow> add_index R offset idx; read8_expr R M o' s })
                         (byte_index M NumBytes i)) 0 NumBytes (None, s) } }"

text \<open>\<^verbatim>\<open>write16\<close>, \<^verbatim>\<open>write32\<close> and \<^verbatim>\<open>write64\<close> differ in the number of bytes.\<close>

definition write_bytes :: "memory_rt \<Rightarrow> nat \<Rightarrow> nat \<Rightarrow> 64 word \<Rightarrow> full_state \<times> world \<Rightarrow> (full_state \<times> world) option" where
  "write_bytes M NumBytes offset value s =
     for_loop (\<lambda>i. write8_byte (add32 offset (byte_index M NumBytes i)) (ucast (drop_bit (8 * i) value))) 0 NumBytes s"

definition write16 :: "memory_rt \<Rightarrow> nat \<Rightarrow> 16 word \<Rightarrow> full_state \<times> world \<Rightarrow> (full_state \<times> world) option" where
  "write16 M offset value = write_bytes M 2 offset (ucast value)"

definition write32 :: "memory_rt \<Rightarrow> nat \<Rightarrow> 32 word \<Rightarrow> full_state \<times> world \<Rightarrow> (full_state \<times> world) option" where
  "write32 M offset value = write_bytes M 4 offset (ucast value)"

definition write64 :: "memory_rt \<Rightarrow> nat \<Rightarrow> 64 word \<Rightarrow> full_state \<times> world \<Rightarrow> (full_state \<times> world) option" where
  "write64 M offset value = write_bytes M 8 offset value"

definition write_const :: "klee_rt \<Rightarrow> memory_rt \<Rightarrow> nat \<Rightarrow> expr \<Rightarrow> full_state \<times> world \<Rightarrow> (full_state \<times> world) option" where
  "write_const R M offset value s =
     (let w = getWidth value;
          general =
            (if w = Bool then do { b \<leftarrow> ZExtExpr_create R value Int8; write8 offset b s }
             else do { let NumBytes = w div 8;
                       require (w = NumBytes * 8);
                       for_loop (\<lambda>i s. do { b \<leftarrow> ExtractExpr_create R value (8 * i) Int8;
                                            write8 (add32 offset (byte_index M NumBytes i)) b s }) 0 NumBytes s })
      in case dyn_cast_Constant value of
           Some CE \<Rightarrow>
             (if w \<le> 64 then
                do { val \<leftarrow> ConstantExpr_getZExtValue CE 64;
                     if w = Bool \<or> w = Int8 then write8_byte offset (ucast val) s
                     else if w = Int16 then write16 M offset (ucast val) s
                     else if w = Int32 then write32 M offset (ucast val) s
                     else if w = Int64 then write64 M offset val s
                     else None }
              else general)
         | None \<Rightarrow> general)"

definition write_mem :: "klee_rt \<Rightarrow> memory_rt \<Rightarrow> expr \<Rightarrow> expr \<Rightarrow> full_state \<times> world \<Rightarrow> (full_state \<times> world) option" where
  "write_mem R M offset value s =
     do { offset \<leftarrow> ZExtExpr_create R offset Int32;
          case dyn_cast_Constant offset of
            Some CE \<Rightarrow> do { v \<leftarrow> ConstantExpr_getZExtValue CE 32; write_const R M (unat v) value s }
          | None \<Rightarrow>
              (let w = getWidth value in
               if w = Bool then do { b \<leftarrow> ZExtExpr_create R value Int8; write8_expr R offset b s }
               else do { let NumBytes = w div 8;
                         require (w = NumBytes * 8);
                         for_loop (\<lambda>i s. do { o' \<leftarrow> add_index R offset (byte_index M NumBytes i);
                                              b \<leftarrow> ExtractExpr_create R value (8 * i) Int8;
                                              write8_expr R o' b s }) 0 NumBytes s }) }"

end
