(* ===== verification/ObjectContents.thy ===== *)
theory ObjectContents
  imports ObjectMemory
begin

unbundle bit_operations_syntax

text \<open>
  What an \<^verbatim>\<open>ObjectState\<close> stands for: its contents, a byte for every offset, under an assignment of the symbolic
  arrays. The invariant is the one that the comment \<^verbatim>\<open>Cache Invariants\<close> of \<^verbatim>\<open>src/klee/lib/Core/Memory.cpp\<close> states,
  with what keeps the update list in step: a flushed byte that is still cached has its cached value there.
\<close>

section \<open>Contents\<close>

definition zero_array :: "nat \<Rightarrow> klee_array" where
  "zero_array n = \<lparr>arr_addr = 0, arr_name = [], arr_size = n, constantValues = replicate n (APInt Int8 0)\<rparr>"

definition root_array :: "full_state \<Rightarrow> klee_array" where
  "root_array os = (case fst (updates os) of Some a \<Rightarrow> a | None \<Rightarrow> zero_array (os_size os))"

definition update_value :: "assignment \<Rightarrow> full_state \<Rightarrow> nat \<Rightarrow> int" where
  "update_value \<sigma> os i = eval_updates \<sigma> (snd (updates os)) (root_array os) (int i)"

definition content :: "assignment \<Rightarrow> full_state \<Rightarrow> nat \<Rightarrow> int" where
  "content \<sigma> os i =
     (if isByteConcrete os i then uint (concreteStore os ! i)
      else case knownSymbolic os i of Some e \<Rightarrow> eval \<sigma> e | None \<Rightarrow> update_value \<sigma> os i)"

definition byte_expr :: "expr \<Rightarrow> bool" where
  "byte_expr e \<longleftrightarrow> wt e \<and> narrow e \<and> getWidth e = Int8"

definition write_ok :: "nat \<Rightarrow> expr \<times> expr \<Rightarrow> bool" where
  "write_ok n x \<longleftrightarrow> wt (fst x) \<and> narrow (fst x) \<and> getWidth (fst x) = Int32 \<and> byte_expr (snd x)
     \<and> (\<forall>c. fst x = ConstantExpr c \<longrightarrow> apValue c < int n)"

definition shape :: "full_state \<Rightarrow> bool" where
  "shape os \<longleftrightarrow>
     \<not> isSharedConcrete (os_object os) \<and> os_size os < 2 ^ 32 \<and> length (concreteStore os) = os_size os
     \<and> (\<forall>b. concreteMask os = Some b \<longrightarrow> ba_valid (os_size os) b)
     \<and> (\<forall>b. flushMask os = Some b \<longrightarrow> ba_valid (os_size os) b)
     \<and> (\<forall>ks. knownSymbolics os = Some ks \<longrightarrow> length ks = os_size os \<and> (\<forall>e. Some e \<in> set ks \<longrightarrow> byte_expr e))
     \<and> (\<forall>x \<in> set (Writes (snd (updates os))). write_ok (os_size os) x)
     \<and> (\<forall>a. fst (updates os) = Some a \<longrightarrow> array_ok a \<and> arr_size a = os_size os)"

definition byte_ok :: "full_state \<Rightarrow> nat \<Rightarrow> bool" where
  "byte_ok os i \<longleftrightarrow>
     (isByteKnownSymbolic os i \<longrightarrow> \<not> isByteConcrete os i)
     \<and> (\<not> isByteFlushed os i \<longrightarrow> isByteConcrete os i \<or> isByteKnownSymbolic os i)
     \<and> (isByteFlushed os i \<longrightarrow> (\<forall>\<sigma>. update_value \<sigma> os i = content \<sigma> os i))"

definition os_ok :: "full_state \<Rightarrow> bool" where
  "os_ok os \<longleftrightarrow> shape os \<and> (\<forall>i<os_size os. byte_ok os i)"

text \<open>The reads inside the stored expressions are within constant arrays.\<close>

definition os_safe :: "assignment \<Rightarrow> full_state \<Rightarrow> bool" where
  "os_safe \<sigma> os \<longleftrightarrow>
     (\<forall>i<os_size os. \<forall>e. knownSymbolic os i = Some e \<longrightarrow> in_bounds \<sigma> e) \<and> in_bounds_updates \<sigma> (snd (updates os))"

section \<open>Loops\<close>

lemma for_loop_rule:
  assumes "P i s" and "\<And>j s. i \<le> j \<Longrightarrow> j < i + n \<Longrightarrow> P j s \<Longrightarrow> \<exists>s'. f j s = Some s' \<and> P (Suc j) s'"
  shows "\<exists>s'. for_loop f i n s = Some s' \<and> P (i + n) s'"
  using assms
proof (induction n arbitrary: i s)
  case (Suc n)
  then obtain s' where "f i s = Some s'" "P (Suc i) s'" by force
  with Suc.IH [of "Suc i" s'] Suc.prems(2) show ?case by simp
qed simp

section \<open>Update lists as lists of writes\<close>

definition apply_write :: "assignment \<Rightarrow> int \<Rightarrow> int \<Rightarrow> expr \<times> expr \<Rightarrow> int" where
  "apply_write \<sigma> i v x = (if eval \<sigma> (fst x) = i then eval \<sigma> (snd x) else v)"

lemma eval_updates_Writes: "eval_updates \<sigma> u a i = foldl (apply_write \<sigma> i) (initial_value \<sigma> a i) (Writes u)"
  by (induction u rule: update_node_induct) (auto simp: apply_write_def)

lemma in_bounds_Writes:
  "in_bounds_updates \<sigma> u \<longleftrightarrow> (\<forall>x \<in> set (Writes u). in_bounds \<sigma> (fst x) \<and> in_bounds \<sigma> (snd x))"
  by (induction u rule: update_node_induct) auto

lemma wt_Writes:
  "\<forall>x \<in> set (Writes u). write_ok n x \<Longrightarrow> wt_updates u \<and> narrow_updates u"
  by (induction u rule: update_node_induct) (auto simp: write_ok_def byte_expr_def)

lemma extend_all_Writes:
  "\<forall>x \<in> set ws. byte_expr (snd x) \<Longrightarrow> \<exists>u'. extend_all ws (r, u) = Some (r, u') \<and> Writes u' = Writes u @ ws"
proof (induction ws arbitrary: u)
  case (Cons x ws)
  then show ?case using Cons.IH [of "UpdateNode (fst x) (snd x) u"] by (cases x) (auto simp: extend_def byte_expr_def)
qed simp

definition bytes_ok :: "nat \<Rightarrow> apint list \<Rightarrow> bool" where
  "bytes_ok n cs \<longleftrightarrow> length cs = n \<and> (\<forall>c \<in> set cs. ap_wf c \<and> getBitWidth c = Int8)"

lemma bytes_ok_update: "bytes_ok n cs \<Longrightarrow> ap_wf c \<Longrightarrow> getBitWidth c = Int8 \<Longrightarrow> bytes_ok n (cs[i := c])"
  using set_update_subset_insert [of cs i c] by (auto simp: bytes_ok_def)

lemma pull_writes_ok:
  assumes "bytes_ok n cs" "\<forall>x \<in> set ws. write_ok n x"
  shows "\<exists>cs' ws'. pull_writes cs ws = Some (cs', ws') \<and> bytes_ok n cs' \<and> set ws' \<subseteq> set ws
    \<and> (\<forall>\<sigma> i. i < n \<longrightarrow> foldl (apply_write \<sigma> (int i)) (apValue (cs' ! i)) ws' = foldl (apply_write \<sigma> (int i)) (apValue (cs ! i)) ws)"
  using assms
proof (induction cs ws rule: pull_writes.induct)
  case (1 cs i v ws)
  have w: "ap_wf i" "getBitWidth i = Int32" "ap_wf v" "getBitWidth v = Int8" "apValue i < int n"
    using "1.prems"(2) by (auto simp: write_ok_def byte_expr_def)
  then obtain x where x: "ConstantExpr_getZExtValue i 64 = Some x" "uint x = apValue i"
    using getZExtValue_narrow [of i 64] getZExtValue_Some(2) [of i 64] by auto
  have u: "apValue i = int (unat x)" using x(2) by simp
  have e: "apValue i = int k \<longleftrightarrow> unat x = k" for k unfolding u by (simp only: of_nat_eq_iff)
  have "unat x < n" using w(5) unfolding u by (simp only: of_nat_less_iff)
  then have l: "unat x < length cs" using "1.prems"(1) by (simp add: bytes_ok_def)
  from "1.IH" [OF x(1) _ bytes_ok_update [OF "1.prems"(1) w(3,4)]] l "1.prems"(2) obtain cs' ws' where
    p: "pull_writes (cs[unat x := v]) ws = Some (cs', ws')" "bytes_ok n cs'" "set ws' \<subseteq> set ws"
    "\<And>\<sigma> i. i < n \<Longrightarrow> foldl (apply_write \<sigma> (int i)) (apValue (cs' ! i)) ws' = foldl (apply_write \<sigma> (int i)) (apValue (cs[unat x := v] ! i)) ws"
    by auto
  have "apValue (cs[unat x := v] ! k) = apply_write \<sigma> (int k) (apValue (cs ! k)) (ConstantExpr i, ConstantExpr v)" if "k < n" for \<sigma> k
    using that l "1.prems"(1) by (auto simp: apply_write_def nth_list_update bytes_ok_def e)
  with p x(1) l show ?case by auto
qed auto

section \<open>What the primitive operations change\<close>

lemma shape_masks:
  "shape os \<Longrightarrow> concreteMask os = Some b \<Longrightarrow> ba_valid (os_size os) b"
  "shape os \<Longrightarrow> flushMask os = Some b \<Longrightarrow> ba_valid (os_size os) b"
  "shape os \<Longrightarrow> knownSymbolics os = Some ks \<Longrightarrow> length ks = os_size os"
  by (auto simp: shape_def)

lemmas mark_defs = markByteConcrete_def markByteSymbolic_def markByteUnflushed_def unset_flushed_def with_flushMask_def

text \<open>Every primitive operation changes one of the observations of a byte and leaves the other fields.\<close>

lemma mark_fields [simp]:
  "os_size (markByteConcrete i os) = os_size os" "os_size (markByteSymbolic i os) = os_size os"
  "os_size (markByteUnflushed i os) = os_size os" "os_size (unset_flushed i os) = os_size os"
  "os_size (with_flushMask os) = os_size os" "os_size (setKnownSymbolic i v os) = os_size os"
  "os_object (markByteConcrete i os) = os_object os" "os_object (markByteSymbolic i os) = os_object os"
  "os_object (markByteUnflushed i os) = os_object os" "os_object (unset_flushed i os) = os_object os"
  "os_object (with_flushMask os) = os_object os" "os_object (setKnownSymbolic i v os) = os_object os"
  "updates (markByteConcrete i os) = updates os" "updates (markByteSymbolic i os) = updates os"
  "updates (markByteUnflushed i os) = updates os" "updates (unset_flushed i os) = updates os"
  "updates (with_flushMask os) = updates os" "updates (setKnownSymbolic i v os) = updates os"
  "concreteStore (markByteConcrete i os) = concreteStore os" "concreteStore (markByteSymbolic i os) = concreteStore os"
  "concreteStore (markByteUnflushed i os) = concreteStore os" "concreteStore (unset_flushed i os) = concreteStore os"
  "concreteStore (with_flushMask os) = concreteStore os" "concreteStore (setKnownSymbolic i v os) = concreteStore os"
  by (auto simp: mark_defs setKnownSymbolic_def split: option.splits)

lemma mark_other [simp]:
  "isByteConcrete (markByteUnflushed i os) j = isByteConcrete os j" "isByteConcrete (unset_flushed i os) j = isByteConcrete os j"
  "isByteConcrete (with_flushMask os) j = isByteConcrete os j" "isByteConcrete (setKnownSymbolic i v os) j = isByteConcrete os j"
  "isByteFlushed (markByteConcrete i os) j = isByteFlushed os j" "isByteFlushed (markByteSymbolic i os) j = isByteFlushed os j"
  "isByteFlushed (setKnownSymbolic i v os) j = isByteFlushed os j"
  "knownSymbolic (markByteConcrete i os) j = knownSymbolic os j" "knownSymbolic (markByteSymbolic i os) j = knownSymbolic os j"
  "knownSymbolic (markByteUnflushed i os) j = knownSymbolic os j" "knownSymbolic (unset_flushed i os) j = knownSymbolic os j"
  "knownSymbolic (with_flushMask os) j = knownSymbolic os j"
  by (auto simp: mark_defs setKnownSymbolic_def isByteConcrete_def isByteFlushed_def knownSymbolic_def split: option.splits)

lemma mark_own:
  assumes "shape os" "i < os_size os" "j < os_size os"
  shows "isByteConcrete (markByteConcrete i os) j \<longleftrightarrow> i = j \<or> isByteConcrete os j"
    "isByteConcrete (markByteSymbolic i os) j \<longleftrightarrow> i \<noteq> j \<and> isByteConcrete os j"
    "isByteFlushed (markByteUnflushed i os) j \<longleftrightarrow> i \<noteq> j \<and> isByteFlushed os j"
    "flushMask os \<noteq> None \<Longrightarrow> isByteFlushed (unset_flushed i os) j \<longleftrightarrow> i = j \<or> isByteFlushed os j"
    "knownSymbolic (setKnownSymbolic i v os) j = (if i = j then v else knownSymbolic os j)"
  using assms shape_masks [OF assms(1)]
  by (auto simp: mark_defs setKnownSymbolic_def isByteConcrete_def isByteFlushed_def knownSymbolic_def
      ba.get_new ba.get_set ba.get_unset ba.get_unset [OF ba.valid_new] nth_list_update split: option.splits)

lemma with_flushMask_flushed [simp]:
  "j < os_size os \<Longrightarrow> isByteFlushed (with_flushMask os) j = isByteFlushed os j" "flushMask (with_flushMask os) \<noteq> None"
  by (auto simp: mark_defs isByteFlushed_def ba.get_new split: option.splits)

lemma flushMask_kept [simp]:
  "flushMask (unset_flushed i os) = None \<longleftrightarrow> flushMask os = None" "flushMask (markByteSymbolic i os) = flushMask os"
  "flushMask (setKnownSymbolic i v os) = flushMask os"
  "(\<exists>b. flushMask (unset_flushed i os) = Some b) \<longleftrightarrow> (\<exists>b. flushMask os = Some b)"
  by (auto simp: mark_defs setKnownSymbolic_def split: option.splits)

lemma mark_shape [simp]:
  assumes "shape os"
  shows "shape (markByteConcrete i os)" "shape (markByteSymbolic i os)" "shape (markByteUnflushed i os)"
    "shape (unset_flushed i os)" "shape (with_flushMask os)"
  using assms by (auto simp: shape_def mark_defs ba.valid_rules split: option.splits)

lemma setKnownSymbolic_shape [simp]:
  assumes "shape os" "\<And>e. v = Some e \<Longrightarrow> byte_expr e"
  shows "shape (setKnownSymbolic i v os)"
proof -
  have "byte_expr e" if "Some e \<in> set (ks[i := v])" "\<forall>e. Some e \<in> set ks \<longrightarrow> byte_expr e" for e ks
    using that assms(2) set_update_subset_insert [of ks i v] by auto
  moreover have "byte_expr e" if "Some e \<in> set ((replicate n None)[i := v])" for e n
    using that assms(2) set_update_subset_insert [of "replicate n None" i v] by (auto dest: subsetD)
  ultimately show ?thesis using assms(1) by (auto simp: shape_def setKnownSymbolic_def split: option.splits)
qed

lemmas forget_shape [simp] = setKnownSymbolic_shape [where v = None, simplified]

section \<open>Flushing keeps the contents\<close>

definition same_bytes :: "full_state \<Rightarrow> full_state \<Rightarrow> bool" where
  "same_bytes os os' \<longleftrightarrow> os_size os' = os_size os \<and> os_object os' = os_object os
     \<and> (\<forall>\<sigma>. \<forall>i<os_size os. content \<sigma> os' i = content \<sigma> os i) \<and> (\<forall>\<sigma>. os_safe \<sigma> os \<longrightarrow> os_safe \<sigma> os')"

lemma same_bytes_refl [simp]: "same_bytes os os"
  by (simp add: same_bytes_def)

lemma same_bytes_trans: "same_bytes a b \<Longrightarrow> same_bytes b c \<Longrightarrow> same_bytes a c"
  by (simp add: same_bytes_def)

lemma known_iff: "isByteKnownSymbolic os i \<longleftrightarrow> (\<exists>e. knownSymbolic os i = Some e)"
  by (auto simp: isByteKnownSymbolic_def)

lemma os_okD:
  "os_ok os \<Longrightarrow> shape os"
  "os_ok os \<Longrightarrow> i < os_size os \<Longrightarrow> byte_ok os i"
  by (simp_all add: os_ok_def)

lemma zero_array_ok: "n < 2 ^ 32 \<Longrightarrow> array_ok (zero_array n)"
  by (simp add: zero_array_def array_ok_def ap_wf_def)

lemma root_array_ok: "shape os \<Longrightarrow> array_ok (root_array os)"
  by (cases "fst (updates os)") (simp_all add: shape_def root_array_def zero_array_ok)

lemma shape_known: "shape os \<Longrightarrow> i < os_size os \<Longrightarrow> knownSymbolic os i = Some e \<Longrightarrow> byte_expr e"
  by (auto simp: shape_def knownSymbolic_def split: option.splits) (metis nth_mem)

text \<open>Only the update list changes.\<close>

lemma updates_fields [simp]:
  "isByteConcrete (os\<lparr>updates := ul\<rparr>) i = isByteConcrete os i" "isByteFlushed (os\<lparr>updates := ul\<rparr>) i = isByteFlushed os i"
  "knownSymbolic (os\<lparr>updates := ul\<rparr>) i = knownSymbolic os i"
  by (simp_all add: isByteConcrete_def isByteFlushed_def knownSymbolic_def)

lemma updates_shape:
  assumes "shape os" "\<forall>x \<in> set (Writes (snd ul)). write_ok (os_size os) x"
    "\<And>a. fst ul = Some a \<Longrightarrow> array_ok a \<and> arr_size a = os_size os"
  shows "shape (os\<lparr>updates := ul\<rparr>)"
  using assms by (auto simp: shape_def)

lemma update_value_mark [simp]:
  "update_value \<sigma> (markByteConcrete j os) i = update_value \<sigma> os i" "update_value \<sigma> (markByteSymbolic j os) i = update_value \<sigma> os i"
  "update_value \<sigma> (markByteUnflushed j os) i = update_value \<sigma> os i" "update_value \<sigma> (unset_flushed j os) i = update_value \<sigma> os i"
  "update_value \<sigma> (with_flushMask os) i = update_value \<sigma> os i" "update_value \<sigma> (setKnownSymbolic j v os) i = update_value \<sigma> os i"
  "update_value \<sigma> (os\<lparr>concreteStore := s\<rparr>) i = update_value \<sigma> os i"
  by (simp_all add: update_value_def root_array_def cong: option.case_cong)

lemma with_flushMask_ok: "os_ok os \<Longrightarrow> os_ok (with_flushMask os) \<and> same_bytes os (with_flushMask os)"
  by (auto simp: os_ok_def byte_ok_def same_bytes_def content_def os_safe_def isByteKnownSymbolic_def split: option.splits)

lemma clear_cached_fields [simp]:
  "os_size (clear_cached i os) = os_size os" "os_object (clear_cached i os) = os_object os"
  "updates (clear_cached i os) = updates os" "concreteStore (clear_cached i os) = concreteStore os"
  "flushMask (clear_cached i os) = flushMask os" "isByteFlushed (clear_cached i os) j = isByteFlushed os j"
  "update_value \<sigma> (clear_cached i os) j = update_value \<sigma> os j"
  by (auto simp: clear_cached_def)

lemma clear_cached_shape [simp]: "shape os \<Longrightarrow> shape (clear_cached i os)"
  by (auto simp: clear_cached_def)

lemma clear_cached_own:
  assumes "shape os" "i < os_size os" "j < os_size os" "isByteKnownSymbolic os i \<longrightarrow> \<not> isByteConcrete os i"
  shows "isByteConcrete (clear_cached i os) j \<longleftrightarrow> i \<noteq> j \<and> isByteConcrete os j"
    "knownSymbolic (clear_cached i os) j = (if i = j then None else knownSymbolic os j)"
  using assms by (auto simp: clear_cached_def mark_own isByteKnownSymbolic_def)

text \<open>
  How far a flushing loop has come, and what reading and storing one byte mean for the contents; the offset and the
  value depend on the assignment.
\<close>

definition flushed_to :: "nat \<Rightarrow> full_state \<Rightarrow> full_state \<Rightarrow> bool" where
  "flushed_to k os s \<longleftrightarrow> os_ok s \<and> same_bytes os s \<and> flushMask s \<noteq> None \<and> (\<forall>j<k. isByteFlushed s j)"

definition cleared_to :: "nat \<Rightarrow> full_state \<Rightarrow> full_state \<Rightarrow> bool" where
  "cleared_to k os s \<longleftrightarrow> flushed_to k os s \<and> (\<forall>j<k. \<not> isByteConcrete s j \<and> knownSymbolic s j = None)"

definition reads_byte :: "full_state \<Rightarrow> (assignment \<Rightarrow> bool) \<Rightarrow> (assignment \<Rightarrow> int) \<Rightarrow> (expr \<times> full_state \<times> world) option \<Rightarrow> bool" where
  "reads_byte os P off r \<longleftrightarrow> (\<exists>e os' w'. r = Some (e, os', w') \<and> byte_expr e \<and> os_ok os' \<and> same_bytes os os'
     \<and> (\<forall>\<sigma>. os_safe \<sigma> os \<and> P \<sigma> \<and> off \<sigma> < int (os_size os) \<longrightarrow> eval \<sigma> e = content \<sigma> os (nat (off \<sigma>))))"

definition stores_byte ::
  "full_state \<Rightarrow> (assignment \<Rightarrow> bool) \<Rightarrow> (assignment \<Rightarrow> int) \<Rightarrow> (assignment \<Rightarrow> int) \<Rightarrow> (full_state \<times> world) option \<Rightarrow> bool" where
  "stores_byte os P off v r \<longleftrightarrow> (\<exists>os' w'. r = Some (os', w') \<and> os_ok os' \<and> os_size os' = os_size os \<and> os_object os' = os_object os
     \<and> (\<forall>\<sigma>. \<forall>i<os_size os. content \<sigma> os' i = (if int i = off \<sigma> then v \<sigma> else content \<sigma> os i))
     \<and> (\<forall>\<sigma>. os_safe \<sigma> os \<and> P \<sigma> \<longrightarrow> os_safe \<sigma> os'))"

context klee_rt_laws
begin

lemma create_nat: "i < 2 ^ 32 \<Longrightarrow> ConstantExpr_create R (of_nat i) Int32 = Some (APInt Int32 (int i))"
  by (simp add: ConstantExpr_create_def truncateToNBits_eq alloc_simp unsigned_of_nat take_bit_nat_eq_self
      take_bit_int_eq_self flip: of_nat_take_bit) 

lemma create_byte: "ConstantExpr_create R (ucast (b :: 8 word)) Int8 = Some (APInt Int8 (uint b))"
proof -
  have "take_bit Int8 (ucast b) = (ucast b :: 64 word)"
    by (rule bit_word_eqI) (auto simp: bit_take_bit_iff bit_ucast_iff dest: bit_imp_le_length)
  then show ?thesis
    using uint_lt2p [of b]
    by (simp add: ConstantExpr_create_def truncateToNBits_eq alloc_simp uint_up_ucast is_up take_bit_int_eq_self)
qed

lemma create_constants_ok:
  "wt (ConstantExpr (APInt Int8 (uint (b :: 8 word))))" "i < 2 ^ 32 \<Longrightarrow> wt (ConstantExpr (APInt Int32 (int i)))"
  using uint_lt2p [of b] by (auto simp: ap_wf_def bv_def)

text \<open>An unflushed byte enters the update list with its current value.\<close>

lemma flush_byte_ok:
  assumes "os_ok os" "i < os_size os" "\<not> isByteFlushed os i"
  shows "\<exists>ul. flush_byte R i os = Some (os\<lparr>updates := ul\<rparr>) \<and> shape (os\<lparr>updates := ul\<rparr>)
    \<and> (\<forall>\<sigma>. \<forall>j<os_size os. update_value \<sigma> (os\<lparr>updates := ul\<rparr>) j = (if j = i then content \<sigma> os i else update_value \<sigma> os j))
    \<and> (\<forall>\<sigma>. os_safe \<sigma> os \<longrightarrow> in_bounds_updates \<sigma> (snd ul))"
proof -
  note s = os_okD(1) [OF assms(1)]
  have n: "i < 2 ^ 32" using s assms(2) by (simp add: shape_def)
  obtain v where v: "byte_expr v" "\<And>\<sigma>. eval \<sigma> v = content \<sigma> os i" "\<And>\<sigma>. os_safe \<sigma> os \<Longrightarrow> in_bounds \<sigma> v"
    "(if isByteConcrete os i then map_option ConstantExpr (ConstantExpr_create R (ucast (concreteStore os ! i)) Int8)
                else knownSymbolic os i) = Some v"
  proof (cases "isByteConcrete os i")
    case True
    with that [of "ConstantExpr (APInt Int8 (uint (concreteStore os ! i)))"] create_constants_ok(1) show ?thesis
      by (auto simp: create_byte byte_expr_def content_def)
  next
    case False
    with os_okD(2) [OF assms(1,2)] assms(3) obtain e where "knownSymbolic os i = Some e" by (auto simp: byte_ok_def known_iff)
    with False that [of e] shape_known [OF s assms(2)] assms(2) show ?thesis by (auto simp: content_def os_safe_def)
  qed
  let ?ul = "(fst (updates os), UpdateNode (ConstantExpr (APInt Int32 (int i))) v (snd (updates os)))"
  have "flush_byte R i os = Some (os\<lparr>updates := ?ul\<rparr>)"
    using v(1) by (simp only: flush_byte_def create_nat [OF n] v(4) extend_def byte_expr_def) simp
  moreover have "shape (os\<lparr>updates := ?ul\<rparr>)"
    using s v(1) create_constants_ok(2) [OF n] assms(2)
    by (intro updates_shape) (auto simp: shape_def write_ok_def)
  moreover have "update_value \<sigma> (os\<lparr>updates := ?ul\<rparr>) j = (if j = i then content \<sigma> os i else update_value \<sigma> os j)" for \<sigma> j
    using v(2) by (auto simp: update_value_def root_array_def cong: option.case_cong)
  moreover have "os_safe \<sigma> os \<Longrightarrow> in_bounds_updates \<sigma> (snd ?ul)" for \<sigma>
    using v(3) by (simp add: os_safe_def)
  ultimately show ?thesis by blast
qed

text \<open>One step of each flushing loop.\<close>

lemma flush_read_step:
  assumes "flushed_to i os s" "i < os_size os"
  shows "\<exists>s'. (if \<not> isByteFlushed s i then do { s \<leftarrow> flush_byte R i s; Some (unset_flushed i s) } else Some s) = Some s'
    \<and> flushed_to (Suc i) os s'"
proof (cases "isByteFlushed s i")
  case True
  with assms show ?thesis by (auto simp: flushed_to_def less_Suc_eq)
next
  case False
  have s: "os_ok s" "same_bytes os s" "flushMask s \<noteq> None" "i < os_size s" "\<And>j. j < i \<Longrightarrow> isByteFlushed s j"
    using assms by (auto simp: flushed_to_def same_bytes_def)
  obtain ul where u: "flush_byte R i s = Some (s\<lparr>updates := ul\<rparr>)" "shape (s\<lparr>updates := ul\<rparr>)"
    "\<And>\<sigma> j. j < os_size s \<Longrightarrow> update_value \<sigma> (s\<lparr>updates := ul\<rparr>) j = (if j = i then content \<sigma> s i else update_value \<sigma> s j)"
    "\<And>\<sigma>. os_safe \<sigma> s \<Longrightarrow> in_bounds_updates \<sigma> (snd ul)"
    using flush_byte_ok [OF s(1,4) False] by blast
  let ?t = "unset_flushed i (s\<lparr>updates := ul\<rparr>)"
  have f: "isByteFlushed ?t j \<longleftrightarrow> i = j \<or> isByteFlushed s j" if "j < os_size s" for j
    using mark_own(4) [OF u(2), of i j] s(3,4) that by simp
  have c: "content \<sigma> ?t j = content \<sigma> s j" if "j < os_size s" for \<sigma> j
    using os_okD(2) [OF s(1,4)] False u(3) [OF that, of \<sigma>] by (auto simp: content_def byte_ok_def known_iff split: option.splits)
  have "byte_ok ?t j" if "j < os_size s" for j
    using os_okD(2) [OF s(1) that] u(3) [OF that] c [OF that] f [OF that]
    by (auto simp: byte_ok_def isByteKnownSymbolic_def)
  then have "os_ok ?t" using u(2) by (simp add: os_ok_def)
  moreover have "same_bytes s ?t" using c u(4) by (auto simp: same_bytes_def os_safe_def)
  then have "same_bytes os ?t" using s(2) same_bytes_trans by blast
  moreover have "\<forall>j<Suc i. isByteFlushed ?t j" using f s(4,5) by (auto simp: less_Suc_eq)
  ultimately show ?thesis using False u(1) s(3) by (simp add: flushed_to_def)
qed

lemma clear_cached_ok:
  assumes "os_ok s" "i < os_size s" "isByteFlushed s i"
  shows "os_ok (clear_cached i s) \<and> same_bytes s (clear_cached i s)"
proof -
  have k: "isByteKnownSymbolic s i \<longrightarrow> \<not> isByteConcrete s i" using os_okD(2) [OF assms(1,2)] by (simp add: byte_ok_def)
  note o = clear_cached_own [OF os_okD(1) [OF assms(1)] assms(2) _ k]
  have c: "content \<sigma> (clear_cached i s) j = content \<sigma> s j" if "j < os_size s" for \<sigma> j
    using os_okD(2) [OF assms(1,2)] assms(3) o [OF that] by (auto simp: content_def byte_ok_def split: option.splits)
  have "byte_ok (clear_cached i s) j" if "j < os_size s" for j
    using os_okD(2) [OF assms(1) that] o [OF that] c [OF that] assms(3) by (auto simp: byte_ok_def isByteKnownSymbolic_def)
  with c o show ?thesis using assms(1) by (auto simp: os_ok_def same_bytes_def os_safe_def split: if_splits)
qed

lemma unset_clear_cached: "unset_flushed i (clear_cached i s) = clear_cached i (unset_flushed i s)"
  by (auto simp: clear_cached_def unset_flushed_def markByteSymbolic_def setKnownSymbolic_def isByteConcrete_def
      isByteKnownSymbolic_def knownSymbolic_def split: option.splits)

lemma flush_write_step:
  assumes "cleared_to i os s" "i < os_size os"
  shows "\<exists>s'. (if \<not> isByteFlushed s i then do { s \<leftarrow> flush_byte R i s; Some (unset_flushed i (clear_cached i s)) }
      else Some (clear_cached i s)) = Some s' \<and> cleared_to (Suc i) os s'"
proof -
  obtain s1 where s1: "flushed_to (Suc i) os s1" "(if \<not> isByteFlushed s i then do { s \<leftarrow> flush_byte R i s; Some (unset_flushed i s) } else Some s) = Some s1"
    using flush_read_step [of i os s] assms unfolding cleared_to_def by blast
  then have e: "(if \<not> isByteFlushed s i then do { s \<leftarrow> flush_byte R i s; Some (unset_flushed i (clear_cached i s)) }
      else Some (clear_cached i s)) = Some (clear_cached i s1)"
    by (auto simp: unset_clear_cached option_bind_simps split: if_splits)
  have i: "i < os_size s1" "os_ok s1" "isByteFlushed s1 i" "same_bytes os s1" using s1(1) assms(2) by (auto simp: flushed_to_def same_bytes_def)
  have k: "isByteKnownSymbolic s1 i \<longrightarrow> \<not> isByteConcrete s1 i" using os_okD(2) [OF i(2,1)] by (simp add: byte_ok_def)
  have old: "isByteConcrete s1 j = isByteConcrete s j" "knownSymbolic s1 j = knownSymbolic s j" for j
    using s1(2) by (auto simp: option_bind_simps flush_byte_def extend_def split: if_splits)
  have "\<forall>j<Suc i. \<not> isByteConcrete (clear_cached i s1) j \<and> knownSymbolic (clear_cached i s1) j = None"
    using clear_cached_own [OF os_okD(1) [OF i(2)] i(1) _ k] i(1) assms(1) old by (auto simp: cleared_to_def less_Suc_eq)
  with clear_cached_ok [OF i(2,1,3)] i(4) s1(1) same_bytes_trans have "cleared_to (Suc i) os (clear_cached i s1)"
    unfolding cleared_to_def flushed_to_def by simp blast
  with e show ?thesis by blast
qed

lemma flushRangeForRead_ok:
  assumes "os_ok os"
  shows "\<exists>s. flushRangeForRead R 0 (os_size os) os = Some s \<and> flushed_to (os_size os) os s"
proof -
  have "flushed_to 0 os (with_flushMask os)" using with_flushMask_ok [OF assms] by (simp add: flushed_to_def)
  from for_loop_rule [where P = "\<lambda>k s. flushed_to k os s", OF this, of "os_size os"] flush_read_step [of _ os]
  show ?thesis by (simp add: flushRangeForRead_def)
qed

lemma flushRangeForWrite_ok:
  assumes "os_ok os"
  shows "\<exists>s. flushRangeForWrite R 0 (os_size os) os = Some s \<and> cleared_to (os_size os) os s"
proof -
  have "cleared_to 0 os (with_flushMask os)" using with_flushMask_ok [OF assms] by (simp add: flushed_to_def cleared_to_def)
  from for_loop_rule [where P = "\<lambda>k s. cleared_to k os s", OF this, of "os_size os"] flush_write_step [of _ os]
  show ?thesis by (simp add: flushRangeForWrite_def)
qed

section \<open>The constant array is created without a change\<close>

lemma getUpdates_ok:
  assumes "os_ok os"
  shows "\<exists>a u os' w'. getUpdates R M (os, w) = Some ((a, u), os', w') \<and> updates os' = (Some a, u) \<and> os_ok os' \<and> same_bytes os os'
    \<and> (\<forall>i. isByteFlushed os' i = isByteFlushed os i)"
proof (cases "fst (updates os)")
  case (Some a)
  with assms show ?thesis by (cases "updates os") (simp add: getUpdates_def)
next
  case None
  note s = os_okD(1) [OF assms]
  have wr: "\<forall>x \<in> set (Writes (snd (updates os))). write_ok (os_size os) x" and n: "os_size os < 2 ^ 32" using s by (simp_all add: shape_def)
  have z: "bytes_ok (os_size os) (replicate (os_size os) (APInt Int8 0))" by (auto simp: bytes_ok_def ap_wf_def)
  obtain cs ws where p: "pull_writes (replicate (os_size os) (APInt Int8 0)) (Writes (snd (updates os))) = Some (cs, ws)"
    "bytes_ok (os_size os) cs" "set ws \<subseteq> set (Writes (snd (updates os)))"
    "\<And>\<sigma> i. i < os_size os \<Longrightarrow> foldl (apply_write \<sigma> (int i)) (apValue (cs ! i)) ws =
      foldl (apply_write \<sigma> (int i)) (apValue (replicate (os_size os) (APInt Int8 0) ! i)) (Writes (snd (updates os)))"
    using pull_writes_ok [OF z wr] by blast
  define name where "name = ''const_arr'' @ utostr M (const_arr_id w + 1)"
  define a where "a = \<lparr>arr_addr = new_address M name, arr_name = name, arr_size = os_size os, constantValues = cs\<rparr>"
  have "\<forall>x \<in> set ws. byte_expr (snd x)" using p(3) wr by (auto simp: write_ok_def)
  then obtain u where u: "extend_all ws (Some a, NoUpdate) = Some (Some a, u)" "Writes u = ws"
    using extend_all_Writes [of ws "Some a" NoUpdate] by auto
  have g: "getUpdates R M (os, w) = Some ((a, u), os\<lparr>updates := (Some a, u)\<rparr>, w\<lparr>const_arr_id := const_arr_id w + 1\<rparr>)"
    using None p(1) u(1) by (simp add: getUpdates_def create_0 a_def name_def Let_def)
  have a: "array_ok a" "arr_size a = os_size os" using p(2) n by (auto simp: a_def array_ok_def bytes_ok_def)
  have "initial_value \<sigma> a (int i) = apValue (cs ! i)" if "i < os_size os" for \<sigma> i
    using that p(2) by (auto simp: initial_value_def isConstantArray_def isSymbolicArray_def a_def bytes_ok_def)
  moreover have "initial_value \<sigma> (zero_array (os_size os)) (int i) = 0" if "i < os_size os" for \<sigma> i
    using that by (auto simp: initial_value_def isConstantArray_def isSymbolicArray_def zero_array_def)
  ultimately have v: "update_value \<sigma> (os\<lparr>updates := (Some a, u)\<rparr>) i = update_value \<sigma> os i" if "i < os_size os" for \<sigma> i
    using that p(4) [OF that, of \<sigma>] u(2) None by (simp add: update_value_def root_array_def eval_updates_Writes)
  have c: "content \<sigma> (os\<lparr>updates := (Some a, u)\<rparr>) i = content \<sigma> os i" if "i < os_size os" for \<sigma> i
    using v [OF that] by (simp add: content_def cong: option.case_cong)
  have "shape (os\<lparr>updates := (Some a, u)\<rparr>)" using updates_shape [OF s, of "(Some a, u)"] u(2) p(3) wr a by auto
  with v c assms have "os_ok (os\<lparr>updates := (Some a, u)\<rparr>)" by (auto simp: os_ok_def byte_ok_def isByteKnownSymbolic_def)
  moreover have "same_bytes os (os\<lparr>updates := (Some a, u)\<rparr>)" using c u(2) p(3) by (auto simp: same_bytes_def os_safe_def in_bounds_Writes)
  ultimately show ?thesis using g by simp
qed

section \<open>Reading and writing a byte\<close>

lemma read_updates_ok:
  assumes "os_ok os" "updates os = (Some a, u)" "wt i" "narrow i" "getWidth i = Int32"
  shows "\<exists>e. ReadExpr_create R a u i = Some e \<and> byte_expr e
    \<and> (\<forall>\<sigma>. os_safe \<sigma> os \<and> in_bounds \<sigma> i \<longrightarrow> eval \<sigma> e = update_value \<sigma> os (nat (eval \<sigma> i)))"
proof -
  have a: "array_ok a" using os_okD(1) [OF assms(1)] assms(2) by (simp add: shape_def)
  have u: "wt_updates u" "narrow_updates u"
    using wt_Writes [of u "os_size os"] os_okD(1) [OF assms(1)] assms(2) by (simp_all add: shape_def)
  obtain e where e: "ReadExpr_create R a u i = Some e" "narrow e" using read_total [OF a u assms(3-5)] by blast
  have "eval \<sigma> e = update_value \<sigma> os (nat (eval \<sigma> i))" if "os_safe \<sigma> os" "in_bounds \<sigma> i" for \<sigma>
    using read_refines [OF a u(1) assms(3,5) e(1)] that assms(2,3)
    by (simp add: refines_on_def update_value_def root_array_def os_safe_def)
  with e read_refines [OF a u(1) assms(3,5) e(1)] show ?thesis by (auto simp: byte_expr_def refines_on_def)
qed

lemma read8_ok:
  assumes "os_ok os" "i < os_size os"
  shows "reads_byte os (\<lambda>_. True) (\<lambda>_. int i) (read8 R M i (os, w))"
proof -
  have ns: "\<not> isSharedConcrete (os_object os)" and n: "i < 2 ^ 32" using os_okD(1) [OF assms(1)] assms(2) by (simp_all add: shape_def)
  consider "isByteConcrete os i" | e where "\<not> isByteConcrete os i" "knownSymbolic os i = Some e"
    | "\<not> isByteConcrete os i" "knownSymbolic os i = None" "isByteFlushed os i"
    using os_okD(2) [OF assms] by (auto simp: byte_ok_def isByteKnownSymbolic_def)
  then show ?thesis
  proof cases
    case 1
    with assms ns create_constants_ok(1) show ?thesis
      by (auto simp: reads_byte_def read8_def create_byte byte_expr_def content_def)
  next
    case 2
    with assms ns shape_known [OF os_okD(1)] show ?thesis by (auto simp: reads_byte_def read8_def content_def)
  next
    case 3
    obtain a u os' w' where g: "getUpdates R M (os, w) = Some ((a, u), os', w')" "updates os' = (Some a, u)" "os_ok os'" "same_bytes os os'"
      "isByteFlushed os' i = isByteFlushed os i" using getUpdates_ok [OF assms(1)] by blast
    obtain e where e: "ReadExpr_create R a u (ConstantExpr (APInt Int32 (int i))) = Some e" "byte_expr e"
      "\<And>\<sigma>. os_safe \<sigma> os' \<Longrightarrow> eval \<sigma> e = update_value \<sigma> os' i"
      using read_updates_ok [OF g(3,2) create_constants_ok(2) [OF n]] by auto
    have "i < os_size os'" using g(4) assms(2) by (simp add: same_bytes_def)
    with os_okD(2) [OF g(3) this] g(5) 3(3) have "update_value \<sigma> os' i = content \<sigma> os' i" for \<sigma> by (simp add: byte_ok_def)
    with e(3) g(4) assms(2) have "os_safe \<sigma> os \<Longrightarrow> eval \<sigma> e = content \<sigma> os i" for \<sigma> by (simp add: same_bytes_def)
    with 3 ns assms(2) g e show ?thesis by (simp add: reads_byte_def read8_def create_nat [OF n])
  qed
qed

lemma read8_expr_ok:
  assumes "os_ok os" "wt i" "narrow i" "getWidth i = Int32" "\<not> is_constant i"
  shows "reads_byte os (\<lambda>\<sigma>. in_bounds \<sigma> i) (\<lambda>\<sigma>. eval \<sigma> i) (read8_expr R M i (os, w))"
proof -
  have ns: "\<not> isSharedConcrete (os_object os)" using os_okD(1) [OF assms(1)] by (simp add: shape_def)
  obtain s where s: "flushRangeForRead R 0 (os_size os) os = Some s" "os_ok s" "same_bytes os s" "\<forall>j<os_size os. isByteFlushed s j"
    using flushRangeForRead_ok [OF assms(1)] by (auto simp: flushed_to_def)
  obtain a u os' w' where g: "getUpdates R M (s, w) = Some ((a, u), os', w')" "updates os' = (Some a, u)" "os_ok os'" "same_bytes s os'"
      "\<And>i. isByteFlushed os' i = isByteFlushed s i" using getUpdates_ok [OF s(2)] by blast
  have b: "same_bytes os os'" using same_bytes_trans s(3) g(4) by blast
  obtain e where e: "ReadExpr_create R a u i = Some e" "byte_expr e"
      "\<And>\<sigma>. os_safe \<sigma> os' \<Longrightarrow> in_bounds \<sigma> i \<Longrightarrow> eval \<sigma> e = update_value \<sigma> os' (nat (eval \<sigma> i))"
    using read_updates_ok [OF g(3,2) assms(2-4)] by auto
  have "update_value \<sigma> os' j = content \<sigma> os j" if "j < os_size os" for \<sigma> j
    using os_okD(2) [OF g(3), of j] b that s(4) g(5) by (simp add: byte_ok_def same_bytes_def)
  with e(3) b assms(2) have "eval \<sigma> e = content \<sigma> os (nat (eval \<sigma> i))"
    if "os_safe \<sigma> os" "in_bounds \<sigma> i" "eval \<sigma> i < int (os_size os)" for \<sigma> using that by (simp add: same_bytes_def nat_less_iff)
  moreover have "ZExtExpr_create R i Int32 = Some i" using assms(4) by (simp add: ZExtExpr_create.simps)
  ultimately show ?thesis using ns assms(5) s(1) g e b by (simp add: reads_byte_def read8_expr_def fastRangeCheckOffset_def)
qed

text \<open>A byte that becomes concrete or a known value, and is no longer flushed.\<close>

lemma cached_write_ok:
  assumes "os_ok os" "shape os'" "i < os_size os" "os_size os' = os_size os" "updates os' = updates os"
    "\<And>j. j < os_size os \<Longrightarrow> isByteConcrete os' j = (if j = i then k = None else isByteConcrete os j)"
    "\<And>j. j < os_size os \<Longrightarrow> knownSymbolic os' j = (if j = i then k else knownSymbolic os j)"
    "\<And>j. j < os_size os \<Longrightarrow> isByteFlushed os' j \<longleftrightarrow> j \<noteq> i \<and> isByteFlushed os j"
    "\<And>j. j < os_size os \<Longrightarrow> j \<noteq> i \<Longrightarrow> concreteStore os' ! j = concreteStore os ! j"
  shows "os_ok os' \<and> (\<forall>\<sigma>. \<forall>j<os_size os. content \<sigma> os' j = (if j = i then content \<sigma> os' i else content \<sigma> os j))
    \<and> (\<forall>\<sigma>. os_safe \<sigma> os \<and> (\<forall>e. k = Some e \<longrightarrow> in_bounds \<sigma> e) \<longrightarrow> os_safe \<sigma> os')"
proof -
  have u: "update_value \<sigma> os' j = update_value \<sigma> os j" for \<sigma> j using assms(4,5) by (simp add: update_value_def root_array_def cong: option.case_cong)
  have c: "content \<sigma> os' j = content \<sigma> os j" if "j < os_size os" "j \<noteq> i" for \<sigma> j
    using assms(6-9) [OF that(1)] that u by (simp add: content_def cong: option.case_cong)
  have "byte_ok os' j" if "j < os_size os" for j
    using os_okD(2) [OF assms(1) that] assms(6-8) [OF that] u c [OF that] by (cases "j = i") (auto simp: byte_ok_def known_iff)
  then have "os_ok os'" using assms(2,4) by (simp add: os_ok_def)
  moreover have "os_safe \<sigma> os'" if "os_safe \<sigma> os" "\<forall>e. k = Some e \<longrightarrow> in_bounds \<sigma> e" for \<sigma>
    using that assms(4,5,7) by (auto simp: os_safe_def split: if_splits)
  ultimately show ?thesis using c by simp
qed

lemma write8_byte_ok:
  assumes "os_ok os" "i < os_size os"
  shows "stores_byte os (\<lambda>_. True) (\<lambda>_. int i) (\<lambda>_. uint v) (write8_byte i v (os, w))"
proof -
  note s = os_okD(1) [OF assms(1)]
  define a where "a = os\<lparr>concreteStore := (concreteStore os)[i := v]\<rparr>"
  define os' where "os' = markByteUnflushed i (markByteConcrete i (setKnownSymbolic i None a))"
  have a: "shape a" "os_size a = os_size os" "updates a = updates os" "os_object a = os_object os" using s by (simp_all add: a_def shape_def)
  have f: "isByteConcrete a j = isByteConcrete os j" "isByteFlushed a j = isByteFlushed os j" "knownSymbolic a j = knownSymbolic os j" for j
    by (simp_all add: a_def isByteConcrete_def isByteFlushed_def knownSymbolic_def)
  have l: "length (concreteStore os) = os_size os" "\<not> isSharedConcrete (os_object os)" using s by (simp_all add: shape_def)
  have st: "concreteStore a ! j = (if j = i then v else concreteStore os ! j)" for j using l(1) assms(2) by (simp add: a_def)
  have r: "write8_byte i v (os, w) = Some (os', w)" using assms(2) l(2) by (simp add: write8_byte_def os'_def a_def)
  have c: "os_ok os' \<and> (\<forall>\<sigma>. \<forall>j<os_size os. content \<sigma> os' j = (if j = i then content \<sigma> os' i else content \<sigma> os j))
    \<and> (\<forall>\<sigma>. os_safe \<sigma> os \<and> (\<forall>e. None = Some e \<longrightarrow> in_bounds \<sigma> e) \<longrightarrow> os_safe \<sigma> os')"
    by (rule cached_write_ok [OF assms(1) _ assms(2)])
      (use a assms(2) st in \<open>simp_all add: os'_def mark_own f eq_commute\<close>)
  have "content \<sigma> os' i = uint v" for \<sigma>
    using assms(2) a st by (simp add: content_def os'_def mark_own)
  moreover have "os_size os' = os_size os" "os_object os' = os_object os" using a by (simp_all add: os'_def)
  ultimately show ?thesis using c by (simp add: stores_byte_def r)
qed

lemma write8_ok:
  assumes "os_ok os" "i < os_size os" "byte_expr v"
  shows "stores_byte os (\<lambda>\<sigma>. in_bounds \<sigma> v) (\<lambda>_. int i) (\<lambda>\<sigma>. eval \<sigma> v) (write8 i v (os, w))"
proof (cases "dyn_cast_Constant v")
  case (Some c)
  then have v: "v = ConstantExpr c" "ap_wf c" "getBitWidth c = Int8" using assms(3) by (auto simp: byte_expr_def)
  then obtain x where x: "ConstantExpr_getZExtValue c 8 = Some x" "uint x = apValue c"
    using getZExtValue_narrow [of c 8] getZExtValue_Some(2) [of c 8] by auto
  have "uint (ucast x :: 8 word) = apValue c"
    using x(2) v(2,3) by (simp add: unsigned_ucast_eq ap_wf_def take_bit_bv)
  with write8_byte_ok [OF assms(1,2), of "ucast x" w] x(1) v show ?thesis by (simp add: stores_byte_def write8_def)
next
  case None
  note s = os_okD(1) [OF assms(1)]
  define a where "a = setKnownSymbolic i (Some v) os"
  define os' where "os' = markByteUnflushed i (markByteSymbolic i a)"
  have a: "shape a" "os_size a = os_size os" "updates a = updates os" "os_object a = os_object os"
    using setKnownSymbolic_shape [OF s, of "Some v" i] assms(3) by (simp_all add: a_def)
  have st: "concreteStore a ! j = concreteStore os ! j" for j by (simp add: a_def)
  have r: "write8 i v (os, w) = Some (os', w)" using assms(2) s None by (simp add: write8_def os'_def a_def shape_def)
  have f: "isByteConcrete a j = isByteConcrete os j" "isByteFlushed a j = isByteFlushed os j"
    "j < os_size os \<Longrightarrow> knownSymbolic a j = (if j = i then Some v else knownSymbolic os j)" for j
    using mark_own(5) [OF s assms(2), of j "Some v"] by (auto simp: a_def)
  have c: "os_ok os' \<and> (\<forall>\<sigma>. \<forall>j<os_size os. content \<sigma> os' j = (if j = i then content \<sigma> os' i else content \<sigma> os j))
    \<and> (\<forall>\<sigma>. os_safe \<sigma> os \<and> (\<forall>e. Some v = Some e \<longrightarrow> in_bounds \<sigma> e) \<longrightarrow> os_safe \<sigma> os')"
    by (rule cached_write_ok [OF assms(1) _ assms(2)])
      (use a assms(2) st in \<open>simp_all add: os'_def mark_own f eq_commute\<close>)
  have "content \<sigma> os' i = eval \<sigma> v" for \<sigma>
    using assms(2) a f(3) [OF assms(2)] by (simp add: content_def os'_def mark_own)
  moreover have "os_size os' = os_size os" "os_object os' = os_object os" using a by (simp_all add: os'_def)
  ultimately show ?thesis using c by (simp add: stores_byte_def r)
qed

lemma write8_expr_ok:
  assumes "os_ok os" "wt i" "narrow i" "getWidth i = Int32" "\<not> is_constant i" "byte_expr v"
  shows "stores_byte os (\<lambda>\<sigma>. in_bounds \<sigma> i \<and> in_bounds \<sigma> v) (\<lambda>\<sigma>. eval \<sigma> i) (\<lambda>\<sigma>. eval \<sigma> v) (write8_expr R i v (os, w))"
proof -
  have ns: "\<not> isSharedConcrete (os_object os)" using os_okD(1) [OF assms(1)] by (simp add: shape_def)
  obtain s where s: "flushRangeForWrite R 0 (os_size os) os = Some s" "os_ok s" "same_bytes os s"
    "\<And>j. j < os_size os \<Longrightarrow> isByteFlushed s j \<and> \<not> isByteConcrete s j \<and> knownSymbolic s j = None"
    using flushRangeForWrite_ok [OF assms(1)] by (auto simp: cleared_to_def flushed_to_def)
  define os' where "os' = s\<lparr>updates := (fst (updates s), UpdateNode i v (snd (updates s)))\<rparr>"
  have z: "os_size s = os_size os" "os_object s = os_object os" using s(3) by (simp_all add: same_bytes_def)
  have sh: "shape os'" unfolding os'_def
    using os_okD(1) [OF s(2)] assms(2-6)
    by (intro updates_shape) (auto simp: shape_def write_ok_def is_constant_iff)
  have u: "update_value \<sigma> os' j = (if int j = eval \<sigma> i then eval \<sigma> v else update_value \<sigma> s j)" for \<sigma> j
    by (auto simp: os'_def update_value_def root_array_def cong: option.case_cong)
  have o: "isByteFlushed os' j" "\<not> isByteConcrete os' j" "knownSymbolic os' j = None" if "j < os_size os" for j
    using s(4) [OF that] by (simp_all add: os'_def)
  have c: "content \<sigma> os' j = (if int j = eval \<sigma> i then eval \<sigma> v else content \<sigma> os j)" if "j < os_size os" for \<sigma> j
    using o [OF that] u [of \<sigma> j] s(3,4) that by (auto simp: content_def same_bytes_def)
  have "byte_ok os' j" if "j < os_size os" for j using o [OF that] by (simp add: byte_ok_def isByteKnownSymbolic_def content_def)
  then have "os_ok os'" using sh z by (simp add: os_ok_def os'_def)
  moreover have "os_safe \<sigma> os'" if "os_safe \<sigma> os" "in_bounds \<sigma> i" "in_bounds \<sigma> v" for \<sigma>
    using that s(3) by (auto simp: os_safe_def same_bytes_def os'_def)
  moreover have "ZExtExpr_create R i Int32 = Some i" using assms(4) by (simp add: ZExtExpr_create.simps)
  ultimately have r: "write8_expr R i v (os, w) = Some (os', w)" "os_ok os'" "\<And>\<sigma>. os_safe \<sigma> os \<Longrightarrow> in_bounds \<sigma> i \<Longrightarrow> in_bounds \<sigma> v \<Longrightarrow> os_safe \<sigma> os'"
    using ns assms(5,6) s(1) by (auto simp: write8_expr_def fastRangeCheckOffset_def extend_def byte_expr_def os'_def)
  have "os_size os' = os_size os" "os_object os' = os_object os" using z by (simp_all add: os'_def)
  with r c show ?thesis by (simp add: stores_byte_def)
qed

end

end
