(* ===== verification/ObjectWords.thy ===== *)
theory ObjectWords
  imports ObjectContents
begin

unbundle bit_operations_syntax

text \<open>
  Reads and writes of several bytes: \<^verbatim>\<open>ObjectState::read\<close> and \<^verbatim>\<open>ObjectState::write\<close> of \<^verbatim>\<open>src/klee/lib/Core/Memory.cpp\<close>,
  against the contents of the object, and the states that the operations can reach.
\<close>

section \<open>Expressions for offsets and bytes\<close>

text \<open>The constructors that move bits around introduce no reads.\<close>

lemma bits_in_bounds:
  "ExtractExpr_create R e off w = Some a \<Longrightarrow> in_bounds \<sigma> e \<Longrightarrow> in_bounds \<sigma> a"
  "ConcatExpr_create R l r = Some b \<Longrightarrow> in_bounds \<sigma> l \<Longrightarrow> in_bounds \<sigma> r \<Longrightarrow> in_bounds \<sigma> b"
  "ZExtExpr_create R e w = Some c \<Longrightarrow> in_bounds \<sigma> e \<Longrightarrow> in_bounds \<sigma> c"
  "SExtExpr_create R e w = Some d \<Longrightarrow> in_bounds \<sigma> e \<Longrightarrow> in_bounds \<sigma> d"
proof (induction R e off w and R l r and R e w and R e w arbitrary: a and b and c and d
    rule: ExtractExpr_create_ConcatExpr_create_ZExtExpr_create_SExtExpr_create.induct)
  case (1 R e off w)
  note eq = "1.prems"(1) [unfolded ExtractExpr_create.simps [of R e off w], simplified]
  show ?case
  proof (cases "w = getWidth e")
    case True
    with eq "1.prems" show ?thesis by simp
  next
    case False
    note IH = "1.IH" [OF _ False]
    show ?thesis
    proof (cases e)
      case (ConcatExpr l r)
      consider "getWidth r \<le> off" | "\<not> getWidth r \<le> off" "off + w \<le> getWidth r"
        | "\<not> getWidth r \<le> off" "\<not> off + w \<le> getWidth r" by blast
      then show ?thesis
      proof cases
        case 1
        with eq False ConcatExpr "1.prems"(2) show ?thesis using IH(1) [OF _ ConcatExpr] by fastforce
      next
        case 2
        with eq False ConcatExpr "1.prems"(2) show ?thesis using IH(2) [OF _ ConcatExpr] by fastforce
      next
        case 3
        with eq False ConcatExpr obtain x y where
          "ExtractExpr_create R l 0 (w + off - getWidth r) = Some x"
          "ExtractExpr_create R r off (getWidth r - off) = Some y" "ConcatExpr_create R x y = Some a"
          by (auto simp: option_bind_simps)
        with 3 eq ConcatExpr "1.prems"(2) IH(3-5) [OF _ ConcatExpr] show ?thesis by fastforce
      qed
    next
      case (CastExpr k x v)
      with eq False "1.prems"(2) IH(6) [OF _ CastExpr] show ?thesis
        by (cases k) (fastforce split: if_splits)+
    qed (use eq False "1.prems" in auto)
  qed
next
  case (2 R l r)
  note eq = "2.prems"(1) [unfolded ConcatExpr_create.simps [of R l r] Let_def]
  show ?case
  proof (cases "dyn_cast_Constant l")
    case None
    show ?thesis
    proof (cases "\<exists>e p u q v. l = ExtractExpr e p u \<and> r = ExtractExpr e q v \<and> q + v = p")
      case True
      then obtain e p u q v where lr: "l = ExtractExpr e p u" "r = ExtractExpr e q v" "q + v = p"
        by blast
      with eq have "ExtractExpr_create R e q (getWidth l + getWidth r) = Some b" by simp
      from "2.IH"(1) [OF refl None _ refl refl _ refl refl _ this] lr "2.prems" show ?thesis by auto
    next
      case False
      with eq None have "b = ConcatExpr l r" by (auto split: option.splits if_splits)
      with "2.prems" show ?thesis by simp
    qed
  next
    case (Some x)
    show ?thesis
    proof (cases "b = ConcatExpr l r \<or> is_constant b")
      case True
      with "2.prems" show ?thesis by (cases b) auto
    next
      case False
      with eq Some have "dyn_cast_Constant r = None" "ConstantExpr_isZero x = Some True"
        "ZExtExpr_create R r (getWidth l + getWidth r) = Some b"
        by (auto simp: option_bind_simps split: option.splits if_splits)
      from "2.IH"(2) [OF refl Some this(1,2) _ this(3)] "2.prems" show ?thesis by simp
    qed
  qed
next
  case (3 R e w)
  note eq = "3.prems"(1) [unfolded ZExtExpr_create.simps [of R e w]]
  show ?case
  proof (cases "w < getWidth e")
    case True
    with eq "3.IH" "3.prems" show ?thesis by simp
  next
    case False
    with eq "3.prems"(2) show ?thesis by (auto split: if_splits expr.splits ckind.splits)
  qed
next
  case (4 R e w)
  note eq = "4.prems"(1) [unfolded SExtExpr_create.simps [of R e w]]
  show ?case
  proof (cases "w < getWidth e")
    case True
    with eq "4.IH" "4.prems" show ?thesis by simp
  next
    case False
    with eq "4.prems"(2) show ?thesis by (auto split: if_splits expr.splits)
  qed
qed

text \<open>
  The offset of a later byte is a sum with a constant. The core of an expression is what is left below its
  additions of constants; a sum is not a constant where the core is none.
\<close>

fun sum_core :: "expr \<Rightarrow> expr" where
  "sum_core (BinaryExpr Add (ConstantExpr k) c) = sum_core c"
| "sum_core (BinaryExpr Sub (ConstantExpr k) c) = sum_core c"
| "sum_core e = e"

lemma in_bounds_sum_core: "in_bounds \<sigma> (sum_core e) = in_bounds \<sigma> e"
  by (induction e rule: sum_core.induct) auto

lemma sum_core_constant: "\<not> is_constant (sum_core e) \<Longrightarrow> \<not> is_constant e"
  by (cases e) auto

context klee_rt_laws
begin

lemma partial_sum_core:
  assumes "AddExpr_createPartialR R cl e = Some a \<or> SubExpr_createPartialR R cl e = Some a"
    "wt e" "ap_wf cl" "getBitWidth cl = getWidth e" "getWidth e \<noteq> Bool" "\<not> is_constant (sum_core e)"
  shows "sum_core a = sum_core e"
  using assms
proof (induction "size e" arbitrary: e cl rule: less_induct)
  case less
  have b: "getBitWidth cl \<noteq> Bool" using less.prems by simp
  show ?case
  proof (cases "\<exists>k c. e = AddExpr (ConstantExpr k) c \<or> e = SubExpr (ConstantExpr k) c")
    case True
    then obtain k c where e: "e = AddExpr (ConstantExpr k) c \<or> e = SubExpr (ConstantExpr k) c" by blast
    have c: "wt c" "getWidth c = getWidth e" "ap_same cl k" "\<not> is_constant (sum_core c)" "size c < size e" "sum_core e = sum_core c"
      using e less.prems by (auto simp: ap_same_def)
    have n: "dyn_cast_Constant c = None" using sum_core_constant [OF c(4)] by (cases c) auto
    have s: "ap_wf (ConstantExpr_binop R op cl k)" "getBitWidth (ConstantExpr_binop R op cl k) = getWidth c" if "op \<in> {Add, Sub}" for op
      using that c(2,3) less.prems(4) ConstantExpr_binop_eq [OF c(3), of op] by (auto simp: ap_same_def ap_wf_def)
    have "a = e \<or> (\<exists>op \<in> {Add, Sub}. AddExpr_createPartialR R (ConstantExpr_binop R op cl k) c = Some a
        \<or> SubExpr_createPartialR R (ConstantExpr_binop R op cl k) c = Some a)"
      using less.prems(1) e b n
      by (auto simp: AddExpr_createPartialR.simps [of R cl] SubExpr_createPartialR.simps [of R cl] AddExpr_create.simps [of R "ConstantExpr _"]
          SubExpr_create.simps [of R "ConstantExpr _"] fold_constants_def option_bind_simps split: if_splits)
    then show ?thesis
      using less.hyps [OF c(5) _ c(1) s(1)] s(2) c(2,4,6) less.prems(5) by auto
  next
    case False
    then have "dyn_cast_constant_left Add e = None" "dyn_cast_constant_left Sub e = None"
      by (metis dyn_cast_constant_left_Some option.exhaust)+
    then have "a = e \<or> a = AddExpr (ConstantExpr cl) e \<or> a = SubExpr (ConstantExpr cl) e"
      using less.prems(1) b by (auto simp: AddExpr_createPartialR.simps [of R cl e] SubExpr_createPartialR.simps [of R cl e] option_bind_simps split: if_splits)
    then show ?thesis by auto
  qed
qed

lemma add_index_ok:
  assumes "wt e" "narrow e" "getWidth e = Int32" "\<not> is_constant (sum_core e)" "idx < 2 ^ 32"
  shows "\<exists>o'. add_index R e idx = Some o' \<and> wt o' \<and> narrow o' \<and> getWidth o' = Int32 \<and> \<not> is_constant o'
    \<and> (\<forall>\<sigma>. in_bounds \<sigma> o' = in_bounds \<sigma> e) \<and> (\<forall>\<sigma>. eval \<sigma> o' = take_bit Int32 (eval \<sigma> e + int idx))"
proof -
  let ?c = "ConstantExpr (APInt Int32 (int idx))"
  have c: "wt ?c" "narrow ?c" "getWidth e = getWidth ?c" "divisor_ok Add ?c" using create_constants_ok(2) [OF assms(5)] assms(3)
    by (auto simp: divisor_ok_def)
  obtain o' where o: "AddExpr_create R e ?c = Some o'" "narrow o'"
    using Binary_create_total [OF assms(1) c(1) assms(2) c(2,3,4)] by auto
  have r: "wt o'" "getWidth o' = Int32" "\<And>\<sigma>. eval \<sigma> o' = take_bit Int32 (eval \<sigma> e + int idx)"
    using Binary_create_refines [OF assms(1) c(1,4), of o'] o(1) assms(3) by (auto simp: refines_on_def binary_cond_def)
  have "dyn_cast_Constant e = None" using sum_core_constant [OF assms(4)] by (cases e) auto
  then have "AddExpr_createPartialR R (APInt Int32 (int idx)) e = Some o'"
    using o(1) by (simp add: AddExpr_create.simps [of R e])
  with partial_sum_core [of "APInt Int32 (int idx)" e o'] assms c(1) have "sum_core o' = sum_core e" by simp
  then have "\<not> is_constant o'" "\<And>\<sigma>. in_bounds \<sigma> o' = in_bounds \<sigma> e"
    using assms(4) sum_core_constant [of o'] in_bounds_sum_core by metis+
  with o r show ?thesis by (simp add: add_index_def create_nat [OF assms(5)])
qed

end

section \<open>Values of several bytes\<close>

primrec bytes_value :: "(nat \<Rightarrow> int) \<Rightarrow> nat \<Rightarrow> int" where
  "bytes_value f 0 = 0"
| "bytes_value f (Suc n) = push_bit (8 * n) (f n) OR bytes_value f n"

definition value_byte :: "int \<Rightarrow> nat \<Rightarrow> int" where
  "value_byte v k = take_bit 8 (drop_bit (8 * k) v)"

lemma bytes_value_cong: "(\<And>k. k < n \<Longrightarrow> f k = g k) \<Longrightarrow> bytes_value f n = bytes_value g n"
  by (induction n) auto

lemma bytes_value_of_value: "bytes_value (value_byte v) n = take_bit (8 * n) v"
proof (induction n)
  case (Suc n)
  have "take_bit (8 * Suc n) v = push_bit (8 * n) (value_byte v n) OR take_bit (8 * n) v"
    by (rule bit_eqI) (auto simp: value_byte_def bit_take_bit_iff bit_or_iff bit_push_bit_iff bit_drop_bit_eq)
  with Suc show ?case by simp
qed simp

section \<open>The loops over the bytes\<close>

definition reads_at :: "full_state \<Rightarrow> (assignment \<Rightarrow> bool) \<Rightarrow> (assignment \<Rightarrow> nat) \<Rightarrow> (expr \<times> full_state \<times> world) option \<Rightarrow> bool" where
  "reads_at os C pos r \<longleftrightarrow> (\<exists>e os' w'. r = Some (e, os', w') \<and> byte_expr e \<and> os_ok os' \<and> same_bytes os os'
     \<and> (\<forall>\<sigma>. os_safe \<sigma> os \<and> C \<sigma> \<longrightarrow> eval \<sigma> e = content \<sigma> os (pos \<sigma>)))"

definition stores_at ::
  "full_state \<Rightarrow> (assignment \<Rightarrow> bool) \<Rightarrow> (assignment \<Rightarrow> nat) \<Rightarrow> (assignment \<Rightarrow> int) \<Rightarrow> (full_state \<times> world) option \<Rightarrow> bool" where
  "stores_at os C pos v r \<longleftrightarrow> (\<exists>os' w'. r = Some (os', w') \<and> os_ok os' \<and> os_size os' = os_size os \<and> os_object os' = os_object os
     \<and> (\<forall>\<sigma>. C \<sigma> \<longrightarrow> (\<forall>i<os_size os. content \<sigma> os' i = (if i = pos \<sigma> then v \<sigma> else content \<sigma> os i)))
     \<and> (\<forall>\<sigma>. os_safe \<sigma> os \<and> C \<sigma> \<longrightarrow> os_safe \<sigma> os'))"

lemma reads_byte_at:
  "reads_byte os P off r \<Longrightarrow> (\<And>\<sigma>. C \<sigma> \<Longrightarrow> P \<sigma> \<and> off \<sigma> < int (os_size os) \<and> nat (off \<sigma>) = pos \<sigma>) \<Longrightarrow> reads_at os C pos r"
  unfolding reads_byte_def reads_at_def by metis

lemma stores_byte_at:
  assumes "stores_byte os P off v r" "\<And>\<sigma>. C \<sigma> \<Longrightarrow> P \<sigma> \<and> off \<sigma> = int (pos \<sigma>) \<and> v' \<sigma> = v \<sigma>"
  shows "stores_at os C pos v' r"
  using assms unfolding stores_byte_def stores_at_def by (fastforce)

context klee_rt_laws
begin

lemma read_loop_ok:
  assumes "isLittleEndian M \<or> n = 1" "0 < n" "n \<le> 8" "os_ok os" "\<And>\<sigma>. C \<sigma> \<Longrightarrow> pos \<sigma> + n \<le> os_size os"
    "\<And>idx os' w'. idx < n \<Longrightarrow> os_ok os' \<Longrightarrow> same_bytes os os' \<Longrightarrow> reads_at os' C (\<lambda>\<sigma>. pos \<sigma> + idx) (rd idx (os', w'))"
  shows "\<exists>e os' w'. for_loop (\<lambda>i. read_step R rd (byte_index M n i)) 0 n (None, os, w) = Some (Some e, os', w')
    \<and> wt e \<and> narrow e \<and> getWidth e = 8 * n \<and> os_ok os' \<and> same_bytes os os'
    \<and> (\<forall>\<sigma>. os_safe \<sigma> os \<and> C \<sigma> \<longrightarrow> eval \<sigma> e = bytes_value (\<lambda>k. content \<sigma> os (pos \<sigma> + k)) n)"
proof -
  define Q where "Q k s \<longleftrightarrow> (case s of (Res, os', w') \<Rightarrow> os_ok os' \<and> same_bytes os os' \<and>
    (if k = 0 then Res = None else \<exists>e. Res = Some e \<and> wt e \<and> narrow e \<and> getWidth e = 8 * k
      \<and> (\<forall>\<sigma>. os_safe \<sigma> os \<and> C \<sigma> \<longrightarrow> eval \<sigma> e = bytes_value (\<lambda>k. content \<sigma> os (pos \<sigma> + k)) k)))" for k and s :: "expr option \<times> full_state \<times> world"
  have "\<exists>s'. read_step R rd (byte_index M n j) s = Some s' \<and> Q (Suc j) s'" if j: "j < n" and q: "Q j s" for j s
  proof -
    obtain Res os' w' where s: "s = (Res, os', w')" "os_ok os'" "same_bytes os os'" using q by (auto simp: Q_def)
    obtain b os'' w'' where b: "rd j (os', w') = Some (b, os'', w'')" "byte_expr b" "os_ok os''" "same_bytes os' os''"
      "\<And>\<sigma>. os_safe \<sigma> os' \<Longrightarrow> C \<sigma> \<Longrightarrow> eval \<sigma> b = content \<sigma> os' (pos \<sigma> + j)"
      using assms(6) [OF j s(2,3), of w'] unfolding reads_at_def by blast
    have v: "eval \<sigma> b = content \<sigma> os (pos \<sigma> + j)" if "os_safe \<sigma> os" "C \<sigma>" for \<sigma>
      using b(5) [of \<sigma>] that s(3) assms(5) [OF that(2)] j by (simp add: same_bytes_def)
    have s'': "same_bytes os os''" using same_bytes_trans s(3) b(4) by blast
    show ?thesis
    proof (cases "j = 0")
      case True
      with b s s'' v assms(1) show ?thesis by (auto simp: read_step_def byte_index_def Q_def byte_expr_def)
    next
      case False
      then obtain e where e: "Res = Some e" "wt e" "narrow e" "getWidth e = 8 * j"
        "\<And>\<sigma>. os_safe \<sigma> os \<Longrightarrow> C \<sigma> \<Longrightarrow> eval \<sigma> e = bytes_value (\<lambda>k. content \<sigma> os (pos \<sigma> + k)) j"
        using q s(1) by (auto simp: Q_def)
      obtain x where x: "ConcatExpr_create R b e = Some x" "wt x" "narrow x" "getWidth x = 8 * Suc j"
        "\<And>\<sigma>. eval \<sigma> x = push_bit (8 * j) (eval \<sigma> b) OR eval \<sigma> e"
        using concat_correct [of b e] b(2) e(2-4) j assms(3) by (auto simp: byte_expr_def)
      with b s s'' v e assms(1) False j show ?thesis by (auto simp add: read_step_def byte_index_def Q_def)
    qed
  qed
  moreover have "Q 0 (None, os, w)" using assms(4) by (simp add: Q_def)
  ultimately obtain s' where "for_loop (\<lambda>i. read_step R rd (byte_index M n i)) 0 n (None, os, w) = Some s'" "Q n s'"
    using for_loop_rule [of Q 0 "(None, os, w)" n "\<lambda>i. read_step R rd (byte_index M n i)"] by auto
  with assms(2) show ?thesis by (auto simp: Q_def)
qed

end

text \<open>The \<^verbatim>\<open>k\<close>th byte of a value goes to the offset that the byte order gives it.\<close>

lemma byte_index_involution: "k < n \<Longrightarrow> byte_index M n k < n \<and> byte_index M n (byte_index M n k) = k"
  by (auto simp: byte_index_def)

definition written :: "memory_rt \<Rightarrow> nat \<Rightarrow> nat \<Rightarrow> int \<Rightarrow> (nat \<Rightarrow> int) \<Rightarrow> nat \<Rightarrow> int" where
  "written M n p v f i = (if p \<le> i \<and> i < p + n then value_byte v (byte_index M n (i - p)) else f i)"

lemma write_loop_ok:
  assumes "os_ok os" "\<And>\<sigma>. C \<sigma> \<Longrightarrow> pos \<sigma> + n \<le> os_size os"
    "\<And>k os' w'. k < n \<Longrightarrow> os_ok os' \<Longrightarrow> os_size os' = os_size os \<Longrightarrow>
       stores_at os' C (\<lambda>\<sigma>. pos \<sigma> + byte_index M n k) (\<lambda>\<sigma>. value_byte (v \<sigma>) k) (f k (os', w'))"
  shows "\<exists>os' w'. for_loop f 0 n (os, w) = Some (os', w') \<and> os_ok os' \<and> os_size os' = os_size os \<and> os_object os' = os_object os
    \<and> (\<forall>\<sigma>. C \<sigma> \<longrightarrow> (\<forall>i<os_size os. content \<sigma> os' i = written M n (pos \<sigma>) (v \<sigma>) (content \<sigma> os) i))
    \<and> (\<forall>\<sigma>. os_safe \<sigma> os \<and> C \<sigma> \<longrightarrow> os_safe \<sigma> os')"
proof -
  define Q where "Q k s \<longleftrightarrow> (case s of (os', w') \<Rightarrow> os_ok os' \<and> os_size os' = os_size os \<and> os_object os' = os_object os
    \<and> (\<forall>\<sigma>. C \<sigma> \<longrightarrow> (\<forall>i<os_size os. content \<sigma> os' i =
          (if pos \<sigma> \<le> i \<and> i < pos \<sigma> + n \<and> byte_index M n (i - pos \<sigma>) < k then value_byte (v \<sigma>) (byte_index M n (i - pos \<sigma>)) else content \<sigma> os i)))
    \<and> (\<forall>\<sigma>. os_safe \<sigma> os \<and> C \<sigma> \<longrightarrow> os_safe \<sigma> os'))" for k and s :: "full_state \<times> world"
  have "\<exists>s'. f j s = Some s' \<and> Q (Suc j) s'" if j: "j < n" and q: "Q j s" for j s
  proof -
    obtain a w' where s: "s = (a, w')" by fastforce
    with q j assms(3) [of j a w'] have "stores_at a C (\<lambda>\<sigma>. pos \<sigma> + byte_index M n j) (\<lambda>\<sigma>. value_byte (v \<sigma>) j) (f j (a, w'))"
      by (simp add: Q_def)
    then obtain b w'' where b: "f j (a, w') = Some (b, w'')" "os_ok b" "os_size b = os_size a" "os_object b = os_object a"
      "\<And>\<sigma> i. C \<sigma> \<Longrightarrow> i < os_size a \<Longrightarrow> content \<sigma> b i = (if i = pos \<sigma> + byte_index M n j then value_byte (v \<sigma>) j else content \<sigma> a i)"
      "\<And>\<sigma>. os_safe \<sigma> a \<Longrightarrow> C \<sigma> \<Longrightarrow> os_safe \<sigma> b" unfolding stores_at_def by blast
    have e: "i = pos \<sigma> + byte_index M n j \<longleftrightarrow> pos \<sigma> \<le> i \<and> i < pos \<sigma> + n \<and> byte_index M n (i - pos \<sigma>) = j" for \<sigma> i
      using byte_index_involution [OF j, of M] byte_index_involution [of "i - pos \<sigma>" n M] by auto
    have "Q (Suc j) (b, w'')" unfolding Q_def
      using b q s by (auto simp: Q_def e less_Suc_eq)
    with b(1) s show ?thesis by blast
  qed
  moreover have "Q 0 (os, w)" using assms(1) by (simp add: Q_def)
  ultimately obtain s' where s': "for_loop f 0 n (os, w) = Some s'" "Q n s'"
    using for_loop_rule [of Q 0 "(os, w)" n f] by auto
  have "byte_index M n (i - p) < n" if "p \<le> i" "i < p + n" for i p
    using byte_index_involution [of "i - p" n M] that by auto
  with s' show ?thesis by (auto simp: Q_def written_def)
qed

section \<open>Accesses\<close>

definition access_bytes :: "width \<Rightarrow> nat" where
  "access_bytes w = (if w = Bool then 1 else w div 8)"

text \<open>
  The offset of an access: cut to 32 bits it is either a constant with which the access lies in the
  object, or an expression of which no sum with a constant is a constant.
\<close>

definition offset_ok :: "klee_rt \<Rightarrow> expr \<Rightarrow> nat \<Rightarrow> nat \<Rightarrow> bool" where
  "offset_ok R offset n sz \<longleftrightarrow> wt offset \<and> narrow offset
     \<and> (\<forall>o'. ZExtExpr_create R offset Int32 = Some o' \<longrightarrow>
          (case dyn_cast_Constant o' of Some c \<Rightarrow> nat (apValue c) + n \<le> sz | None \<Rightarrow> \<not> is_constant (sum_core o')))"

definition access_position :: "assignment \<Rightarrow> expr \<Rightarrow> nat" where
  "access_position \<sigma> offset = nat (take_bit Int32 (eval \<sigma> offset))"

definition reads_word ::
  "full_state \<Rightarrow> (assignment \<Rightarrow> bool) \<Rightarrow> (assignment \<Rightarrow> nat) \<Rightarrow> width \<Rightarrow> (expr option \<times> full_state \<times> world) option \<Rightarrow> bool" where
  "reads_word os C pos width r \<longleftrightarrow>
     (\<exists>e os' w'. r = Some (Some e, os', w') \<and> wt e \<and> narrow e \<and> getWidth e = width \<and> os_ok os' \<and> same_bytes os os'
        \<and> (\<forall>\<sigma>. os_safe \<sigma> os \<and> C \<sigma> \<longrightarrow>
             eval \<sigma> e = take_bit width (bytes_value (\<lambda>k. content \<sigma> os (pos \<sigma> + k)) (access_bytes width))))"

definition stores_word ::
  "memory_rt \<Rightarrow> full_state \<Rightarrow> (assignment \<Rightarrow> bool) \<Rightarrow> (assignment \<Rightarrow> nat) \<Rightarrow> expr \<Rightarrow> (full_state \<times> world) option \<Rightarrow> bool" where
  "stores_word M os C pos value r \<longleftrightarrow>
     (\<exists>os' w'. r = Some (os', w') \<and> os_ok os' \<and> os_size os' = os_size os \<and> os_object os' = os_object os
        \<and> (\<forall>\<sigma>. C \<sigma> \<longrightarrow> (\<forall>i<os_size os. content \<sigma> os' i =
             written M (access_bytes (getWidth value)) (pos \<sigma>) (eval \<sigma> value) (content \<sigma> os) i))
        \<and> (\<forall>\<sigma>. os_safe \<sigma> os \<and> C \<sigma> \<longrightarrow> os_safe \<sigma> os'))"

definition in_range :: "assignment \<Rightarrow> expr \<Rightarrow> nat \<Rightarrow> nat \<Rightarrow> bool" where
  "in_range \<sigma> offset n sz \<longleftrightarrow> in_bounds \<sigma> offset \<and> access_position \<sigma> offset + n \<le> sz"

text \<open>The 32-bit offset that the code computes.\<close>

definition offset_at :: "klee_rt \<Rightarrow> expr \<Rightarrow> nat \<Rightarrow> nat \<Rightarrow> expr \<Rightarrow> bool" where
  "offset_at R offset n sz o' \<longleftrightarrow>
     ZExtExpr_create R offset Int32 = Some o' \<and> wt o' \<and> narrow o' \<and> getWidth o' = Int32
     \<and> (\<forall>\<sigma>. eval \<sigma> o' = int (access_position \<sigma> offset)) \<and> (\<forall>\<sigma>. in_bounds \<sigma> offset \<longrightarrow> in_bounds \<sigma> o')
     \<and> ((\<exists>p < 2 ^ 32. o' = ConstantExpr (APInt Int32 (int p)) \<and> p + n \<le> sz)
        \<or> dyn_cast_Constant o' = None \<and> \<not> is_constant (sum_core o'))"

lemma position_value: "p < 2 ^ 32 \<Longrightarrow> ConstantExpr_getZExtValue (APInt Int32 (int p)) 32 = Some (of_nat p)"
  by (simp add: ConstantExpr_getZExtValue_def ap_getZExtValue_def)

lemma unat_position: "p < 2 ^ 32 \<Longrightarrow> unat (of_nat p :: 64 word) = p"
  by (simp add: unat_of_nat)

context klee_rt_laws
begin

lemma offset_ok_at:
  assumes "offset_ok R offset n sz"
  shows "\<exists>o'. offset_at R offset n sz o'"
proof -
  have o: "wt offset" "narrow offset" using assms by (simp_all add: offset_ok_def)
  obtain o' where z: "ZExtExpr_create R offset Int32 = Some o'" "narrow o'" using bits_create_total(3) [OF o, of Int32] by auto
  have r: "wt o'" "getWidth o' = Int32" "\<And>\<sigma>. eval \<sigma> o' = take_bit Int32 (eval \<sigma> offset)"
    using bits_create_refines(3) [OF o(1) _ z(1)] by (auto simp: refines_def)
  have "(\<exists>p < 2 ^ 32. o' = ConstantExpr (APInt Int32 (int p)) \<and> p + n \<le> sz) \<or> dyn_cast_Constant o' = None \<and> \<not> is_constant (sum_core o')"
  proof (cases "dyn_cast_Constant o'")
    case (Some c)
    then have c: "o' = ConstantExpr c" "ap_wf c" "getBitWidth c = Int32" "nat (apValue c) + n \<le> sz"
      using r assms z(1) by (auto simp: offset_ok_def)
    then have b: "bv Int32 (apValue c)" by (simp add: ap_wf_def)
    then have "c = APInt Int32 (int (nat (apValue c)))" using c(3) by (cases c) (simp add: bv_def)
    moreover have "nat (apValue c) < 2 ^ 32" using b by (simp add: bv_def nat_less_iff)
    ultimately show ?thesis using c(1,4) by metis
  next
    case None
    with assms z(1) show ?thesis by (auto simp: offset_ok_def)
  qed
  with z r bits_in_bounds(3) [OF z(1)] show ?thesis by (auto simp: offset_at_def access_position_def)
qed

lemma index_at:
  assumes "offset_at R offset n sz o'" "dyn_cast_Constant o' = None" "idx < n" "sz < 2 ^ 32" "n \<le> 8"
  shows "\<exists>x. add_index R o' idx = Some x \<and> wt x \<and> narrow x \<and> getWidth x = Int32 \<and> \<not> is_constant x
    \<and> (\<forall>\<sigma>. in_range \<sigma> offset n sz \<longrightarrow> in_bounds \<sigma> x \<and> eval \<sigma> x = int (access_position \<sigma> offset + idx) \<and> eval \<sigma> x < int sz)"
proof -
  have o: "wt o'" "narrow o'" "getWidth o' = Int32" "\<not> is_constant (sum_core o')" "idx < 2 ^ 32"
    "\<And>\<sigma>. eval \<sigma> o' = int (access_position \<sigma> offset)" "\<And>\<sigma>. in_bounds \<sigma> offset \<Longrightarrow> in_bounds \<sigma> o'"
    using assms by (auto simp: offset_at_def)
  obtain x where x: "add_index R o' idx = Some x" "wt x" "narrow x" "getWidth x = Int32" "\<not> is_constant x"
    "\<And>\<sigma>. in_bounds \<sigma> x = in_bounds \<sigma> o'" "\<And>\<sigma>. eval \<sigma> x = take_bit Int32 (eval \<sigma> o' + int idx)"
    using add_index_ok [OF o(1-5)] by blast
  have "eval \<sigma> x = int (access_position \<sigma> offset + idx)" if "in_range \<sigma> offset n sz" for \<sigma>
    using that x(7) [of \<sigma>] o(6) [of \<sigma>] assms(3,4) by (simp add: in_range_def take_bit_int_eq_self)
  with x o(7) assms(3) show ?thesis by (auto simp: in_range_def)
qed

lemma read_Bool_ok:
  assumes "reads_at os C pos r"
  shows "reads_word os C pos Bool (do { (b, s) \<leftarrow> r; e \<leftarrow> ExtractExpr_create R b 0 Bool; Some (Some e, s) })"
proof -
  obtain b os' w' where b: "r = Some (b, os', w')" "byte_expr b" "os_ok os'" "same_bytes os os'"
    "\<And>\<sigma>. os_safe \<sigma> os \<Longrightarrow> C \<sigma> \<Longrightarrow> eval \<sigma> b = content \<sigma> os (pos \<sigma>)"
    using assms by (auto simp: reads_at_def)
  obtain e where e: "ExtractExpr_create R b 0 Bool = Some e" "narrow e"
    using bits_create_total(1) [of b Bool 0] b(2) by (auto simp: byte_expr_def)
  then have "refines Bool (\<lambda>\<sigma>. take_bit Bool (drop_bit 0 (eval \<sigma> b))) e"
    using bits_create_refines(1) [of b 0 Bool e] b(2) by (simp add: byte_expr_def)
  with b e show ?thesis by (simp add: reads_word_def refines_def access_bytes_def)
qed

lemma read_general_ok:
  assumes "isLittleEndian M \<or> width div 8 = 1" "width \<in> {8, 16, 32, 64}" "os_ok os" "\<And>\<sigma>. C \<sigma> \<Longrightarrow> pos \<sigma> + width div 8 \<le> os_size os"
    "\<And>idx os' w'. idx < width div 8 \<Longrightarrow> os_ok os' \<Longrightarrow> same_bytes os os' \<Longrightarrow> reads_at os' C (\<lambda>\<sigma>. pos \<sigma> + idx) (rd idx (os', w'))"
  shows "reads_word os C pos width
    (do { require (width = width div 8 * 8); for_loop (\<lambda>i. read_step R rd (byte_index M (width div 8) i)) 0 (width div 8) (None, os, w) })"
proof -
  have n: "0 < width div 8" "width div 8 \<le> 8" "width = width div 8 * 8" "8 * (width div 8) = width" "access_bytes width = width div 8"
    using assms(2) by (auto simp: access_bytes_def)
  obtain e os' w' where e: "for_loop (\<lambda>i. read_step R rd (byte_index M (width div 8) i)) 0 (width div 8) (None, os, w) = Some (Some e, os', w')"
    "wt e" "narrow e" "getWidth e = width" "os_ok os'" "same_bytes os os'"
    "\<And>\<sigma>. os_safe \<sigma> os \<Longrightarrow> C \<sigma> \<Longrightarrow> eval \<sigma> e = bytes_value (\<lambda>k. content \<sigma> os (pos \<sigma> + k)) (width div 8)"
    using read_loop_ok [OF assms(1) n(1,2) assms(3-5), of w] n(4) by auto
  have "eval \<sigma> e = take_bit width (bytes_value (\<lambda>k. content \<sigma> os (pos \<sigma> + k)) (width div 8))" if "os_safe \<sigma> os" "C \<sigma>" for \<sigma>
    using e(7) [OF that] eval_take_bit [OF e(2), of \<sigma>] e(4) by simp
  with e n(3,5) show ?thesis by (simp add: reads_word_def)
qed

lemma read_const_ok:
  assumes "os_ok os" "isLittleEndian M \<or> access_bytes width = 1" "width \<in> {1, 8, 16, 32, 64}" "p + access_bytes width \<le> os_size os"
  shows "reads_word os (\<lambda>_. True) (\<lambda>_. p) width (read_const R M p width (os, w))"
proof (cases "width = Bool")
  case True
  have "reads_at os (\<lambda>_. True) (\<lambda>_. p) (read8 R M p (os, w))"
    using reads_byte_at [OF read8_ok [OF assms(1)]] assms(4) True by (simp add: access_bytes_def)
  from read_Bool_ok [OF this] True show ?thesis by (simp add: read_const_def)
next
  case False
  then have n: "access_bytes width = width div 8" "width \<in> {8, 16, 32, 64}" using assms(3) by (auto simp: access_bytes_def)
  have sz: "os_size os < 2 ^ 32" using os_okD(1) [OF assms(1)] by (simp add: shape_def)
  have "reads_at os' (\<lambda>_. True) (\<lambda>_. p + idx) (read8 R M (add32 p idx) (os', w'))"
    if "idx < width div 8" "os_ok os'" "same_bytes os os'" for idx os' w'
  proof -
    have a: "add32 p idx = p + idx" "p + idx < os_size os'" using that assms(4) n(1) sz by (simp_all add: add32_def same_bytes_def)
    from reads_byte_at [OF read8_ok [OF that(2) a(2)]] a(2) show ?thesis unfolding a(1) by simp
  qed
  from read_general_ok [OF assms(2) [unfolded n(1)] n(2) assms(1) _ this] assms(4) n(1) False show ?thesis
    by (simp add: read_const_def Let_def)
qed

lemma read_ok:
  assumes "os_ok os" "isLittleEndian M \<or> access_bytes width = 1" "width \<in> {1, 8, 16, 32, 64}" "offset_ok R offset (access_bytes width) (os_size os)"
  shows "reads_word os (\<lambda>\<sigma>. in_range \<sigma> offset (access_bytes width) (os_size os)) (\<lambda>\<sigma>. access_position \<sigma> offset) width
    (read R M offset width (os, w))"
proof -
  obtain o' where o: "offset_at R offset (access_bytes width) (os_size os) o'" using offset_ok_at [OF assms(4)] by blast
  have sz: "os_size os < 2 ^ 32" using os_okD(1) [OF assms(1)] by (simp add: shape_def)
  have z: "ZExtExpr_create R offset Int32 = Some o'" using o by (simp add: offset_at_def)
  show ?thesis
  proof (cases "dyn_cast_Constant o'")
    case (Some c)
    then obtain p where p: "p < 2 ^ 32" "o' = ConstantExpr (APInt Int32 (int p))" "p + access_bytes width \<le> os_size os"
      using o by (auto simp: offset_at_def)
    have "access_position \<sigma> offset = p" for \<sigma> using o p(2) by (simp add: offset_at_def)
    with read_const_ok [OF assms(1-3) p(3), of w] z p(2) position_value [OF p(1)] unat_position [OF p(1)] show ?thesis
      by (auto simp: read_def reads_word_def)
  next
    case None
    have "reads_at os' (\<lambda>\<sigma>. in_range \<sigma> offset (access_bytes width) (os_size os)) (\<lambda>\<sigma>. access_position \<sigma> offset + idx)
        (do { x \<leftarrow> add_index R o' idx; read8_expr R M x (os', w') })"
      if "idx < access_bytes width" "os_ok os'" "same_bytes os os'" for idx os' w'
    proof -
      note t = that
      have "access_bytes width \<le> 8" using assms(3) by (auto simp: access_bytes_def)
      then obtain x where x: "add_index R o' idx = Some x" "wt x" "narrow x" "getWidth x = Int32" "\<not> is_constant x"
        "\<And>\<sigma>. in_range \<sigma> offset (access_bytes width) (os_size os) \<Longrightarrow>
           in_bounds \<sigma> x \<and> eval \<sigma> x = int (access_position \<sigma> offset + idx) \<and> eval \<sigma> x < int (os_size os)"
        using index_at [OF o None t(1) sz] by blast
      have "reads_at os' (\<lambda>\<sigma>. in_range \<sigma> offset (access_bytes width) (os_size os)) (\<lambda>\<sigma>. access_position \<sigma> offset + idx) (read8_expr R M x (os', w'))"
      proof (rule reads_byte_at [OF read8_expr_ok [OF t(2) x(2-5)]])
        fix \<sigma> assume "in_range \<sigma> offset (access_bytes width) (os_size os)"
        from x(6) [OF this] t(3) show "in_bounds \<sigma> x \<and> eval \<sigma> x < int (os_size os') \<and> nat (eval \<sigma> x) = access_position \<sigma> offset + idx"
          by (auto simp: same_bytes_def)
      qed
      then show ?thesis by (simp add: x(1))
    qed
    note rd = this
    show ?thesis
    proof (cases "width = Bool")
      case True
      have "ZExtExpr_create R o' Int32 = Some o'" "\<not> is_constant o'" "wt o'" "narrow o'" "getWidth o' = Int32"
        using o sum_core_constant [of o'] None by (auto simp: offset_at_def ZExtExpr_create.simps)
      then have "reads_at os (\<lambda>\<sigma>. in_range \<sigma> offset 1 (os_size os)) (\<lambda>\<sigma>. access_position \<sigma> offset) (read8_expr R M o' (os, w))"
        using reads_byte_at [OF read8_expr_ok [OF assms(1), of o'], of "\<lambda>\<sigma>. in_range \<sigma> offset 1 (os_size os)"] o
        by (auto simp: offset_at_def in_range_def)
      from read_Bool_ok [OF this] True z None show ?thesis by (simp add: read_def access_bytes_def)
    next
      case False
      then have n: "access_bytes width = width div 8" "width \<in> {8, 16, 32, 64}" using assms(3) by (auto simp: access_bytes_def)
      from read_general_ok [OF assms(2) [unfolded n(1)] n(2) assms(1) _ rd [unfolded n(1)]] n(1) False z None show ?thesis
        by (simp add: read_def Let_def in_range_def)
    qed
  qed
qed

lemma write_Bool_value:
  assumes "wt value" "narrow value" "getWidth value = Bool"
  shows "\<exists>b. ZExtExpr_create R value Int8 = Some b \<and> byte_expr b \<and> (\<forall>\<sigma>. eval \<sigma> b = eval \<sigma> value) \<and> (\<forall>\<sigma>. in_bounds \<sigma> value \<longrightarrow> in_bounds \<sigma> b)"
proof -
  obtain b where b: "ZExtExpr_create R value Int8 = Some b" "narrow b" using bits_create_total(3) [OF assms(1,2), of Int8] by auto
  have "take_bit Int8 (eval \<sigma> value) = eval \<sigma> value" for \<sigma>
    using take_bit_bv [OF bv_mono [OF eval_bv [OF assms(1), of \<sigma>], of Int8]] assms(3) by simp
  with b bits_create_refines(3) [OF assms(1) _ b(1)] bits_in_bounds(3) [OF b(1)] show ?thesis by (auto simp: refines_def byte_expr_def)
qed

lemma write_byte_value:
  assumes "wt value" "narrow value" "8 * k + 8 \<le> getWidth value"
  shows "\<exists>b. ExtractExpr_create R value (8 * k) Int8 = Some b \<and> byte_expr b \<and> (\<forall>\<sigma>. eval \<sigma> b = value_byte (eval \<sigma> value) k)
    \<and> (\<forall>\<sigma>. in_bounds \<sigma> value \<longrightarrow> in_bounds \<sigma> b)"
proof -
  obtain b where b: "ExtractExpr_create R value (8 * k) Int8 = Some b" "narrow b" using bits_create_total(1) [OF assms(1,2), of Int8 "8 * k"] assms(3) by auto
  with bits_create_refines(1) [OF assms(1) b(1)] bits_in_bounds(1) [OF b(1)] show ?thesis
    by (auto simp: refines_def byte_expr_def value_byte_def)
qed

text \<open>A value of one byte.\<close>

lemma stores_word_byte:
  assumes "access_bytes (getWidth value) = 1" "stores_at os C pos (\<lambda>\<sigma>. value_byte (eval \<sigma> value) 0) r"
  shows "stores_word M os C pos value r"
proof -
  have "written M 1 p v f i = (if i = p then value_byte v 0 else f i)" for p v i and f :: "nat \<Rightarrow> int"
    by (auto simp: written_def byte_index_def)
  with assms show ?thesis by (simp add: stores_at_def stores_word_def)
qed

text \<open>A value of several bytes, written by a loop.\<close>

lemma stores_word_loop:
  assumes "os_ok os" "access_bytes (getWidth value) = n" "\<And>\<sigma>. C \<sigma> \<Longrightarrow> pos \<sigma> + n \<le> os_size os"
    "\<And>k os' w'. k < n \<Longrightarrow> os_ok os' \<Longrightarrow> os_size os' = os_size os \<Longrightarrow>
       stores_at os' C (\<lambda>\<sigma>. pos \<sigma> + byte_index M n k) (\<lambda>\<sigma>. value_byte (eval \<sigma> value) k) (f k (os', w'))"
  shows "stores_word M os C pos value (for_loop f 0 n (os, w))"
  unfolding stores_word_def assms(2)
proof (rule write_loop_ok [where pos = pos and C = C and M = M and v = "\<lambda>\<sigma>. eval \<sigma> value", OF assms(1)])
qed (use assms(3,4) in blast)+

lemma write_bytes_ok:
  assumes "os_ok os" "p + n \<le> os_size os" "access_bytes (getWidth value) = n" "\<And>\<sigma>. eval \<sigma> value = uint v"
  shows "stores_word M os (\<lambda>_. True) (\<lambda>_. p) value (write_bytes M n p v (os, w))"
  unfolding write_bytes_def
proof (rule stores_word_loop [OF assms(1,3)])
  fix k os' w' assume k: "k < n" "os_ok os'" "os_size os' = os_size os"
  have sz: "os_size os < 2 ^ 32" using os_okD(1) [OF assms(1)] by (simp add: shape_def)
  have i: "byte_index M n k < n" using byte_index_involution [OF k(1)] by blast
  then have a: "add32 p (byte_index M n k) = p + byte_index M n k" "p + byte_index M n k < os_size os'"
    using assms(2) sz k(3) by (simp_all add: add32_def)
  have "uint (ucast (drop_bit (8 * k) v) :: 8 word) = value_byte (uint v) k"
    using uint_lt2p [of v] by (simp add: value_byte_def unsigned_ucast_eq unsigned_drop_bit_eq take_bit_int_eq_self [of "uint v"])
  with stores_byte_at [OF write8_byte_ok [OF k(2) a(2)], of "\<lambda>_. True"] assms(4)
  show "stores_at os' (\<lambda>_. True) (\<lambda>\<sigma>. p + byte_index M n k) (\<lambda>\<sigma>. value_byte (eval \<sigma> value) k)
      (write8_byte (add32 p (byte_index M n k)) (ucast (drop_bit (8 * k) v)) (os', w'))"
    unfolding a(1) by simp
qed (use assms(2) in simp)

lemma stores_word_mono: "stores_word M os C pos value r \<Longrightarrow> (\<And>\<sigma>. C' \<sigma> \<Longrightarrow> C \<sigma>) \<Longrightarrow> stores_word M os C' pos value r"
  unfolding stores_word_def by blast

lemma value_byte_self: "bv 8 v \<Longrightarrow> value_byte v 0 = v"
  by (simp add: value_byte_def take_bit_bv)

lemma ucast_narrow: "bv LENGTH('b) (uint (v :: 64 word)) \<Longrightarrow> LENGTH('b :: len) \<le> 64 \<Longrightarrow> uint (ucast (ucast v :: 'b word) :: 64 word) = uint v"
  by (simp add: unsigned_ucast_eq take_bit_bv unsigned_take_bit_eq)

lemma write_constant_ok:
  assumes "os_ok os" "ap_wf c" "getBitWidth c \<in> {1, 8, 16, 32, 64}" "p + access_bytes (getBitWidth c) \<le> os_size os"
  shows "stores_word M os (\<lambda>_. True) (\<lambda>_. p) (ConstantExpr c) (write_const R M p (ConstantExpr c) (os, w))"
proof -
  obtain v where v: "ConstantExpr_getZExtValue c 64 = Some v" "uint v = apValue c"
    using getZExtValue_narrow [of c 64] getZExtValue_Some(2) [of c 64] assms(2,3) by auto
  have b: "bv (getBitWidth c) (uint v)" using assms(2) v(2) by (simp add: ap_wf_def)
  consider "getBitWidth c \<in> {1, 8}" | "getBitWidth c = 16" | "getBitWidth c = 32" | "getBitWidth c = 64" using assms(3) by blast
  then show ?thesis
  proof cases
    case 1
    then have n: "access_bytes (getWidth (ConstantExpr c)) = 1" "p < os_size os" "bv 8 (uint v)"
      using assms(4) b bv_mono [OF b, of 8] by (auto simp: access_bytes_def)
    have "uint (ucast v :: 8 word) = value_byte (apValue c) 0"
      using n(3) v(2) by (simp add: unsigned_ucast_eq value_byte_self take_bit_bv)
    then have "stores_at os (\<lambda>_. True) (\<lambda>_. p) (\<lambda>\<sigma>. value_byte (eval \<sigma> (ConstantExpr c)) 0) (write8_byte p (ucast v) (os, w))"
      using stores_byte_at [OF write8_byte_ok [OF assms(1) n(2)], of "\<lambda>_. True"] by simp
    from stores_word_byte [OF n(1) this] 1 v(1) show ?thesis by (auto simp: write_const_def Let_def)
  next
    case 2
    with write_bytes_ok [OF assms(1), of p 2 "ConstantExpr c" "ucast (ucast v :: 16 word)" M w] ucast_narrow [where 'b = 16, of v] b assms(4) v
    show ?thesis by (simp add: write_const_def Let_def write16_def access_bytes_def)
  next
    case 3
    with write_bytes_ok [OF assms(1), of p 4 "ConstantExpr c" "ucast (ucast v :: 32 word)" M w] ucast_narrow [where 'b = 32, of v] b assms(4) v
    show ?thesis by (simp add: write_const_def Let_def write32_def access_bytes_def)
  next
    case 4
    with write_bytes_ok [OF assms(1), of p 8 "ConstantExpr c" v M w] assms(4) v
    show ?thesis by (simp add: write_const_def Let_def write64_def access_bytes_def)
  qed
qed

lemma write_const_ok:
  assumes "os_ok os" "wt value" "narrow value" "getWidth value \<in> {1, 8, 16, 32, 64}" "p + access_bytes (getWidth value) \<le> os_size os"
  shows "stores_word M os (\<lambda>\<sigma>. in_bounds \<sigma> value) (\<lambda>_. p) value (write_const R M p value (os, w))"
proof (cases "dyn_cast_Constant value")
  case (Some c)
  with write_constant_ok [OF assms(1), of c p] assms show ?thesis by (auto intro: stores_word_mono)
next
  case None
  have sz: "os_size os < 2 ^ 32" using os_okD(1) [OF assms(1)] by (simp add: shape_def)
  show ?thesis
  proof (cases "getWidth value = Bool")
    case True
    obtain b where b: "ZExtExpr_create R value Int8 = Some b" "byte_expr b" "\<And>\<sigma>. eval \<sigma> b = eval \<sigma> value" "\<And>\<sigma>. in_bounds \<sigma> value \<Longrightarrow> in_bounds \<sigma> b"
      using write_Bool_value [OF assms(2,3) True] by blast
    have "value_byte (eval \<sigma> value) 0 = eval \<sigma> value" for \<sigma>
      using value_byte_self [OF bv_mono [OF eval_bv [OF assms(2), of \<sigma>], of 8]] True by simp
    with stores_byte_at [OF write8_ok [OF assms(1) _ b(2), of p w], of "\<lambda>\<sigma>. in_bounds \<sigma> value" "\<lambda>_. p" "\<lambda>\<sigma>. value_byte (eval \<sigma> value) 0"] b assms(5) True
    have "stores_at os (\<lambda>\<sigma>. in_bounds \<sigma> value) (\<lambda>_. p) (\<lambda>\<sigma>. value_byte (eval \<sigma> value) 0) (write8 p b (os, w))"
      by (simp add: access_bytes_def)
    from stores_word_byte [OF _ this] True None b(1) show ?thesis by (simp add: write_const_def Let_def access_bytes_def)
  next
    case False
    define n where "n = getWidth value div 8"
    have n: "access_bytes (getWidth value) = n" "getWidth value = n * 8" using False assms(4) by (auto simp: access_bytes_def n_def)
    have "stores_at os' (\<lambda>\<sigma>. in_bounds \<sigma> value) (\<lambda>\<sigma>. p + byte_index M n k) (\<lambda>\<sigma>. value_byte (eval \<sigma> value) k)
        (do { b \<leftarrow> ExtractExpr_create R value (8 * k) Int8; write8 (add32 p (byte_index M n k)) b (os', w') })"
      if k: "k < n" "os_ok os'" "os_size os' = os_size os" for k os' w'
    proof -
      obtain b where b: "ExtractExpr_create R value (8 * k) Int8 = Some b" "byte_expr b" "\<And>\<sigma>. eval \<sigma> b = value_byte (eval \<sigma> value) k"
        "\<And>\<sigma>. in_bounds \<sigma> value \<Longrightarrow> in_bounds \<sigma> b"
        using write_byte_value [OF assms(2,3), of k] n(2) k(1) by auto
      have i: "byte_index M n k < n" using byte_index_involution [OF k(1)] by blast
      then have a: "add32 p (byte_index M n k) = p + byte_index M n k" "p + byte_index M n k < os_size os'"
        using assms(5) n(1) sz k(3) by (simp_all add: add32_def)
      from stores_byte_at [OF write8_ok [OF k(2) a(2) b(2), of w'], of "\<lambda>\<sigma>. in_bounds \<sigma> value"] b show ?thesis unfolding a(1) by simp
    qed
    note st = this
    have "write_const R M p value (os, w) = for_loop (\<lambda>k s. do { b \<leftarrow> ExtractExpr_create R value (8 * k) Int8; write8 (add32 p (byte_index M n k)) b s }) 0 n (os, w)"
      using False None n(2) by (simp add: write_const_def Let_def)
    moreover have "stores_word M os (\<lambda>\<sigma>. in_bounds \<sigma> value) (\<lambda>_. p) value
        (for_loop (\<lambda>k s. do { b \<leftarrow> ExtractExpr_create R value (8 * k) Int8; write8 (add32 p (byte_index M n k)) b s }) 0 n (os, w))"
    proof (rule stores_word_loop [OF assms(1) n(1)])
    qed (use assms(5) n(1) st in auto)
    ultimately show ?thesis by simp
  qed
qed

text \<open>The store of one byte of the value at a symbolic offset.\<close>

lemma write8_index_ok:
  assumes "offset_at R offset n (os_size os) o'" "dyn_cast_Constant o' = None" "idx < n" "n \<le> 8" "os_ok os" "byte_expr b"
    "\<And>\<sigma>. in_bounds \<sigma> value \<Longrightarrow> in_bounds \<sigma> b" "\<And>\<sigma>. eval \<sigma> b = v \<sigma>"
  shows "stores_at os (\<lambda>\<sigma>. in_range \<sigma> offset n (os_size os) \<and> in_bounds \<sigma> value) (\<lambda>\<sigma>. access_position \<sigma> offset + idx) v
    (do { x \<leftarrow> add_index R o' idx; write8_expr R x b (os, w) })"
proof -
  have sz: "os_size os < 2 ^ 32" using os_okD(1) [OF assms(5)] by (simp add: shape_def)
  obtain x where x: "add_index R o' idx = Some x" "wt x" "narrow x" "getWidth x = Int32" "\<not> is_constant x"
    "\<And>\<sigma>. in_range \<sigma> offset n (os_size os) \<Longrightarrow>
       in_bounds \<sigma> x \<and> eval \<sigma> x = int (access_position \<sigma> offset + idx) \<and> eval \<sigma> x < int (os_size os)"
    using index_at [OF assms(1-3) sz assms(4)] by blast
  have "stores_at os (\<lambda>\<sigma>. in_range \<sigma> offset n (os_size os) \<and> in_bounds \<sigma> value) (\<lambda>\<sigma>. access_position \<sigma> offset + idx) v (write8_expr R x b (os, w))"
    by (rule stores_byte_at [OF write8_expr_ok [OF assms(5) x(2-5) assms(6)]]) (use x(6) assms(7,8) in auto)
  then show ?thesis by (simp add: x(1))
qed

lemma write_symbolic_ok:
  assumes "os_ok os" "wt value" "narrow value" "getWidth value \<in> {1, 8, 16, 32, 64}"
    "offset_at R offset (access_bytes (getWidth value)) (os_size os) o'" "dyn_cast_Constant o' = None"
  shows "stores_word M os (\<lambda>\<sigma>. in_range \<sigma> offset (access_bytes (getWidth value)) (os_size os) \<and> in_bounds \<sigma> value)
    (\<lambda>\<sigma>. access_position \<sigma> offset) value (write_mem R M offset value (os, w))"
proof -
  have z: "ZExtExpr_create R offset Int32 = Some o'" using assms(5) by (simp add: offset_at_def)
  show ?thesis
  proof (cases "getWidth value = Bool")
    case True
    obtain b where b: "ZExtExpr_create R value Int8 = Some b" "byte_expr b" "\<And>\<sigma>. eval \<sigma> b = eval \<sigma> value" "\<And>\<sigma>. in_bounds \<sigma> value \<Longrightarrow> in_bounds \<sigma> b"
      using write_Bool_value [OF assms(2,3) True] by blast
    have o: "\<not> is_constant o'" "wt o'" "narrow o'" "getWidth o' = Int32"
      using assms(5,6) sum_core_constant [of o'] by (auto simp: offset_at_def)
    have v: "value_byte (eval \<sigma> value) 0 = eval \<sigma> value" for \<sigma>
      using value_byte_self [OF bv_mono [OF eval_bv [OF assms(2), of \<sigma>], of 8]] True by simp
    have "stores_at os (\<lambda>\<sigma>. in_range \<sigma> offset 1 (os_size os) \<and> in_bounds \<sigma> value) (\<lambda>\<sigma>. access_position \<sigma> offset)
        (\<lambda>\<sigma>. value_byte (eval \<sigma> value) 0) (write8_expr R o' b (os, w))"
      by (rule stores_byte_at [OF write8_expr_ok [OF assms(1) o(2-4) o(1) b(2)]]) (use b v assms(5) in \<open>auto simp: offset_at_def in_range_def\<close>)
    from stores_word_byte [OF _ this] True z assms(6) b(1) show ?thesis by (simp add: write_mem_def access_bytes_def)
  next
    case False
    define n where "n = getWidth value div 8"
    have n: "access_bytes (getWidth value) = n" "getWidth value = n * 8" "n \<le> 8" using False assms(4) by (auto simp: access_bytes_def n_def)
    have "stores_at os' (\<lambda>\<sigma>. in_range \<sigma> offset n (os_size os) \<and> in_bounds \<sigma> value) (\<lambda>\<sigma>. access_position \<sigma> offset + byte_index M n k)
        (\<lambda>\<sigma>. value_byte (eval \<sigma> value) k)
        (do { x \<leftarrow> add_index R o' (byte_index M n k); b \<leftarrow> ExtractExpr_create R value (8 * k) Int8; write8_expr R x b (os', w') })"
      if k: "k < n" "os_ok os'" "os_size os' = os_size os" for k os' w'
    proof -
      obtain b where b: "ExtractExpr_create R value (8 * k) Int8 = Some b" "byte_expr b" "\<And>\<sigma>. eval \<sigma> b = value_byte (eval \<sigma> value) k"
        "\<And>\<sigma>. in_bounds \<sigma> value \<Longrightarrow> in_bounds \<sigma> b"
        using write_byte_value [OF assms(2,3), of k] n(2) k(1) by auto
      have i: "byte_index M n k < n" using byte_index_involution [OF k(1)] by blast
      have "offset_at R offset n (os_size os') o'" using assms(5) n(1) k(3) by simp
      from write8_index_ok [OF this assms(6) i n(3) k(2) b(2), of "value" "\<lambda>\<sigma>. value_byte (eval \<sigma> value) k" w'] b(3,4) k(3) show ?thesis
        by (simp add: b(1))
    qed
    note st = this
    have "write_mem R M offset value (os, w) = for_loop (\<lambda>k s. do { x \<leftarrow> add_index R o' (byte_index M n k); b \<leftarrow> ExtractExpr_create R value (8 * k) Int8; write8_expr R x b s }) 0 n (os, w)"
      using False z assms(6) n(2) by (simp add: write_mem_def Let_def)
    moreover have "stores_word M os (\<lambda>\<sigma>. in_range \<sigma> offset n (os_size os) \<and> in_bounds \<sigma> value) (\<lambda>\<sigma>. access_position \<sigma> offset) value
        (for_loop (\<lambda>k s. do { x \<leftarrow> add_index R o' (byte_index M n k); b \<leftarrow> ExtractExpr_create R value (8 * k) Int8; write8_expr R x b s }) 0 n (os, w))"
    proof (rule stores_word_loop [OF assms(1) n(1)])
    qed (use st in \<open>auto simp: in_range_def\<close>)
    ultimately show ?thesis using n(1) by simp
  qed
qed

lemma write_mem_ok:
  assumes "os_ok os" "wt value" "narrow value" "getWidth value \<in> {1, 8, 16, 32, 64}"
    "offset_ok R offset (access_bytes (getWidth value)) (os_size os)"
  shows "stores_word M os (\<lambda>\<sigma>. in_range \<sigma> offset (access_bytes (getWidth value)) (os_size os) \<and> in_bounds \<sigma> value)
    (\<lambda>\<sigma>. access_position \<sigma> offset) value (write_mem R M offset value (os, w))"
proof -
  obtain o' where o: "offset_at R offset (access_bytes (getWidth value)) (os_size os) o'" using offset_ok_at [OF assms(5)] by blast
  show ?thesis
  proof (cases "dyn_cast_Constant o'")
    case (Some c)
    then obtain p where p: "p < 2 ^ 32" "o' = ConstantExpr (APInt Int32 (int p))" "p + access_bytes (getWidth value) \<le> os_size os"
      using o by (auto simp: offset_at_def)
    have a: "access_position \<sigma> offset = p" for \<sigma> using o p(2) by (simp add: offset_at_def)
    have "write_mem R M offset value (os, w) = write_const R M p value (os, w)"
      using o p(2) position_value [OF p(1)] unat_position [OF p(1)] by (simp add: write_mem_def offset_at_def)
    moreover have "stores_word M os (\<lambda>\<sigma>. in_range \<sigma> offset (access_bytes (getWidth value)) (os_size os) \<and> in_bounds \<sigma> value) (\<lambda>_. p) value
        (write_const R M p value (os, w))"
      by (rule stores_word_mono [OF write_const_ok [OF assms(1-4) p(3)]]) simp
    ultimately show ?thesis using a by simp
  qed (rule write_symbolic_ok [OF assms(1-4) o])
qed

end
end
