(* ===== verification/ObjectStates.thy ===== *)
theory ObjectStates
  imports ObjectWords
begin

text \<open>
  The states that an \<^verbatim>\<open>ObjectState\<close> can reach: the constructors of \<^verbatim>\<open>src/klee/lib/Core/Memory.cpp\<close>, copies,
  initialisation, reads and writes. Every one keeps the invariant, and a read returns what the last
  writes left.
\<close>

section \<open>Constructors\<close>

definition array_for :: "shared_object \<Rightarrow> klee_array \<Rightarrow> bool" where
  "array_for mo a \<longleftrightarrow> array_ok a \<and> arr_size a = unat (mo_size mo)"

lemma new_full_state_shape:
  assumes "\<not> isSharedConcrete mo" "length bytes = unat (mo_size mo)" "\<And>a. r = Some a \<Longrightarrow> array_for mo a"
  shows "shape (new_full_state mo bytes (r, NoUpdate))"
  using assms unsigned_less [of "mo_size mo"] by (auto simp: shape_def new_full_state_def array_for_def)

lemma concrete_state_ok:
  assumes "shape os" "concreteMask os = None" "flushMask os = None" "knownSymbolics os = None"
  shows "os_ok os \<and> (\<forall>\<sigma> i. content \<sigma> os i = uint (concreteStore os ! i))"
  using assms by (simp add: os_ok_def byte_ok_def isByteConcrete_def isByteFlushed_def isByteKnownSymbolic_def knownSymbolic_def content_def)

lemma new_full_state_fields:
  "concreteMask (new_full_state mo bytes ul) = None" "flushMask (new_full_state mo bytes ul) = None"
  "knownSymbolics (new_full_state mo bytes ul) = None" "concreteStore (new_full_state mo bytes ul) = bytes"
  "os_size (new_full_state mo bytes ul) = unat (mo_size mo)" "os_object (new_full_state mo bytes ul) = mo"
  "updates (new_full_state mo bytes ul) = ul"
  by (simp_all add: new_full_state_def)

lemma fresh_array: "array_for mo \<lparr>arr_addr = p, arr_name = name, arr_size = unat (mo_size mo), constantValues = []\<rparr>"
  using unsigned_less [of "mo_size mo"] by (simp add: array_for_def array_ok_def)

lemma new_ObjectState_ok:
  assumes "\<not> isSharedConcrete mo" "length bytes = unat (mo_size mo)" "new_ObjectState M mo bytes w = (os, w')"
  shows "os_ok os" "os_size os = unat (mo_size mo)" "\<And>\<sigma> i. content \<sigma> os i = uint (bytes ! i)"
proof -
  have "shape os"
    using assms fresh_array by (cases "UseConstantArrays M") (auto simp: new_ObjectState_def Let_def intro!: new_full_state_shape)
  moreover have "concreteMask os = None" "flushMask os = None" "knownSymbolics os = None" "concreteStore os = bytes" "os_size os = unat (mo_size mo)"
    using assms(3) by (cases "UseConstantArrays M"; auto simp: new_ObjectState_def Let_def new_full_state_fields)+
  ultimately show "os_ok os" "os_size os = unat (mo_size mo)" "\<And>\<sigma> i. content \<sigma> os i = uint (bytes ! i)"
    using concrete_state_ok [of os] by simp_all
qed

lemma markByteFlushed_fields [simp]:
  "os_size (markByteFlushed i os) = os_size os" "os_object (markByteFlushed i os) = os_object os" "updates (markByteFlushed i os) = updates os"
  "isByteConcrete (markByteFlushed i os) j = isByteConcrete os j" "knownSymbolic (markByteFlushed i os) j = knownSymbolic os j"
  by (simp_all add: markByteFlushed_def isByteConcrete_def knownSymbolic_def)

lemma markByteFlushed_own:
  assumes "shape os" "i < os_size os" "j < os_size os"
  shows "shape (markByteFlushed i os)" "isByteFlushed (markByteFlushed i os) j \<longleftrightarrow> i = j \<or> flushMask os = None \<or> isByteFlushed os j"
  using assms by (auto simp: shape_def markByteFlushed_def isByteFlushed_def ba.valid_rules ba.get_new ba.get_unset split: option.splits)

text \<open>The loop of \<^verbatim>\<open>makeSymbolic\<close> leaves every byte to the array.\<close>

lemma makeSymbolic_ok:
  assumes "shape os" "snd (updates os) = NoUpdate"
  shows "\<exists>os'. makeSymbolic os = Some os' \<and> os_ok os' \<and> os_size os' = os_size os \<and> updates os' = updates os
    \<and> (\<forall>\<sigma>. \<forall>i<os_size os. content \<sigma> os' i = update_value \<sigma> os i)"
proof -
  define Q where "Q k s \<longleftrightarrow> shape s \<and> os_size s = os_size os \<and> updates s = updates os
    \<and> (\<forall>j<k. isByteFlushed s j \<and> \<not> isByteConcrete s j \<and> knownSymbolic s j = None)" for k s
  have "Q (Suc j) (markByteFlushed j (setKnownSymbolic j None (markByteSymbolic j s)))" if "Q j s" "j < os_size os" for j s
  proof -
    have s: "shape s" "os_size s = os_size os" "updates s = updates os" using that(1) by (simp_all add: Q_def)
    let ?t = "setKnownSymbolic j None (markByteSymbolic j s)"
    have t: "shape ?t" "os_size ?t = os_size os" "updates ?t = updates os" using s by simp_all
    show ?thesis
      using that markByteFlushed_own [OF t(1), of j] s t(2,3) mark_own [OF s(1), of j] mark_own [OF mark_shape(2) [OF s(1)], of j]
      by (auto simp: Q_def less_Suc_eq)
  qed
  moreover have "Q 0 os" using assms by (simp add: Q_def)
  ultimately obtain os' where os': "makeSymbolic os = Some os'" "Q (os_size os) os'"
    using for_loop_rule [of Q 0 os "os_size os" "\<lambda>i os. Some (markByteFlushed i (setKnownSymbolic i None (markByteSymbolic i os)))"] assms(2)
    by (auto simp: makeSymbolic_def)
  then have c: "content \<sigma> os' i = update_value \<sigma> os' i" "update_value \<sigma> os' i = update_value \<sigma> os i" if "i < os_size os" for \<sigma> i
    using that by (simp_all add: Q_def content_def update_value_def root_array_def cong: option.case_cong)
  with os' show ?thesis by (auto simp: Q_def os_ok_def byte_ok_def isByteKnownSymbolic_def)
qed

lemma new_symbolic_ObjectState_ok:
  assumes "\<not> isSharedConcrete mo" "length bytes = unat (mo_size mo)" "array_for mo a"
  shows "\<exists>os. new_symbolic_ObjectState mo a bytes = Some os \<and> os_ok os \<and> os_size os = unat (mo_size mo)
    \<and> (\<forall>\<sigma>. \<forall>i<os_size os. content \<sigma> os i = initial_value \<sigma> a (int i))"
  using makeSymbolic_ok [OF new_full_state_shape [OF assms(1,2)], of "Some a"] assms(3)
  by (auto simp: new_symbolic_ObjectState_def new_full_state_fields update_value_def root_array_def)

text \<open>The owner and the read-only flag say nothing of the contents.\<close>

lemma owner_fields [simp]:
  fixes os :: full_state and c :: "32 word" and r :: bool
  defines "os' \<equiv> os\<lparr>copyOnWriteOwner := c, readOnly := r\<rparr>"
  shows "isByteConcrete os' i = isByteConcrete os i" "isByteFlushed os' i = isByteFlushed os i" "knownSymbolic os' i = knownSymbolic os i"
    "update_value \<sigma> os' i = update_value \<sigma> os i" "content \<sigma> os' i = content \<sigma> os i" "shape os' = shape os"
  by (simp_all add: os'_def content_def isByteConcrete_def isByteFlushed_def knownSymbolic_def update_value_def root_array_def shape_def cong: option.case_cong)

lemma copy_ObjectState_ok:
  assumes "os_ok os" "copy_ObjectState os = Some os'"
  shows "os_ok os' \<and> same_bytes os os' \<and> copyOnWriteOwner os' = 0"
proof -
  have s: "shape os" using os_okD(1) [OF assms(1)] .
  have "os' = os\<lparr>copyOnWriteOwner := 0, readOnly := False\<rparr>"
    using assms(2) s ba_get_copy
    by (cases "concreteMask os"; cases "flushMask os"; cases "knownSymbolics os") (auto simp: copy_ObjectState_def shape_def split: if_splits)
  with assms(1) show ?thesis
    by (simp add: os_ok_def byte_ok_def same_bytes_def os_safe_def isByteKnownSymbolic_def)
qed

lemma initialize_ok:
  assumes "os_ok os" "os' = initializeToZero os \<and> b = 0 \<or> os' = initializeToRandom os \<and> b = (0xAB :: 8 word)"
  shows "os_ok os'" "os_size os' = os_size os" "\<And>\<sigma> i. i < os_size os \<Longrightarrow> content \<sigma> os' i = uint b"
proof -
  have os': "os' = (makeConcrete os)\<lparr>concreteStore := replicate (os_size os) b\<rparr>" using assms(2) by (auto simp: initializeToZero_def initializeToRandom_def)
  have "shape os'" using os_okD(1) [OF assms(1)] os' by (simp add: shape_def makeConcrete_def)
  from concrete_state_ok [OF this] os' show "os_ok os'" "os_size os' = os_size os" "\<And>\<sigma> i. i < os_size os \<Longrightarrow> content \<sigma> os' i = uint b"
    by (simp_all add: makeConcrete_def)
qed

section \<open>Reachable states\<close>

text \<open>
  An access is within the object for a constant offset; the solver has checked a symbolic one before. The
  contents of an object that is shared with the process are not those of the state.
\<close>

definition access_ok :: "klee_rt \<Rightarrow> full_state \<Rightarrow> expr \<Rightarrow> width \<Rightarrow> bool" where
  "access_ok R os offset width \<longleftrightarrow> width \<in> {1, 8, 16, 32, 64} \<and> offset_ok R offset (access_bytes width) (os_size os)"

definition value_ok :: "expr \<Rightarrow> bool" where
  "value_ok value \<longleftrightarrow> wt value \<and> narrow value"

inductive object_reach :: "klee_rt \<Rightarrow> memory_rt \<Rightarrow> full_state \<times> world \<Rightarrow> bool" for R M where
  created: "\<not> isSharedConcrete mo \<Longrightarrow> length bytes = unat (mo_size mo) \<Longrightarrow> object_reach R M (new_ObjectState M mo bytes w)"
| symbolic: "\<not> isSharedConcrete mo \<Longrightarrow> length bytes = unat (mo_size mo) \<Longrightarrow> array_for mo a \<Longrightarrow>
    new_symbolic_ObjectState mo a bytes = Some os \<Longrightarrow> object_reach R M (os, w)"
| copied: "object_reach R M (os, w) \<Longrightarrow> copy_ObjectState os = Some os' \<Longrightarrow> object_reach R M (os', w)"
| zeroed: "object_reach R M (os, w) \<Longrightarrow> object_reach R M (initializeToZero os, w)"
| randomized: "object_reach R M (os, w) \<Longrightarrow> object_reach R M (initializeToRandom os, w)"
| was_read: "object_reach R M (os, w) \<Longrightarrow> access_ok R os offset width \<Longrightarrow> read R M offset width (os, w) = Some (r, s) \<Longrightarrow> object_reach R M s"
| was_written: "object_reach R M (os, w) \<Longrightarrow> access_ok R os offset (getWidth value) \<Longrightarrow> value_ok value \<Longrightarrow>
    write_mem R M offset value (os, w) = Some s \<Longrightarrow> object_reach R M s"

lemma read_step_null: "idx \<noteq> 0 \<Longrightarrow> read_step R rd idx (None, s) = None"
  by (simp add: read_step_def split: bind_splits)

text \<open>In big-endian order the first byte read is the last of the value, which is joined to nothing.\<close>

lemma read_loop_null:
  assumes "\<not> isLittleEndian M" "1 < n"
  shows "for_loop (\<lambda>i. read_step R rd (byte_index M n i)) 0 n (None, s) = None"
proof -
  obtain k where "n = Suc k" "byte_index M n 0 \<noteq> 0" using assms by (cases n) (auto simp: byte_index_def)
  then show ?thesis using read_step_null [of "byte_index M n 0" R rd s] by simp
qed

lemma read_null:
  assumes "\<not> isLittleEndian M" "width \<in> {16, 32, 64}"
  shows "read R M offset width s = None"
proof -
  have "1 < width div 8" "width \<noteq> Bool" using assms(2) by auto
  with read_loop_null [OF assms(1)] show ?thesis
    by (auto simp: read_def read_const_def Let_def split: bind_splits option.splits)
qed

context klee_rt_laws
begin

lemma read_state_ok:
  assumes "os_ok os" "access_ok R os offset width" "read R M offset width (os, w) = Some (r, s)"
  shows "os_ok (fst s)"
proof -
  have "isLittleEndian M \<or> access_bytes width = 1"
    using read_null [of M width R offset "(os, w)"] assms(2,3) by (auto simp: access_ok_def access_bytes_def)
  with read_ok [OF assms(1), of M width offset w] assms(2,3) show ?thesis by (auto simp: access_ok_def reads_word_def)
qed

lemma write_state_ok:
  assumes "os_ok os" "access_ok R os offset (getWidth value)" "value_ok value" "write_mem R M offset value (os, w) = Some s"
  shows "os_ok (fst s)"
  using write_mem_ok [OF assms(1), of "value" offset M w] assms(2-4) by (auto simp: access_ok_def value_ok_def stores_word_def)

lemma reach_ok: "object_reach R M s \<Longrightarrow> os_ok (fst s)"
proof (induction rule: object_reach.induct)
  case (created mo bytes w)
  then show ?case by (rule new_ObjectState_ok(1) [OF _ _ prod.collapse [symmetric]])
next
  case (symbolic mo bytes a os w)
  obtain os' where "new_symbolic_ObjectState mo a bytes = Some os'" "os_ok os'"
    using new_symbolic_ObjectState_ok [OF symbolic(1-3)] by blast
  with symbolic(4) show ?case by simp
next
  case (copied os w os')
  then show ?case using copy_ObjectState_ok [OF _ copied(2)] by simp
next
  case (zeroed os w)
  then show ?case using initialize_ok(1) [of os "initializeToZero os" 0] by simp
next
  case (randomized os w)
  then show ?case using initialize_ok(1) [of os "initializeToRandom os" "0xAB"] by simp
next
  case (was_read os w offset width r s)
  then show ?case using read_state_ok [OF _ was_read(2,3)] by simp
next
  case (was_written os w offset "value" s)
  then show ?case using write_state_ok [OF _ was_written(2-4)] by simp
qed

end

section \<open>An object of four bytes\<close>

text \<open>A state for the examples, and an offset that is the first byte of a symbolic array.\<close>

definition little :: memory_rt where
  "little = \<lparr>isLittleEndian = True, UseConstantArrays = True, utostr = (\<lambda>_. []), new_address = length\<rparr>"

definition small_world :: world where
  "small_world = \<lparr>native = (\<lambda>_. 0), tmp_arr_id = 0, const_arr_id = 0\<rparr>"

definition small_object :: shared_object where
  "small_object = \<lparr>mo_id = 1, mo_address = 4096, mo_size = 4, isUserSpecified = False, isSharedConcrete = False\<rparr>"

definition small_state :: full_state where
  "small_state = fst (new_ObjectState little small_object [1, 2, 3, 4] small_world)"

definition offset_array :: klee_array where
  "offset_array = \<lparr>arr_addr = 1, arr_name = ''offset'', arr_size = 1, constantValues = []\<rparr>"

definition symbolic_offset :: expr where
  "symbolic_offset = CastExpr ZExt (ReadExpr offset_array NoUpdate (ConstantExpr (APInt 32 0))) 32"

lemma small_state_new: "new_ObjectState little small_object [1, 2, 3, 4] small_world = (small_state, small_world)"
  by (simp add: small_state_def new_ObjectState_def little_def)

lemma small_state_ok:
  "os_ok small_state" "os_size small_state = 4" "content \<sigma> small_state i = uint ([1, 2, 3, 4 :: 8 word] ! i)" "os_safe \<sigma> small_state"
  "object_reach R little (small_state, small_world)"
proof -
  have h: "\<not> isSharedConcrete small_object" "length [1, 2, 3, 4 :: 8 word] = unat (mo_size small_object)" by (simp_all add: small_object_def)
  show "os_ok small_state" "content \<sigma> small_state i = uint ([1, 2, 3, 4 :: 8 word] ! i)" using new_ObjectState_ok(1,3) [OF h small_state_new] by blast+
  show "os_size small_state = 4" using new_ObjectState_ok(2) [OF h small_state_new] by (simp add: small_object_def)
  show "os_safe \<sigma> small_state"
    by (simp add: os_safe_def small_state_def new_ObjectState_def little_def new_full_state_def knownSymbolic_def)
  show "object_reach R little (small_state, small_world)" using object_reach.created [OF h, of R little small_world] by (simp add: small_state_new)
qed

lemma symbolic_offset_ok:
  "width \<in> {1, 8, 16, 32, 64} \<Longrightarrow> access_ok klee_rt_ref small_state symbolic_offset width"
  "in_range (\<lambda>_ _. 1) symbolic_offset 2 4" "access_position (\<lambda>_ _. 1) symbolic_offset = 1"
  by (simp_all add: access_ok_def offset_ok_def symbolic_offset_def offset_array_def array_ok_def ap_wf_def bv_def ZExtExpr_create.simps
      in_range_def access_position_def initial_value_def isConstantArray_def isSymbolicArray_def)

section \<open>Properties\<close>

text \<open>
  C2. \<^verbatim>\<open>ObjectState::read\<close> returns, for an access within the object, an expression of the asked width whose
  value is that of the bytes at the offset, the lowest first, whatever mixture of concrete bytes, known
  symbolic bytes and updates holds them; the flushing and the array that it may do change no byte. This holds for
  constant and for symbolic offsets, in little-endian order or for a single byte.
\<close>

theorem object_read_correct:
  assumes "klee_rt_laws R" "os_ok os" "access_ok R os offset width" "isLittleEndian M \<or> width \<le> 8"
  shows "\<exists>e os' w'. read R M offset width (os, w) = Some (Some e, os', w') \<and> wt e \<and> getWidth e = width
    \<and> os_ok os' \<and> os_size os' = os_size os \<and> (\<forall>\<sigma> i. i < os_size os \<longrightarrow> content \<sigma> os' i = content \<sigma> os i)
    \<and> (\<forall>\<sigma>. os_safe \<sigma> os \<and> in_range \<sigma> offset (access_bytes width) (os_size os) \<longrightarrow>
         eval \<sigma> e = take_bit width (bytes_value (\<lambda>k. content \<sigma> os (access_position \<sigma> offset + k)) (access_bytes width)))"
proof -
  have a: "width \<in> {1, 8, 16, 32, 64}" "offset_ok R offset (access_bytes width) (os_size os)" using assms(3) by (simp_all add: access_ok_def)
  have "isLittleEndian M \<or> access_bytes width = 1" using assms(4) a(1) by (auto simp: access_bytes_def)
  from klee_rt_laws.read_ok [OF assms(1,2) this a, of w] show ?thesis unfolding reads_word_def same_bytes_def by blast
qed

theorem object_read_correct_witness:
  "\<exists>e s. read klee_rt_ref little symbolic_offset 16 (small_state, small_world) = Some (Some e, s) \<and> eval (\<lambda>_ _. 1) e = 0x302"
proof -
  have "isLittleEndian little \<or> 16 \<le> (8 :: nat)" by (simp add: little_def)
  from object_read_correct [OF klee_rt_ref_laws small_state_ok(1) symbolic_offset_ok(1) this, of small_world] obtain e s where
    e: "read klee_rt_ref little symbolic_offset 16 (small_state, small_world) = Some (Some e, s)"
    "\<And>\<sigma>. os_safe \<sigma> small_state \<and> in_range \<sigma> symbolic_offset (access_bytes 16) (os_size small_state) \<Longrightarrow>
       eval \<sigma> e = take_bit 16 (bytes_value (\<lambda>k. content \<sigma> small_state (access_position \<sigma> symbolic_offset + k)) (access_bytes 16))"
    by auto
  have "bytes_value f 2 = push_bit 8 (f 1) OR f 0" for f by (simp add: numeral_2_eq_2)
  then have "bytes_value (\<lambda>k. uint ([1, 2, 3, 4 :: 8 word] ! (1 + k))) 2 = 0x302" by simp
  then have "eval (\<lambda>_ _. 1) e = 0x302"
    using e(2) [of "\<lambda>_ _. 1"] small_state_ok(2,3,4) symbolic_offset_ok(2,3) by (simp add: access_bytes_def)
  with e(1) show ?thesis by blast
qed

text \<open>
  C3. \<^verbatim>\<open>ObjectState::write\<close> succeeds for an access within the object and changes the bytes of the access, and no
  other: the \<^verbatim>\<open>k\<close>th byte of the value is at the place that the byte order gives it.
\<close>

theorem object_write_correct:
  assumes "klee_rt_laws R" "os_ok os" "access_ok R os offset (getWidth value)" "value_ok value"
  shows "\<exists>os' w'. write_mem R M offset value (os, w) = Some (os', w') \<and> os_ok os' \<and> os_size os' = os_size os \<and> os_object os' = os_object os
    \<and> (\<forall>\<sigma>. in_range \<sigma> offset (access_bytes (getWidth value)) (os_size os) \<and> in_bounds \<sigma> value \<longrightarrow>
         (\<forall>i<os_size os. content \<sigma> os' i =
            (let n = access_bytes (getWidth value); p = access_position \<sigma> offset in
             if p \<le> i \<and> i < p + n then value_byte (eval \<sigma> value) (byte_index M n (i - p)) else content \<sigma> os i)))"
proof -
  have a: "getWidth value \<in> {1, 8, 16, 32, 64}" "offset_ok R offset (access_bytes (getWidth value)) (os_size os)"
    "wt value" "narrow value" using assms(3,4) by (simp_all add: access_ok_def value_ok_def)
  from klee_rt_laws.write_mem_ok [OF assms(1,2) a(3,4,1,2), of M w] show ?thesis unfolding stores_word_def written_def Let_def by blast
qed

theorem object_write_correct_witness:
  "\<exists>os' w'. write_mem klee_rt_ref little symbolic_offset (ConstantExpr (APInt 16 0x0506)) (small_state, small_world) = Some (os', w')
    \<and> map (content (\<lambda>_ _. 1) os') [0, 1, 2, 3] = [1, 6, 5, 4]"
proof -
  let ?v = "ConstantExpr (APInt 16 0x0506)"
  have v: "access_ok klee_rt_ref small_state symbolic_offset (getWidth ?v)" "value_ok ?v"
    using symbolic_offset_ok(1) [of 16] by (simp_all add: value_ok_def ap_wf_def bv_def)
  from object_write_correct [OF klee_rt_ref_laws small_state_ok(1) v, of little small_world] obtain os' w' where
    o: "write_mem klee_rt_ref little symbolic_offset ?v (small_state, small_world) = Some (os', w')"
    "\<And>\<sigma> i. in_range \<sigma> symbolic_offset 2 4 \<Longrightarrow> i < 4 \<Longrightarrow> content \<sigma> os' i =
      (let p = access_position \<sigma> symbolic_offset in
       if p \<le> i \<and> i < p + 2 then value_byte 0x0506 (byte_index little 2 (i - p)) else uint ([1, 2, 3, 4 :: 8 word] ! i))"
    by (auto simp: small_state_ok access_bytes_def Let_def)
  have "map (content (\<lambda>_ _. 1) os') [0, 1, 2, 3] = [1, 6, 5, 4]"
    using o(2) [OF symbolic_offset_ok(2)] by (simp add: symbolic_offset_ok(3) byte_index_def little_def value_byte_def)
  with o(1) show ?thesis by (intro exI [of _ os'] exI [of _ w'] conjI)
qed

lemma bytes_of_written:
  assumes "isLittleEndian M \<or> n = 1" "bv w v" "w \<le> 8 * n"
  shows "take_bit w (bytes_value (\<lambda>k. written M n p v f (p + k)) n) = v"
proof -
  have "bytes_value (\<lambda>k. written M n p v f (p + k)) n = bytes_value (value_byte v) n"
    using assms(1) by (intro bytes_value_cong) (auto simp: written_def byte_index_def)
  with assms(2,3) show ?thesis by (simp add: bytes_value_of_value take_bit_bv bv_mono [of w v])
qed

text \<open>
  C10. A value that was written is read back: a read of the same width at the same offset returns an
  expression that is equal to the value under every assignment for which the access is within the object.
\<close>

theorem object_read_after_write:
  assumes "klee_rt_laws R" "os_ok os" "access_ok R os offset (getWidth value)" "value_ok value" "isLittleEndian M \<or> getWidth value \<le> 8"
  shows "\<exists>s e s'. write_mem R M offset value (os, w) = Some s \<and> read R M offset (getWidth value) s = Some (Some e, s')
    \<and> (\<forall>\<sigma>. os_safe \<sigma> os \<and> in_bounds \<sigma> value \<and> in_range \<sigma> offset (access_bytes (getWidth value)) (os_size os) \<longrightarrow> eval \<sigma> e = eval \<sigma> value)"
proof -
  let ?n = "access_bytes (getWidth value)"
  have a: "getWidth value \<in> {1, 8, 16, 32, 64}" "offset_ok R offset ?n (os_size os)" "wt value" "narrow value"
    using assms(3,4) by (simp_all add: access_ok_def value_ok_def)
  have n: "isLittleEndian M \<or> ?n = 1" "getWidth value \<le> 8 * ?n" using assms(5) a(1) by (auto simp: access_bytes_def)
  obtain os' w' where o: "write_mem R M offset value (os, w) = Some (os', w')" "os_ok os'" "os_size os' = os_size os"
    "\<And>\<sigma> i. in_range \<sigma> offset ?n (os_size os) \<Longrightarrow> in_bounds \<sigma> value \<Longrightarrow> i < os_size os \<Longrightarrow>
       content \<sigma> os' i = written M ?n (access_position \<sigma> offset) (eval \<sigma> value) (content \<sigma> os) i"
    "\<And>\<sigma>. os_safe \<sigma> os \<Longrightarrow> in_range \<sigma> offset ?n (os_size os) \<Longrightarrow> in_bounds \<sigma> value \<Longrightarrow> os_safe \<sigma> os'"
    using klee_rt_laws.write_mem_ok [OF assms(1,2) a(3,4,1,2), of M w] by (auto simp: stores_word_def)
  obtain e s' where e: "read R M offset (getWidth value) (os', w') = Some (Some e, s')"
    "\<And>\<sigma>. os_safe \<sigma> os' \<Longrightarrow> in_range \<sigma> offset ?n (os_size os) \<Longrightarrow>
       eval \<sigma> e = take_bit (getWidth value) (bytes_value (\<lambda>k. content \<sigma> os' (access_position \<sigma> offset + k)) ?n)"
    using klee_rt_laws.read_ok [OF assms(1) o(2) n(1) a(1), of offset w'] a(2) o(3) by (auto simp: reads_word_def)
  have "eval \<sigma> e = eval \<sigma> value" if "os_safe \<sigma> os" "in_bounds \<sigma> value" "in_range \<sigma> offset ?n (os_size os)" for \<sigma>
  proof -
    have "bytes_value (\<lambda>k. content \<sigma> os' (access_position \<sigma> offset + k)) ?n
        = bytes_value (\<lambda>k. written M ?n (access_position \<sigma> offset) (eval \<sigma> value) (content \<sigma> os) (access_position \<sigma> offset + k)) ?n"
      using o(4) [OF that(3,2)] that(3) by (intro bytes_value_cong) (simp add: in_range_def)
    with e(2) [OF o(5) [OF that(1,3,2)] that(3)] bytes_of_written [OF n(1) eval_bv [OF a(3)] n(2)] show ?thesis by simp
  qed
  with o(1) e(1) show ?thesis by blast
qed

theorem object_read_after_write_witness:
  "\<exists>s e s'. write_mem klee_rt_ref little symbolic_offset (ConstantExpr (APInt 16 0x0506)) (small_state, small_world) = Some s
    \<and> read klee_rt_ref little symbolic_offset 16 s = Some (Some e, s') \<and> eval (\<lambda>_ _. 1) e = 0x0506"
proof -
  let ?v = "ConstantExpr (APInt 16 0x0506)"
  have v: "access_ok klee_rt_ref small_state symbolic_offset (getWidth ?v)" "value_ok ?v" "isLittleEndian little \<or> getWidth ?v \<le> 8"
    using symbolic_offset_ok(1) [of 16] by (simp_all add: value_ok_def ap_wf_def bv_def little_def)
  from object_read_after_write [OF klee_rt_ref_laws small_state_ok(1) v, of small_world] obtain s e s' where
    o: "write_mem klee_rt_ref little symbolic_offset ?v (small_state, small_world) = Some s" "read klee_rt_ref little symbolic_offset 16 s = Some (Some e, s')"
    "\<And>\<sigma>. in_range \<sigma> symbolic_offset 2 4 \<Longrightarrow> eval \<sigma> e = 0x0506"
    by (auto simp: small_state_ok access_bytes_def)
  from o(3) [OF symbolic_offset_ok(2)] o(1,2) show ?thesis by blast
qed

text \<open>
  C11. In every state that an object reaches by construction, copies, initialisation, reads and writes, the
  comment \<^verbatim>\<open>Cache Invariants\<close> of \<^verbatim>\<open>Memory.cpp\<close> holds: a byte with a known symbolic value is not concrete, an unflushed
  byte is concrete or has a known symbolic value; and the update list has the current value of every flushed byte.
\<close>

theorem object_cache_invariant:
  assumes "klee_rt_laws R" "object_reach R M (os, w)" "i < os_size os"
  shows "(isByteKnownSymbolic os i \<longrightarrow> \<not> isByteConcrete os i)
    \<and> (\<not> isByteFlushed os i \<longrightarrow> isByteConcrete os i \<or> isByteKnownSymbolic os i)
    \<and> (isByteFlushed os i \<longrightarrow> (\<forall>\<sigma>. update_value \<sigma> os i = content \<sigma> os i))"
  using os_okD(2) [OF klee_rt_laws.reach_ok [OF assms(1,2), unfolded fst_conv] assms(3)] by (simp add: byte_ok_def)

theorem object_cache_invariant_witness:
  "\<not> isByteFlushed small_state 3 \<and> (isByteConcrete small_state 3 \<or> isByteKnownSymbolic small_state 3)"
proof -
  have "\<not> isByteFlushed small_state 3"
    by (simp add: small_state_def new_ObjectState_def little_def new_full_state_def isByteFlushed_def)
  with object_cache_invariant [OF klee_rt_ref_laws small_state_ok(5), of 3] show ?thesis by (simp add: small_state_ok)
qed

text \<open>
  C39. A big-endian read of more than one byte never returns: the first byte that the loop reads is the last of
  the value, and it is joined with a result that is still null.
\<close>

theorem read_big_endian_fails:
  assumes "\<not> isLittleEndian M" "width \<in> {16, 32, 64}"
  shows "read R M offset width s = None"
  by (rule read_null [OF assms])

theorem read_big_endian_fails_witness:
  "read klee_rt_ref (little\<lparr>isLittleEndian := False\<rparr>) (ConstantExpr (APInt 32 0)) 16 (small_state, small_world) = None"
  by (rule read_big_endian_fails) simp_all

end
