(* ===== verification/ConditionTree.thy ===== *)
theory ConditionTree
  imports ExprConst
begin

text \<open>
  Path constraints: \<^verbatim>\<open>ConditionNode\<close> and \<^verbatim>\<open>ConstraintManager\<close> of \<^verbatim>\<open>src/klee/include/klee/Constraints.h\<close> and
  \<^verbatim>\<open>src/klee/lib/Expr/Constraints.cpp\<close>. The constraints of all states are the nodes of one tree with pointers to
  the parents; a manager is a pair of pointers into it. The tree is a heap here, since the nodes are shared, the
  references to the children are weak, and a node is freed when its last owner lets go of it.
\<close>

section \<open>Nodes\<close>

record condition_node =
  cn_children :: "expr \<Rightarrow> nat option"
  cn_parent :: "nat option"
  cn_expr :: "expr option"
  cn_depth :: nat

record condition_tree =
  nodes :: "nat \<Rightarrow> condition_node option"
  next_node :: nat

definition root_node :: condition_node where
  "root_node = \<lparr>cn_children = (\<lambda>_. None), cn_parent = None, cn_expr = None, cn_depth = 0\<rparr>"

definition new_node :: "nat \<Rightarrow> nat \<Rightarrow> expr \<Rightarrow> condition_node" where
  "new_node parent d e = \<lparr>cn_children = (\<lambda>_. None), cn_parent = Some parent, cn_expr = Some e, cn_depth = d + 1\<rparr>"

text \<open>A weak pointer has expired when it was never set or when its node was freed.\<close>

definition expired :: "condition_tree \<Rightarrow> nat option \<Rightarrow> bool" where
  "expired t p = (case p of None \<Rightarrow> True | Some c \<Rightarrow> nodes t c = None)"

definition getOrCreate :: "nat \<Rightarrow> expr \<Rightarrow> condition_tree \<Rightarrow> (nat \<times> condition_tree) option" where
  "getOrCreate a e t =
     do { n \<leftarrow> nodes t a;
          if expired t (cn_children n e) then
            (let c = next_node t in
             Some (c, t\<lparr>nodes := (nodes t)(a \<mapsto> n\<lparr>cn_children := (cn_children n)(e \<mapsto> c)\<rparr>, c \<mapsto> new_node a (cn_depth n) e),
                        next_node := c + 1\<rparr>))
          else do { c \<leftarrow> cn_children n e; Some (c, t) } }"

section \<open>Managers\<close>

record constraint_manager =
  cm_root :: nat
  cm_head :: nat

fun addConstraint :: "expr \<Rightarrow> nat \<Rightarrow> condition_tree \<Rightarrow> (nat \<times> condition_tree) option" where
  "addConstraint (ConstantExpr c) head t = do { b \<leftarrow> ConstantExpr_isTrue c; require b; Some (head, t) }"
| "addConstraint (BinaryExpr And l r) head t = do { (head, t) \<leftarrow> addConstraint l head t; addConstraint r head t }"
| "addConstraint e head t = getOrCreate head e t"

text \<open>The walk of \<^verbatim>\<open>ConditionIterator\<close> from one node to another, the nodes it visits before the end.\<close>

primrec chain :: "nat \<Rightarrow> condition_tree \<Rightarrow> nat \<Rightarrow> nat \<Rightarrow> nat list option" where
  "chain 0 t r n = None"
| "chain (Suc k) t r n =
     (if n = r then Some []
      else do { nd \<leftarrow> nodes t n; p \<leftarrow> cn_parent nd; ns \<leftarrow> chain k t r p; Some (n # ns) })"

definition node_expr :: "condition_tree \<Rightarrow> nat \<Rightarrow> expr option" where
  "node_expr t n = do { nd \<leftarrow> nodes t n; cn_expr nd }"

definition cm_size :: "condition_tree \<Rightarrow> constraint_manager \<Rightarrow> nat" where
  "cm_size t m = (case nodes t (cm_head m) of None \<Rightarrow> 0 | Some nd \<Rightarrow> cn_depth nd)"

definition cm_empty :: "constraint_manager \<Rightarrow> bool" where
  "cm_empty m \<longleftrightarrow> cm_head m = cm_root m"

definition constraints :: "condition_tree \<Rightarrow> constraint_manager \<Rightarrow> expr list option" where
  "constraints t m = do { ns \<leftarrow> chain (cm_size t m + 1) t (cm_root m) (cm_head m); those (map (node_expr t) ns) }"

section \<open>Owners\<close>

text \<open>
  A shared pointer to a node is a member of a manager, an element of a list that someone else keeps, or the
  parent pointer of another node. Letting go of the last one frees the node, and then its own pointer to its
  parent goes; the depth bounds how far this can lead.
\<close>

definition owned :: "condition_tree \<Rightarrow> nat list \<Rightarrow> nat \<Rightarrow> bool" where
  "owned t owners n \<longleftrightarrow>
     n \<in> set owners \<or> (\<exists>m<next_node t. case nodes t m of None \<Rightarrow> False | Some md \<Rightarrow> cn_parent md = Some n)"

primrec release_node :: "nat \<Rightarrow> nat list \<Rightarrow> nat \<Rightarrow> condition_tree \<Rightarrow> condition_tree" where
  "release_node 0 owners n t = t"
| "release_node (Suc k) owners n t =
     (case nodes t n of
        None \<Rightarrow> t
      | Some nd \<Rightarrow>
          (if owned t owners n then t
           else (let t' = t\<lparr>nodes := (nodes t)(n := None)\<rparr> in
                 case cn_parent nd of None \<Rightarrow> t' | Some p \<Rightarrow> release_node k owners p t')))"

definition release :: "nat list \<Rightarrow> nat \<Rightarrow> condition_tree \<Rightarrow> condition_tree" where
  "release owners n t = release_node (case nodes t n of None \<Rightarrow> 0 | Some nd \<Rightarrow> cn_depth nd + 1) owners n t"

record constraint_system =
  cs_tree :: condition_tree
  cs_managers :: "constraint_manager list"
  cs_held :: "nat list"

definition owners :: "constraint_system \<Rightarrow> nat list" where
  "owners s = concat (map (\<lambda>m. [cm_root m, cm_head m]) (cs_managers s)) @ cs_held s"

definition let_go :: "nat \<Rightarrow> constraint_system \<Rightarrow> constraint_system" where
  "let_go n s = s\<lparr>cs_tree := release (owners s) n (cs_tree s)\<rparr>"

section \<open>Operations on the managers of a program\<close>

definition new_ConstraintManager :: "constraint_system \<Rightarrow> constraint_system" where
  "new_ConstraintManager s =
     (let t = cs_tree s; r = next_node t in
      s\<lparr>cs_tree := t\<lparr>nodes := (nodes t)(r \<mapsto> root_node), next_node := r + 1\<rparr>,
        cs_managers := cs_managers s @ [\<lparr>cm_root = r, cm_head = r\<rparr>]\<rparr>)"

definition copy_ConstraintManager :: "nat \<Rightarrow> constraint_system \<Rightarrow> constraint_system" where
  "copy_ConstraintManager i s = s\<lparr>cs_managers := cs_managers s @ [cs_managers s ! i]\<rparr>"

definition assign_ConstraintManager :: "nat \<Rightarrow> nat \<Rightarrow> constraint_system \<Rightarrow> constraint_system" where
  "assign_ConstraintManager i j s =
     (let m = cs_managers s ! i; other = cs_managers s ! j;
          s1 = let_go (cm_root m) (s\<lparr>cs_managers := (cs_managers s)[i := m\<lparr>cm_root := cm_root other\<rparr>]\<rparr>)
      in let_go (cm_head m) (s1\<lparr>cs_managers := (cs_managers s1)[i := other]\<rparr>))"

definition add_to_manager :: "nat \<Rightarrow> expr \<Rightarrow> constraint_system \<Rightarrow> constraint_system option" where
  "add_to_manager i e s =
     (let m = cs_managers s ! i in
      do { (h, t) \<leftarrow> addConstraint e (cm_head m) (cs_tree s);
           Some (s\<lparr>cs_tree := t, cs_managers := (cs_managers s)[i := m\<lparr>cm_head := h\<rparr>]\<rparr>) })"

text \<open>The constructor from a vector of constraints.\<close>

primrec add_each :: "nat \<Rightarrow> expr list \<Rightarrow> constraint_system \<Rightarrow> constraint_system option" where
  "add_each i [] s = Some s"
| "add_each i (e # es) s = do { s \<leftarrow> add_to_manager i e s; add_each i es s }"

definition vector_ConstraintManager :: "expr list \<Rightarrow> constraint_system \<Rightarrow> constraint_system option" where
  "vector_ConstraintManager cs s = add_each (length (cs_managers s)) cs (new_ConstraintManager s)"

text \<open>The members of a manager are destroyed in the reverse order of their declaration, the head first.\<close>

definition delete_ConstraintManager :: "nat \<Rightarrow> constraint_system \<Rightarrow> constraint_system" where
  "delete_ConstraintManager i s =
     (let m = cs_managers s ! i; held = cs_held s;
          s1 = let_go (cm_head m) (s\<lparr>cs_managers := take i (cs_managers s) @ drop (Suc i) (cs_managers s), cs_held := cm_root m # held\<rparr>)
      in let_go (cm_root m) (s1\<lparr>cs_held := held\<rparr>))"

text \<open>Someone else keeps the nodes of a list, instead of those of the last one.\<close>

definition hold_nodes :: "nat list \<Rightarrow> constraint_system \<Rightarrow> constraint_system" where
  "hold_nodes ns s = fold let_go (cs_held s) (s\<lparr>cs_held := ns\<rparr>)"

definition cm_equal :: "constraint_manager \<Rightarrow> constraint_manager \<Rightarrow> bool" where
  "cm_equal m m' \<longleftrightarrow> cm_root m = cm_root m' \<and> cm_head m = cm_head m'"

section \<open>The tree\<close>

definition node_ok :: "condition_tree \<Rightarrow> nat \<Rightarrow> condition_node \<Rightarrow> bool" where
  "node_ok t n nd \<longleftrightarrow> n < next_node t
     \<and> (cn_parent nd = None \<longrightarrow> cn_depth nd = 0)
     \<and> (\<forall>p. cn_parent nd = Some p \<longrightarrow>
          (\<exists>pd e. nodes t p = Some pd \<and> cn_depth nd = cn_depth pd + 1 \<and> cn_expr nd = Some e \<and> cn_children pd e = Some n))
     \<and> (\<forall>e c. cn_children nd e = Some c \<longrightarrow> c < next_node t
          \<and> (\<forall>cd. nodes t c = Some cd \<longrightarrow> cn_parent cd = Some n \<and> cn_expr cd = Some e))"

definition tree_ok :: "condition_tree \<Rightarrow> bool" where
  "tree_ok t \<longleftrightarrow> (\<forall>n nd. nodes t n = Some nd \<longrightarrow> node_ok t n nd)"

lemma tree_okD:
  assumes "tree_ok t" "nodes t n = Some nd"
  shows "n < next_node t" "cn_parent nd = None \<Longrightarrow> cn_depth nd = 0"
    "cn_parent nd = Some p \<Longrightarrow> \<exists>pd e. nodes t p = Some pd \<and> cn_depth nd = cn_depth pd + 1 \<and> cn_expr nd = Some e \<and> cn_children pd e = Some n"
    "cn_children nd e = Some c \<Longrightarrow> c < next_node t"
    "cn_children nd e = Some c \<Longrightarrow> nodes t c = Some cd \<Longrightarrow> cn_parent cd = Some n \<and> cn_expr cd = Some e"
  using assms unfolding tree_ok_def node_ok_def by blast+

text \<open>What a walk sees of a node stays as it is when the tree grows.\<close>

definition same_links :: "condition_node \<Rightarrow> condition_node \<Rightarrow> bool" where
  "same_links a b \<longleftrightarrow> cn_parent a = cn_parent b \<and> cn_expr a = cn_expr b \<and> cn_depth a = cn_depth b"

definition grows :: "condition_tree \<Rightarrow> condition_tree \<Rightarrow> bool" where
  "grows t t' \<longleftrightarrow> (\<forall>n nd. nodes t n = Some nd \<longrightarrow> (\<exists>nd'. nodes t' n = Some nd' \<and> same_links nd nd'))"

lemma grows_refl [simp]: "grows t t"
  by (simp add: grows_def same_links_def)

lemma grows_trans: "grows a b \<Longrightarrow> grows b c \<Longrightarrow> grows a c"
  unfolding grows_def same_links_def by metis

lemma growsD:
  assumes "grows t t'" "nodes t n = Some nd"
  shows "\<exists>nd'. nodes t' n = Some nd' \<and> cn_parent nd' = cn_parent nd \<and> cn_expr nd' = cn_expr nd \<and> cn_depth nd' = cn_depth nd"
  using assms unfolding grows_def same_links_def by metis

lemma chain_Suc:
  assumes "chain (Suc k) t r n = Some ns" "n \<noteq> r"
  obtains nd p ns' where "nodes t n = Some nd" "cn_parent nd = Some p" "chain k t r p = Some ns'" "ns = n # ns'"
  using assms by (auto split: bind_splits)

lemma chain_grows: "grows t t' \<Longrightarrow> chain k t r n = Some ns \<Longrightarrow> chain k t' r n = Some ns"
proof (induction k arbitrary: n ns)
  case (Suc k)
  show ?case
  proof (cases "n = r")
    case False
    with Suc.prems(2) obtain nd p ns' where n: "nodes t n = Some nd" "cn_parent nd = Some p" "chain k t r p = Some ns'" "ns = n # ns'"
      by (rule chain_Suc)
    with growsD [OF Suc.prems(1) n(1)] Suc.IH [OF Suc.prems(1) n(3)] False show ?thesis by auto
  qed (use Suc.prems in simp)
qed simp

lemma chain_nodes: "chain k t r n = Some ns \<Longrightarrow> m \<in> set ns \<Longrightarrow> nodes t m \<noteq> None"
proof (induction k arbitrary: n ns)
  case (Suc k)
  then have "n \<noteq> r" by auto
  with Suc.prems(1) obtain nd p ns' where "nodes t n = Some nd" "chain k t r p = Some ns'" "ns = n # ns'" by (rule chain_Suc)
  with Suc.IH [of p ns'] Suc.prems(2) show ?case by auto
qed simp

lemma chain_fuel: "chain k t r n = Some ns \<Longrightarrow> k \<le> k' \<Longrightarrow> chain k' t r n = Some ns"
proof (induction k arbitrary: n ns k')
  case (Suc k)
  then obtain l where l: "k' = Suc l" "k \<le> l" by (cases k') auto
  show ?case
  proof (cases "n = r")
    case False
    with Suc.prems(1) obtain nd p ns' where "nodes t n = Some nd" "cn_parent nd = Some p" "chain k t r p = Some ns'" "ns = n # ns'" by (rule chain_Suc)
    with Suc.IH [of p ns' l] l False show ?thesis by simp
  qed (use Suc.prems l in simp)
qed simp

text \<open>A walk to a node without parent ends after as many steps as the depth says.\<close>

lemma chain_depth:
  assumes "tree_ok t" "chain k t r n = Some ns" "nodes t n = Some nd" "nodes t r = Some rd" "cn_depth rd = 0"
  shows "length ns = cn_depth nd"
  using assms(2,3)
proof (induction k arbitrary: n nd ns)
  case (Suc k)
  show ?case
  proof (cases "n = r")
    case False
    with Suc.prems(1) obtain nd' p ns' where n': "nodes t n = Some nd'" "cn_parent nd' = Some p" "chain k t r p = Some ns'" "ns = n # ns'"
      by (rule chain_Suc)
    then have n: "cn_parent nd = Some p" "chain k t r p = Some ns'" "ns = n # ns'" using Suc.prems(2) by simp_all
    obtain pd where "nodes t p = Some pd" "cn_depth nd = cn_depth pd + 1" using tree_okD(3) [OF assms(1) Suc.prems(2) n(1)] by blast
    with Suc.IH [OF n(2)] n(3) show ?thesis by simp
  qed (use Suc.prems assms in simp)
qed simp

definition insert_child :: "nat \<Rightarrow> condition_node \<Rightarrow> expr \<Rightarrow> condition_tree \<Rightarrow> condition_tree" where
  "insert_child a n e t =
     (let c = next_node t in
      t\<lparr>nodes := (nodes t)(a \<mapsto> n\<lparr>cn_children := (cn_children n)(e \<mapsto> c)\<rparr>, c \<mapsto> new_node a (cn_depth n) e), next_node := c + 1\<rparr>)"

lemma insert_child_ok:
  assumes "tree_ok t" "nodes t a = Some n" "expired t (cn_children n e)"
  shows "tree_ok (insert_child a n e t)"
  unfolding tree_ok_def
proof (intro allI impI)
  define c where "c = next_node t"
  define t' where "t' = insert_child a n e t"
  have fresh: "nodes t c = None" using tree_okD(1) [OF assms(1), of c] c_def by fastforce
  have next': "next_node t' = c + 1" by (simp add: t'_def insert_child_def c_def Let_def)
  have nodes': "nodes t' m = (if m = c then Some (new_node a (cn_depth n) e) else if m = a then Some (n\<lparr>cn_children := (cn_children n)(e \<mapsto> c)\<rparr>) else nodes t m)" for m
    by (simp add: t'_def insert_child_def c_def Let_def)
  fix m md assume "nodes (insert_child a n e t) m = Some md"
  then have m: "nodes t' m = Some md" by (simp add: t'_def)
  have "node_ok t' m md"
  proof (cases "m = c")
    case True
    with m assms(2) fresh show ?thesis by (auto simp: nodes' next' node_ok_def new_node_def)
  next
    case False
    then obtain od where od: "nodes t m = Some od" "cn_parent md = cn_parent od" "cn_expr md = cn_expr od" "cn_depth md = cn_depth od"
      "\<And>e'. cn_children md e' = (if m = a \<and> e' = e then Some c else cn_children od e')"
      using m assms(2) by (auto simp: nodes' split: if_splits)
    note ok = tree_okD [OF assms(1) od(1)]
    have "\<exists>pd e'. nodes t' p = Some pd \<and> cn_depth md = cn_depth pd + 1 \<and> cn_expr md = Some e' \<and> cn_children pd e' = Some m"
      if p: "cn_parent md = Some p" for p
    proof -
      obtain pd e' where pd: "nodes t p = Some pd" "cn_depth od = cn_depth pd + 1" "cn_expr od = Some e'" "cn_children pd e' = Some m"
        using ok(3) [of p] od(2) p by auto
      have "p \<noteq> c" "\<not> (p = a \<and> e' = e)" using pd(1,4) fresh assms(2,3) od(1) by (auto simp: expired_def)
      with pd od(3,4) assms(2) show ?thesis by (auto simp: nodes')
    qed
    moreover have "d < c + 1 \<and> (\<forall>cd. nodes t' d = Some cd \<longrightarrow> cn_parent cd = Some m \<and> cn_expr cd = Some e')" if d: "cn_children md e' = Some d" for e' d
    proof (cases "m = a \<and> e' = e")
      case False
      with d od(5) have o: "cn_children od e' = Some d" by simp
      with ok(4) have "d < c" by (simp add: c_def)
      with ok(5) [OF o] assms(2) show ?thesis by (auto simp: nodes' split: if_splits)
    qed (use d od(5) in \<open>simp add: nodes' new_node_def\<close>)
    ultimately show ?thesis using ok(1,2) od(2,4) by (auto simp: node_ok_def next' c_def)
  qed
  then show "node_ok (insert_child a n e t) m md" by (simp add: t'_def)
qed

lemma getOrCreate_ok:
  assumes "tree_ok t" "nodes t a = Some n"
  shows "\<exists>c t' cd. getOrCreate a e t = Some (c, t') \<and> tree_ok t' \<and> grows t t' \<and> nodes t' c = Some cd
    \<and> cn_parent cd = Some a \<and> cn_expr cd = Some e \<and> cn_depth cd = cn_depth n + 1"
proof (cases "expired t (cn_children n e)")
  case False
  then obtain c cd where c: "cn_children n e = Some c" "nodes t c = Some cd" by (auto simp: expired_def split: option.splits)
  have cd: "cn_parent cd = Some a" "cn_expr cd = Some e" using tree_okD(5) [OF assms c] by simp_all
  with tree_okD(3) [OF assms(1) c(2) cd(1)] assms c False show ?thesis by (auto simp: getOrCreate_def)
next
  case True
  let ?t = "insert_child a n e t"
  have fresh: "nodes t (next_node t) = None" using tree_okD(1) [OF assms(1), of "next_node t"] by fastforce
  have "grows t ?t" using fresh assms(2) by (auto simp: grows_def insert_child_def Let_def same_links_def)
  moreover have "getOrCreate a e t = Some (next_node t, ?t)" using assms(2) True by (simp add: getOrCreate_def insert_child_def Let_def)
  moreover have "nodes ?t (next_node t) = Some (new_node a (cn_depth n) e)" by (simp add: insert_child_def Let_def)
  ultimately show ?thesis using insert_child_ok [OF assms True] by (simp add: new_node_def)
qed

section \<open>Constraints of a manager\<close>

definition manager_ok :: "condition_tree \<Rightarrow> constraint_manager \<Rightarrow> bool" where
  "manager_ok t m \<longleftrightarrow> (\<exists>rd hd k ns. nodes t (cm_root m) = Some rd \<and> cn_depth rd = 0 \<and> nodes t (cm_head m) = Some hd
     \<and> chain k t (cm_root m) (cm_head m) = Some ns)"

lemma chain_enough: "chain k t r n = Some ns \<Longrightarrow> chain (length ns + 1) t r n = Some ns"
proof (induction k arbitrary: n ns)
  case (Suc k)
  show ?case
  proof (cases "n = r")
    case False
    with Suc.prems obtain nd p ns' where "nodes t n = Some nd" "cn_parent nd = Some p" "chain k t r p = Some ns'" "ns = n # ns'" by (rule chain_Suc)
    with Suc.IH [of p ns'] False show ?thesis by simp
  qed (use Suc.prems in simp)
qed simp

lemma chain_expr: "tree_ok t \<Longrightarrow> chain k t r n = Some ns \<Longrightarrow> m \<in> set ns \<Longrightarrow> \<exists>e. node_expr t m = Some e"
proof (induction k arbitrary: n ns)
  case (Suc k)
  then have "n \<noteq> r" by auto
  with Suc.prems(2) obtain nd p ns' where n: "nodes t n = Some nd" "cn_parent nd = Some p" "chain k t r p = Some ns'" "ns = n # ns'" by (rule chain_Suc)
  with tree_okD(3) [OF Suc.prems(1) n(1,2)] Suc.IH [OF Suc.prems(1), of p ns'] Suc.prems(3) show ?case by (auto simp: node_expr_def)
qed simp

lemma those_total: "(\<And>x. x \<in> set xs \<Longrightarrow> \<exists>y. f x = Some y) \<Longrightarrow> \<exists>ys. those (map f xs) = Some ys \<and> length ys = length xs"
  by (induction xs) fastforce+

lemma manager_chain:
  assumes "tree_ok t" "manager_ok t m"
  obtains ns es where "chain (cm_size t m + 1) t (cm_root m) (cm_head m) = Some ns" "length ns = cm_size t m"
    "those (map (node_expr t) ns) = Some es" "constraints t m = Some es" "length es = cm_size t m"
proof -
  obtain rd hd k ns where m: "nodes t (cm_root m) = Some rd" "cn_depth rd = 0" "nodes t (cm_head m) = Some hd"
    "chain k t (cm_root m) (cm_head m) = Some ns" using assms(2) by (auto simp: manager_ok_def)
  have len: "length ns = cm_size t m" using chain_depth [OF assms(1) m(4,3,1,2)] m(3) by (simp add: cm_size_def)
  have c: "chain (cm_size t m + 1) t (cm_root m) (cm_head m) = Some ns" using chain_enough [OF m(4)] len by simp
  obtain es where es: "those (map (node_expr t) ns) = Some es" "length es = length ns"
    using those_total [of ns "node_expr t"] chain_expr [OF assms(1) m(4)] by blast
  with c len have "constraints t m = Some es" by (simp add: constraints_def)
  with that c len es show ?thesis by simp
qed

lemma manager_grows:
  assumes "tree_ok t" "manager_ok t m" "grows t t'"
  shows "manager_ok t' m" "constraints t' m = constraints t m" "cm_size t' m = cm_size t m"
proof -
  obtain rd hd k ns where m: "nodes t (cm_root m) = Some rd" "cn_depth rd = 0" "nodes t (cm_head m) = Some hd"
    "chain k t (cm_root m) (cm_head m) = Some ns" using assms(2) by (auto simp: manager_ok_def)
  show "manager_ok t' m"
    using growsD [OF assms(3) m(1)] growsD [OF assms(3) m(3)] chain_grows [OF assms(3) m(4)] m(2) by (auto simp: manager_ok_def)
  show s: "cm_size t' m = cm_size t m" using growsD [OF assms(3) m(3)] m(3) by (auto simp: cm_size_def)
  obtain ns es where c: "chain (cm_size t m + 1) t (cm_root m) (cm_head m) = Some ns" "constraints t m = Some es"
    "those (map (node_expr t) ns) = Some es" using manager_chain [OF assms(1,2)] by metis
  have "node_expr t' n = node_expr t n" if "n \<in> set ns" for n
    using chain_nodes [OF c(1) that] growsD [OF assms(3), of n] by (auto simp: node_expr_def)
  then have "map (node_expr t') ns = map (node_expr t) ns" by simp
  with chain_grows [OF assms(3) c(1)] c(2,3) s show "constraints t' m = constraints t m" by (simp add: constraints_def del: map_eq_conv)
qed

text \<open>A node below the head of a manager.\<close>

lemma constraints_below:
  assumes "tree_ok t" "manager_ok t m" "constraints t m = Some es" "nodes t c = Some cd" "cn_parent cd = Some (cm_head m)" "cn_expr cd = Some e"
  shows "manager_ok t (m\<lparr>cm_head := c\<rparr>)" "constraints t (m\<lparr>cm_head := c\<rparr>) = Some (e # es)"
proof -
  obtain ns where ns: "chain (cm_size t m + 1) t (cm_root m) (cm_head m) = Some ns" "those (map (node_expr t) ns) = Some es"
    using manager_chain [OF assms(1,2)] assms(3) by (metis option.inject)
  obtain rd where rd: "nodes t (cm_root m) = Some rd" "cn_depth rd = 0" using assms(2) by (auto simp: manager_ok_def)
  obtain hd where hd: "nodes t (cm_head m) = Some hd" "cn_depth cd = cn_depth hd + 1" using tree_okD(3) [OF assms(1,4,5)] by blast
  have "c \<noteq> cm_root m" using rd hd(2) assms(4) by auto
  then have ch: "chain (Suc (cm_size t m + 1)) t (cm_root m) c = Some (c # ns)" using ns(1) assms(4,5) by simp
  then show "manager_ok t (m\<lparr>cm_head := c\<rparr>)" using rd assms(4) by (auto simp: manager_ok_def simp del: chain.simps)
  have "cm_size t (m\<lparr>cm_head := c\<rparr>) = Suc (cm_size t m)" using assms(4) hd by (simp add: cm_size_def)
  with ch ns(2) assms(4,6) show "constraints t (m\<lparr>cm_head := c\<rparr>) = Some (e # es)"
    by (simp add: constraints_def node_expr_def del: chain.simps)
qed

section \<open>Adding constraints\<close>

fun conjuncts :: "expr \<Rightarrow> expr list" where
  "conjuncts (ConstantExpr c) = []"
| "conjuncts (BinaryExpr And l r) = conjuncts l @ conjuncts r"
| "conjuncts e = [e]"

fun addable :: "expr \<Rightarrow> bool" where
  "addable (ConstantExpr c) \<longleftrightarrow> ConstantExpr_isTrue c = Some True"
| "addable (BinaryExpr And l r) \<longleftrightarrow> addable l \<and> addable r"
| "addable e \<longleftrightarrow> True"

definition adds :: "condition_tree \<Rightarrow> constraint_manager \<Rightarrow> expr list \<Rightarrow> (nat \<times> condition_tree) option \<Rightarrow> bool" where
  "adds t m es r \<longleftrightarrow> (\<exists>h' t'. r = Some (h', t') \<and> tree_ok t' \<and> grows t t' \<and> manager_ok t' (m\<lparr>cm_head := h'\<rparr>)
     \<and> constraints t' (m\<lparr>cm_head := h'\<rparr>) = Some es)"

lemma getOrCreate_adds:
  assumes "tree_ok t" "manager_ok t m" "constraints t m = Some es"
  shows "adds t m (e # es) (getOrCreate (cm_head m) e t)"
proof -
  obtain n where "nodes t (cm_head m) = Some n" using assms(2) by (auto simp: manager_ok_def)
  from getOrCreate_ok [OF assms(1) this, of e] obtain c t' cd where
    c: "getOrCreate (cm_head m) e t = Some (c, t')" "tree_ok t'" "grows t t'" "nodes t' c = Some cd" "cn_parent cd = Some (cm_head m)" "cn_expr cd = Some e"
    by blast
  note g = manager_grows [OF assms(1,2) c(3)]
  from constraints_below [OF c(2) g(1) _ c(4-6), of es] g(2) assms(3) c show ?thesis by (simp add: adds_def)
qed

lemma addConstraint_adds:
  assumes "tree_ok t" "manager_ok t m" "constraints t m = Some es" "addable e"
  shows "adds t m (rev (conjuncts e) @ es) (addConstraint e (cm_head m) t)"
proof -
  have "tree_ok t \<Longrightarrow> manager_ok t m \<Longrightarrow> constraints t m = Some es \<Longrightarrow> addable e \<Longrightarrow> h = cm_head m \<Longrightarrow>
      adds t m (rev (conjuncts e) @ es) (addConstraint e h t)" for h m es
  proof (induction e h t arbitrary: m es rule: addConstraint.induct)
    case (1 c head t)
    then show ?case by (simp add: adds_def)
  next
    case (2 l r head t)
    obtain h' t' where l: "addConstraint l (cm_head m) t = Some (h', t')" "tree_ok t'" "grows t t'" "manager_ok t' (m\<lparr>cm_head := h'\<rparr>)"
      "constraints t' (m\<lparr>cm_head := h'\<rparr>) = Some (rev (conjuncts l) @ es)"
      using "2.IH"(1) [OF "2.prems"(1-3)] "2.prems"(4,5) by (auto simp: adds_def)
    have "adds t' (m\<lparr>cm_head := h'\<rparr>) (rev (conjuncts r) @ rev (conjuncts l) @ es) (addConstraint r h' t')"
      using "2.IH"(2) [OF _ _ l(2,4,5)] l(1) "2.prems"(4,5) by simp
    then show ?case using l(1,3) "2.prems"(5) grows_trans by (fastforce simp: adds_def)
  qed (use getOrCreate_adds in simp_all)
  with assms show ?thesis by blast
qed

section \<open>Freeing nodes\<close>

definition free_node :: "nat \<Rightarrow> condition_tree \<Rightarrow> condition_tree" where
  "free_node n t = t\<lparr>nodes := (nodes t)(n := None)\<rparr>"

lemma parent_owned:
  assumes "tree_ok t" "nodes t n = Some nd" "cn_parent nd = Some p"
  shows "owned t ows p"
  using tree_okD(1) [OF assms(1,2)] assms(2,3) by (auto simp: owned_def intro!: exI [of _ n])

lemma free_node_ok:
  assumes "tree_ok t" "\<not> owned t ows n"
  shows "tree_ok (free_node n t)"
  unfolding tree_ok_def
proof (intro allI impI)
  fix m md assume "nodes (free_node n t) m = Some md"
  then have m: "m \<noteq> n" "nodes t m = Some md" by (auto simp: free_node_def split: if_splits)
  have "p \<noteq> n" if "cn_parent md = Some p" for p using parent_owned [OF assms(1) m(2) that, of ows] assms(2) by auto
  moreover have "node_ok t m md" using assms(1) m(2) by (simp add: tree_ok_def)
  ultimately show "node_ok (free_node n t) m md" unfolding node_ok_def free_node_def by auto
qed

lemma chain_free:
  assumes "tree_ok t" "\<not> owned t ows n"
  shows "chain k t r x = Some ns \<Longrightarrow> owned t ows x \<Longrightarrow> chain k (free_node n t) r x = Some ns"
proof (induction k arbitrary: x ns)
  case (Suc k)
  show ?case
  proof (cases "x = r")
    case False
    with Suc.prems(1) obtain nd p ns' where x: "nodes t x = Some nd" "cn_parent nd = Some p" "chain k t r p = Some ns'" "ns = x # ns'" by (rule chain_Suc)
    have "x \<noteq> n" using Suc.prems(2) assms(2) by auto
    with x Suc.IH [OF x(3) parent_owned [OF assms(1) x(1,2)]] False show ?thesis by (simp add: free_node_def)
  qed (use Suc.prems in simp)
qed simp

text \<open>What the owners see is kept.\<close>

definition keeps :: "nat list \<Rightarrow> condition_tree \<Rightarrow> condition_tree \<Rightarrow> bool" where
  "keeps ows t t' \<longleftrightarrow> (\<forall>n \<in> set ows. nodes t' n = nodes t n)
     \<and> (\<forall>m. cm_root m \<in> set ows \<and> cm_head m \<in> set ows \<and> manager_ok t m \<longrightarrow> manager_ok t' m \<and> constraints t' m = constraints t m \<and> cm_size t' m = cm_size t m)"

lemma keeps_refl [simp]: "keeps ows t t"
  by (simp add: keeps_def)

lemma keeps_trans: "keeps ows a b \<Longrightarrow> keeps ows b c \<Longrightarrow> keeps ows a c"
  by (simp add: keeps_def)

lemma free_node_keeps:
  assumes "tree_ok t" "\<not> owned t ows n"
  shows "keeps ows t (free_node n t)"
  unfolding keeps_def
proof (intro conjI ballI allI impI)
  have n: "n \<notin> set ows" using assms(2) by (auto simp: owned_def)
  then show "nodes (free_node n t) x = nodes t x" if "x \<in> set ows" for x using that by (auto simp: free_node_def)
  fix m assume m: "cm_root m \<in> set ows \<and> cm_head m \<in> set ows \<and> manager_ok t m"
  then have hn: "nodes (free_node n t) (cm_head m) = nodes t (cm_head m)" "nodes (free_node n t) (cm_root m) = nodes t (cm_root m)"
    using n by (auto simp: free_node_def)
  have own: "owned t ows (cm_head m)" using m by (simp add: owned_def)
  show s: "cm_size (free_node n t) m = cm_size t m" by (simp add: cm_size_def hn)
  show "manager_ok (free_node n t) m"
    using m hn chain_free [OF assms _ own] unfolding manager_ok_def by metis
  obtain ns es where c: "chain (cm_size t m + 1) t (cm_root m) (cm_head m) = Some ns" "constraints t m = Some es"
    "those (map (node_expr t) ns) = Some es" using manager_chain [OF assms(1), of m] m by metis
  have ch: "chain (cm_size t m + 1) (free_node n t) (cm_root m) (cm_head m) = Some ns" by (rule chain_free [OF assms c(1) own])
  have "node_expr (free_node n t) x = node_expr t x" if "x \<in> set ns" for x
    using chain_nodes [OF ch that] by (auto simp: node_expr_def free_node_def split: if_splits)
  then have "map (node_expr (free_node n t)) ns = map (node_expr t) ns" by simp
  with ch c(2,3) s show "constraints (free_node n t) m = constraints t m" by (simp add: constraints_def del: map_eq_conv chain.simps)
qed

definition all_owned :: "condition_tree \<Rightarrow> nat list \<Rightarrow> nat set \<Rightarrow> bool" where
  "all_owned t ows X \<longleftrightarrow> (\<forall>n. nodes t n \<noteq> None \<longrightarrow> n \<notin> X \<longrightarrow> owned t ows n)"

text \<open>Only the parent of a node that is freed can lose its last owner.\<close>

lemma free_node_owned:
  assumes "tree_ok t" "all_owned t ows (insert n X)" "nodes t n = Some nd"
  shows "all_owned (free_node n t) ows (set_option (cn_parent nd) \<union> X)"
  unfolding all_owned_def
proof (intro allI impI)
  fix x assume x: "nodes (free_node n t) x \<noteq> None" "x \<notin> set_option (cn_parent nd) \<union> X"
  then have "owned t ows x" using assms(2) by (auto simp: all_owned_def free_node_def split: if_splits)
  then consider "x \<in> set ows" | m md where "m < next_node t" "nodes t m = Some md" "cn_parent md = Some x"
    by (auto simp: owned_def split: option.splits)
  then show "owned (free_node n t) ows x"
  proof cases
    case 2
    with x(2) assms(3) have "m \<noteq> n" by auto
    with 2 show ?thesis by (auto simp: owned_def free_node_def intro!: exI [of _ m])
  qed (simp add: owned_def)
qed

lemma release_node_ok:
  "tree_ok t \<Longrightarrow> all_owned t ows (insert n X) \<Longrightarrow> (\<And>nd. nodes t n = Some nd \<Longrightarrow> cn_depth nd < k) \<Longrightarrow>
     tree_ok (release_node k ows n t) \<and> keeps ows t (release_node k ows n t) \<and> all_owned (release_node k ows n t) ows X"
proof (induction k arbitrary: n t)
  case 0
  then show ?case by (auto simp: all_owned_def)
next
  case (Suc k)
  show ?case
  proof (cases "nodes t n = None \<or> owned t ows n")
    case True
    with Suc.prems(1,2) show ?thesis by (auto simp: all_owned_def split: option.splits)
  next
    case False
    then obtain nd where n: "nodes t n = Some nd" "\<not> owned t ows n" by auto
    note f = free_node_ok [OF Suc.prems(1) n(2)] free_node_keeps [OF Suc.prems(1) n(2)] free_node_owned [OF Suc.prems(1,2) n(1)]
    show ?thesis
    proof (cases "cn_parent nd")
      case None
      with n f show ?thesis by (simp add: free_node_def [symmetric])
    next
      case (Some p)
      have "cn_depth pd < k" if "nodes (free_node n t) p = Some pd" for pd
        using tree_okD(3) [OF Suc.prems(1) n(1) Some] Suc.prems(3) [OF n(1)] that by (auto simp: free_node_def split: if_splits)
      from Suc.IH [OF f(1) _ this] f(3) Some have "tree_ok (release_node k ows p (free_node n t)) \<and> keeps ows (free_node n t) (release_node k ows p (free_node n t))
          \<and> all_owned (release_node k ows p (free_node n t)) ows X" by simp
      with keeps_trans [OF f(2)] Some n show ?thesis by (simp add: free_node_def [symmetric])
    qed
  qed
qed

lemma release_ok:
  assumes "tree_ok t" "all_owned t ows (insert n X)"
  shows "tree_ok (release ows n t)" "keeps ows t (release ows n t)" "all_owned (release ows n t) ows X"
  unfolding release_def using release_node_ok [OF assms] by (simp_all split: option.splits)

end
