(* ===== verification/ConstraintManagers.thy ===== *)
theory ConstraintManagers
  imports ConditionTree
begin

text \<open>
  The managers of a program: whatever it does with them, every manager sees its own constraints, the
  nodes that anyone can see are alive and the others are freed, and two managers with one root are equal
  exactly when they have the same constraints.
\<close>

section \<open>Owners\<close>

lemma owners_set: "set (owners s) = (\<Union>m \<in> set (cs_managers s). {cm_root m, cm_head m}) \<union> set (cs_held s)"
  by (auto simp: owners_def)

lemma owners_member: "m \<in> set (cs_managers s) \<Longrightarrow> cm_root m \<in> set (owners s) \<and> cm_head m \<in> set (owners s)"
  by (auto simp: owners_set)

lemma update_members:
  "i < length xs \<Longrightarrow> v \<in> set (xs[i := v])" "x \<in> set xs \<Longrightarrow> x \<noteq> xs ! i \<Longrightarrow> x \<in> set (xs[i := v])"
  "x \<in> set (xs[i := v]) \<Longrightarrow> x = v \<or> x \<in> set xs"
  by (auto intro: set_update_memI dest: subsetD [OF set_update_subset_insert])
    (metis in_set_conv_nth length_list_update nth_list_update_neq)

lemma update_others: "x \<in> set (xs[i := v]) \<Longrightarrow> x = v \<or> x \<in> set (xs[i := w])"
  by (metis in_set_conv_nth length_list_update nth_list_update_eq nth_list_update_neq)

lemma all_owned_mono: "all_owned t ows X \<Longrightarrow> set ows \<subseteq> set ows' \<union> Y \<Longrightarrow> X \<union> Y \<subseteq> Z \<Longrightarrow> all_owned t ows' Z"
  unfolding all_owned_def owned_def by blast

lemma let_go_ok:
  assumes "tree_ok (cs_tree s)" "all_owned (cs_tree s) (owners s) (insert n X)"
  shows "tree_ok (cs_tree (let_go n s))" "keeps (owners s) (cs_tree s) (cs_tree (let_go n s))" "all_owned (cs_tree (let_go n s)) (owners s) X"
    "cs_managers (let_go n s) = cs_managers s" "cs_held (let_go n s) = cs_held s" "owners (let_go n s) = owners s"
  using release_ok [OF assms] by (simp_all add: let_go_def owners_def)

lemma grows_owned:
  assumes "tree_ok t" "grows t t'" "next_node t \<le> next_node t'" "owned t ows n"
  shows "owned t' ows n"
proof -
  consider "n \<in> set ows" | m md where "m < next_node t" "nodes t m = Some md" "cn_parent md = Some n"
    using assms(4) by (auto simp: owned_def split: option.splits)
  then show ?thesis
  proof cases
    case 2
    obtain md' where "nodes t' m = Some md'" "cn_parent md' = Some n" using growsD [OF assms(2) 2(2)] 2(3) by auto
    with 2(1) assms(3) show ?thesis by (auto simp: owned_def intro!: exI [of _ m])
  qed (simp add: owned_def)
qed

lemma getOrCreate_owned:
  assumes "tree_ok t" "nodes t h = Some n" "all_owned t (h # ows) X" "getOrCreate h e t = Some (c, t')"
  shows "all_owned t' (c # ows) X"
  unfolding all_owned_def
proof (intro allI impI)
  obtain cd where ok: "tree_ok t'" "grows t t'" "nodes t' c = Some cd" "cn_parent cd = Some h"
    using getOrCreate_ok [OF assms(1,2), of e] assms(4) by auto
  fix x assume x: "nodes t' x \<noteq> None" "x \<notin> X"
  have nx: "next_node t \<le> next_node t'" and old: "x = c \<or> nodes t x \<noteq> None"
    using assms(2,4) x(1) by (auto simp: getOrCreate_def Let_def split: if_splits bind_splits)
  have h: "owned t' (c # ows) h" by (rule parent_owned [OF ok(1,3,4)])
  show "owned t' (c # ows) x"
  proof (cases "x = c \<or> x = h")
    case False
    with old x(2) assms(3) have "owned t (h # ows) x" by (auto simp: all_owned_def)
    with False have "owned t ows x" by (auto simp: owned_def)
    from grows_owned [OF assms(1) ok(2) nx this] show ?thesis by (auto simp: owned_def)
  qed (use h in \<open>auto simp: owned_def\<close>)
qed

lemma getOrCreate_step:
  assumes "tree_ok t" "\<exists>n. nodes t h = Some n" "all_owned t (h # ows) X" "getOrCreate h e t = Some (h', t')"
  shows "tree_ok t' \<and> (\<exists>n. nodes t' h' = Some n) \<and> all_owned t' (h' # ows) X"
  using assms getOrCreate_ok [of t h _ e] getOrCreate_owned [OF assms(1) _ assms(3,4)] by fastforce

lemma addConstraint_owned:
  "tree_ok t \<Longrightarrow> nodes t h \<noteq> None \<Longrightarrow> all_owned t (h # ows) X \<Longrightarrow> addConstraint e h t = Some (h', t') \<Longrightarrow>
     tree_ok t' \<and> nodes t' h' \<noteq> None \<and> all_owned t' (h' # ows) X"
proof (induction e h t arbitrary: h' t' rule: addConstraint.induct)
  case (1 c head t)
  then show ?case by (auto split: bind_splits if_splits)
next
  case (2 l r head t)
  then obtain h1 t1 where l: "addConstraint l head t = Some (h1, t1)" "addConstraint r h1 t1 = Some (h', t')" by (auto split: bind_splits)
  from "2.IH"(1) [OF "2.prems"(1-3) l(1)] "2.IH"(2) [OF l(1) refl _ _ _ l(2)] show ?case by blast
qed (simp_all, (rule getOrCreate_step; assumption)+)

section \<open>The invariant\<close>

definition cs_ok :: "constraint_system \<Rightarrow> bool" where
  "cs_ok s \<longleftrightarrow> tree_ok (cs_tree s) \<and> (\<forall>m \<in> set (cs_managers s). manager_ok (cs_tree s) m)
     \<and> (\<forall>n \<in> set (cs_held s). nodes (cs_tree s) n \<noteq> None) \<and> all_owned (cs_tree s) (owners s) {}"

lemma cs_okD:
  assumes "cs_ok s"
  shows "tree_ok (cs_tree s)" "m \<in> set (cs_managers s) \<Longrightarrow> manager_ok (cs_tree s) m" "n \<in> set (cs_held s) \<Longrightarrow> nodes (cs_tree s) n \<noteq> None"
    "all_owned (cs_tree s) (owners s) {}"
  using assms by (simp_all add: cs_ok_def)

text \<open>The managers that remain see what they saw, and so does who keeps a list of nodes.\<close>

definition same_views :: "constraint_system \<Rightarrow> constraint_system \<Rightarrow> bool" where
  "same_views s s' \<longleftrightarrow> (\<forall>m \<in> set (cs_managers s) \<inter> set (cs_managers s'). constraints (cs_tree s') m = constraints (cs_tree s) m)
     \<and> (\<forall>n \<in> set (cs_held s'). \<forall>nd. nodes (cs_tree s) n = Some nd \<longrightarrow> (\<exists>nd'. nodes (cs_tree s') n = Some nd' \<and> same_links nd nd'))"

lemma same_links_refl [simp]: "same_links a a"
  by (simp add: same_links_def)

lemma keepsD:
  assumes "keeps ows t t'" "cm_root m \<in> set ows" "cm_head m \<in> set ows" "manager_ok t m"
  shows "manager_ok t' m" "constraints t' m = constraints t m" "cm_size t' m = cm_size t m"
  using assms by (simp_all add: keeps_def)

lemma keeps_node: "keeps ows t t' \<Longrightarrow> n \<in> set ows \<Longrightarrow> nodes t' n = nodes t n"
  by (simp add: keeps_def)

lemma let_go_last:
  assumes "tree_ok (cs_tree s)" "all_owned (cs_tree s) (owners s) {n}" "\<And>m. m \<in> set (cs_managers s) \<Longrightarrow> manager_ok (cs_tree s) m"
    "\<And>n. n \<in> set (cs_held s) \<Longrightarrow> nodes (cs_tree s) n \<noteq> None"
  shows "cs_ok (let_go n s)" "same_views s (let_go n s)"
proof -
  note l = let_go_ok [OF assms(1,2)]
  have m: "manager_ok (cs_tree (let_go n s)) m" "constraints (cs_tree (let_go n s)) m = constraints (cs_tree s) m" if "m \<in> set (cs_managers s)" for m
    using keepsD [OF l(2) _ _ assms(3) [OF that]] that by (auto simp: owners_set)
  show "cs_ok (let_go n s)"
    using l m(1) assms(4) keeps_node [OF l(2)] by (simp add: cs_ok_def owners_set)
  show "same_views s (let_go n s)" using m(2) l(4,5) keeps_node [OF l(2)] by (simp add: same_views_def owners_set)
qed

section \<open>The operations\<close>

lemma new_ConstraintManager_ok:
  assumes "cs_ok s"
  shows "cs_ok (new_ConstraintManager s)" "same_views s (new_ConstraintManager s)"
    "constraints (cs_tree (new_ConstraintManager s)) (last (cs_managers (new_ConstraintManager s))) = Some []"
proof -
  define r where "r = next_node (cs_tree s)"
  define s' where "s' = new_ConstraintManager s"
  have t': "nodes (cs_tree s') = (nodes (cs_tree s))(r \<mapsto> root_node)" "next_node (cs_tree s') = r + 1" "cs_held s' = cs_held s"
    "cs_managers s' = cs_managers s @ [\<lparr>cm_root = r, cm_head = r\<rparr>]"
    by (simp_all add: s'_def new_ConstraintManager_def r_def Let_def)
  note ok = cs_okD [OF assms]
  have fresh: "nodes (cs_tree s) r = None" using tree_okD(1) [OF ok(1), of r] r_def by fastforce
  then have g: "grows (cs_tree s) (cs_tree s')" by (auto simp: grows_def t' same_links_def)
  have "node_ok (cs_tree s') n nd" if "nodes (cs_tree s') n = Some nd" for n nd
  proof (cases "n = r")
    case False
    with that have n: "nodes (cs_tree s) n = Some nd" by (simp add: t')
    with ok(1) have "node_ok (cs_tree s) n nd" by (simp add: tree_ok_def)
    with fresh show ?thesis unfolding node_ok_def t' r_def [symmetric] by fastforce
  qed (use that in \<open>auto simp: t' node_ok_def root_node_def\<close>)
  then have tok: "tree_ok (cs_tree s')" by (simp add: tree_ok_def)
  have new: "manager_ok (cs_tree s') \<lparr>cm_root = r, cm_head = r\<rparr>" "constraints (cs_tree s') \<lparr>cm_root = r, cm_head = r\<rparr> = Some []"
    by (auto simp: manager_ok_def t' root_node_def constraints_def intro!: exI [of _ "Suc 0"])
  have "owned (cs_tree s') (owners s') n" if "nodes (cs_tree s') n \<noteq> None" for n
  proof (cases "n = r")
    case False
    with that ok(4) have "owned (cs_tree s) (owners s) n" by (simp add: t' all_owned_def)
    then have "owned (cs_tree s') (owners s) n" by (rule grows_owned [OF ok(1) g, rotated]) (simp add: t' r_def)
    then show ?thesis by (auto simp: owned_def owners_set t')
  qed (simp add: owned_def owners_set t')
  with tok new manager_grows [OF ok(1) _ g] ok fresh show "cs_ok (new_ConstraintManager s)" "same_views s (new_ConstraintManager s)"
    "constraints (cs_tree (new_ConstraintManager s)) (last (cs_managers (new_ConstraintManager s))) = Some []"
    unfolding s'_def [symmetric] by (auto simp: cs_ok_def same_views_def t' all_owned_def)
qed

lemma copy_ConstraintManager_ok:
  assumes "cs_ok s" "i < length (cs_managers s)"
  shows "cs_ok (copy_ConstraintManager i s)" "same_views s (copy_ConstraintManager i s)"
proof -
  have "set (owners (copy_ConstraintManager i s)) = set (owners s)" "set (cs_managers (copy_ConstraintManager i s)) = set (cs_managers s)"
    "cs_tree (copy_ConstraintManager i s) = cs_tree s" "cs_held (copy_ConstraintManager i s) = cs_held s"
    using nth_mem [OF assms(2)] by (auto simp: copy_ConstraintManager_def owners_set)
  with assms(1) show "cs_ok (copy_ConstraintManager i s)" "same_views s (copy_ConstraintManager i s)"
    by (simp_all add: cs_ok_def same_views_def all_owned_def owned_def)
qed

lemma add_to_manager_ok:
  assumes "cs_ok s" "i < length (cs_managers s)" "addable e" "constraints (cs_tree s) (cs_managers s ! i) = Some es"
  shows "\<exists>s'. add_to_manager i e s = Some s' \<and> cs_ok s' \<and> same_views s s' \<and> length (cs_managers s') = length (cs_managers s)
    \<and> (\<forall>j<length (cs_managers s). j \<noteq> i \<longrightarrow> cs_managers s' ! j = cs_managers s ! j) \<and> cm_root (cs_managers s' ! i) = cm_root (cs_managers s ! i)
    \<and> constraints (cs_tree s') (cs_managers s' ! i) = Some (rev (conjuncts e) @ es)"
proof -
  let ?m = "cs_managers s ! i" and ?t = "cs_tree s"
  note ok = cs_okD [OF assms(1)]
  have m: "manager_ok ?t ?m" using ok(2) assms(2) by simp
  obtain h t' where h: "addConstraint e (cm_head ?m) ?t = Some (h, t')" "tree_ok t'" "grows ?t t'"
    "manager_ok t' (?m\<lparr>cm_head := h\<rparr>)" "constraints t' (?m\<lparr>cm_head := h\<rparr>) = Some (rev (conjuncts e) @ es)"
    using addConstraint_adds [OF ok(1) m assms(4,3)] by (auto simp: adds_def)
  define s' where "s' = s\<lparr>cs_tree := t', cs_managers := (cs_managers s)[i := ?m\<lparr>cm_head := h\<rparr>]\<rparr>"
  have s': "add_to_manager i e s = Some s'" using h(1) by (simp add: add_to_manager_def s'_def)
  have fields: "cs_tree s' = t'" "cs_held s' = cs_held s" "cs_managers s' = (cs_managers s)[i := ?m\<lparr>cm_head := h\<rparr>]" by (simp_all add: s'_def)
  have old: "x = ?m\<lparr>cm_head := h\<rparr> \<or> x \<in> set (cs_managers s)" if "x \<in> set (cs_managers s')" for x
    using that update_members(3) by (simp add: fields)
  have "?m\<lparr>cm_head := h\<rparr> \<in> set (cs_managers s')" using update_members(1) [OF assms(2)] by (simp add: fields)
  then have new: "h \<in> set (owners s')" "cm_root ?m \<in> set (owners s')" using owners_member by fastforce+
  have others: "x \<in> set (cs_managers s')" if "x \<in> set (cs_managers s)" "x \<noteq> ?m" for x
    using update_members(2) [OF that] by (simp add: fields)
  have "set (owners s) \<subseteq> set (cm_head ?m # owners s')" using others new(2) by (fastforce simp: owners_set fields)
  then have "all_owned ?t (cm_head ?m # owners s') {}" using all_owned_mono [OF ok(4), of _ "{}" "{}"] by simp
  from addConstraint_owned [OF ok(1) _ this h(1)] m have "all_owned t' (h # owners s') {}" by (auto simp: manager_ok_def)
  then have own: "all_owned t' (owners s') {}" using all_owned_mono [of t' "h # owners s'" "{}" "owners s'" "{}" "{}"] new(1) by simp
  have "nodes t' n \<noteq> None" if "n \<in> set (cs_held s)" for n using ok(3) [OF that] growsD [OF h(3), of n] by auto
  with own h(2,4) manager_grows(1) [OF ok(1) _ h(3)] ok(2) old have "cs_ok s'" by (auto simp: cs_ok_def fields)
  moreover have "same_views s s'" using manager_grows(2) [OF ok(1) ok(2) h(3)] h(3) by (simp add: same_views_def fields grows_def)
  ultimately show ?thesis using s' h(5) assms(2) by (simp add: fields)
qed

lemma assign_ConstraintManager_ok:
  assumes "cs_ok s" "i < length (cs_managers s)" "j < length (cs_managers s)"
  shows "cs_ok (assign_ConstraintManager i j s)" "same_views s (assign_ConstraintManager i j s)"
    "cs_managers (assign_ConstraintManager i j s) = (cs_managers s)[i := cs_managers s ! j]"
proof -
  let ?m = "cs_managers s ! i" and ?o = "cs_managers s ! j"
  note ok = cs_okD [OF assms(1)]
  define a where "a = s\<lparr>cs_managers := (cs_managers s)[i := ?m\<lparr>cm_root := cm_root ?o\<rparr>]\<rparr>"
  define b where "b = (let_go (cm_root ?m) a)\<lparr>cs_managers := (cs_managers s)[i := ?o]\<rparr>"
  have fa: "cs_tree a = cs_tree s" "cs_held a = cs_held s" "cs_managers a = (cs_managers s)[i := ?m\<lparr>cm_root := cm_root ?o\<rparr>]" by (simp_all add: a_def)
  have ma: "?m\<lparr>cm_root := cm_root ?o\<rparr> \<in> set (cs_managers a)" "x \<in> set (cs_managers s) \<Longrightarrow> x \<noteq> ?m \<Longrightarrow> x \<in> set (cs_managers a)" for x
    using update_members(1) [OF assms(2)] update_members(2) by (simp_all add: fa)
  have "set (owners s) \<subseteq> set (owners a) \<union> {cm_root ?m}" using ma by (fastforce simp: owners_set fa)
  from all_owned_mono [OF ok(4) this] have "all_owned (cs_tree a) (owners a) {cm_root ?m}" by (simp add: fa)
  from let_go_ok [OF _ this] ok(1) have l: "tree_ok (cs_tree b)" "keeps (owners a) (cs_tree s) (cs_tree b)" "all_owned (cs_tree b) (owners a) {}"
    "cs_held b = cs_held s" by (simp_all add: fa b_def)
  have b: "cs_managers b = (cs_managers s)[i := ?o]" by (simp add: b_def)
  have mb: "x \<in> set (cs_managers s)" if "x \<in> set (cs_managers b)" for x
    using update_members(3) [OF that [unfolded b]] nth_mem [OF assms(3)] by blast
  have ob: "?o \<in> set (cs_managers b)" unfolding b by (rule update_members(1) [OF assms(2)])
  have "cm_root x \<in> set (owners b) \<and> cm_head x \<in> set (owners b) \<union> {cm_head ?m}" if "x \<in> set (cs_managers a)" for x
    using update_others [OF that [unfolded fa], of ?o] owners_member [OF ob] owners_member [of x b] by (auto simp: b)
  then have "set (owners a) \<subseteq> set (owners b) \<union> {cm_head ?m}" by (auto simp: owners_set [of a] fa(2)) (auto simp: owners_set l(4))
  from all_owned_mono [OF l(3) this] have own: "all_owned (cs_tree b) (owners b) {cm_head ?m}" by simp
  have oa: "cm_root ?o \<in> set (owners a)" "cm_head ?o \<in> set (owners a)"
    using owners_member [OF ma(1)] ma(2) [OF nth_mem [OF assms(3)]] owners_member [of ?o a] by (cases "?o = ?m"; simp)+
  have in_a: "cm_root x \<in> set (owners a) \<and> cm_head x \<in> set (owners a)" if "x \<in> set (cs_managers b)" for x
    using update_others [OF that [unfolded b], of "?m\<lparr>cm_root := cm_root ?o\<rparr>"] oa owners_member [of x a] by (auto simp: fa)
  have views: "manager_ok (cs_tree b) x" "constraints (cs_tree b) x = constraints (cs_tree s) x" if "x \<in> set (cs_managers b)" for x
    using keepsD [OF l(2) _ _ ok(2) [OF mb [OF that]]] in_a [OF that] by auto
  have nodes_b: "nodes (cs_tree b) n = nodes (cs_tree s) n" if "n \<in> set (cs_held b)" for n
    using that keeps_node [OF l(2), of n] l(4) by (simp add: owners_set fa)
  have "nodes (cs_tree b) n \<noteq> None" if "n \<in> set (cs_held b)" for n using that ok(3) nodes_b l(4) by simp
  note r = let_go_last [OF l(1) own views(1) this]
  have eq: "assign_ConstraintManager i j s = let_go (cm_head ?m) b"
    by (simp add: assign_ConstraintManager_def Let_def a_def b_def let_go_def)
  show "cs_ok (assign_ConstraintManager i j s)" using r(1) by (simp add: eq)
  show m: "cs_managers (assign_ConstraintManager i j s) = (cs_managers s)[i := cs_managers s ! j]" by (simp add: eq b_def let_go_def)
  show "same_views s (assign_ConstraintManager i j s)" using r(2) views(2) m nodes_b unfolding same_views_def eq by (auto simp: let_go_def b)
qed

lemma delete_ConstraintManager_ok:
  assumes "cs_ok s" "i < length (cs_managers s)"
  shows "cs_ok (delete_ConstraintManager i s)" "same_views s (delete_ConstraintManager i s)"
    "cs_managers (delete_ConstraintManager i s) = take i (cs_managers s) @ drop (Suc i) (cs_managers s)"
proof -
  let ?m = "cs_managers s ! i" and ?ms = "take i (cs_managers s) @ drop (Suc i) (cs_managers s)"
  note ok = cs_okD [OF assms(1)]
  define a where "a = s\<lparr>cs_managers := ?ms, cs_held := cm_root ?m # cs_held s\<rparr>"
  define b where "b = (let_go (cm_head ?m) a)\<lparr>cs_held := cs_held s\<rparr>"
  have split: "set (cs_managers s) = insert ?m (set ?ms)"
    using arg_cong [OF id_take_nth_drop [OF assms(2)], of set] by auto
  have "set (owners s) \<subseteq> set (owners a) \<union> {cm_head ?m}" using split by (auto simp: owners_set a_def)
  from all_owned_mono [OF ok(4) this] have "all_owned (cs_tree a) (owners a) {cm_head ?m}" by (simp add: a_def)
  from let_go_ok [OF _ this] ok(1) have l: "tree_ok (cs_tree b)" "keeps (owners a) (cs_tree s) (cs_tree b)" "all_owned (cs_tree b) (owners a) {}"
    "cs_managers b = ?ms" "cs_held b = cs_held s" by (simp_all add: a_def b_def)
  have "set (owners a) \<subseteq> set (owners b) \<union> {cm_root ?m}" by (auto simp: owners_set a_def l)
  from all_owned_mono [OF l(3) this] have own: "all_owned (cs_tree b) (owners b) {cm_root ?m}" by simp
  have views: "manager_ok (cs_tree b) x" "constraints (cs_tree b) x = constraints (cs_tree s) x" if "x \<in> set (cs_managers b)" for x
    using that keepsD [OF l(2) _ _ ok(2) [of x]] split owners_member [of x a] by (auto simp: l a_def)
  have nodes_b: "nodes (cs_tree b) n = nodes (cs_tree s) n" if "n \<in> set (cs_held b)" for n
    using that keeps_node [OF l(2), of n] by (simp add: owners_set a_def l)
  have "nodes (cs_tree b) n \<noteq> None" if "n \<in> set (cs_held b)" for n using that ok(3) nodes_b l(5) by simp
  note r = let_go_last [OF l(1) own views(1) this]
  have eq: "delete_ConstraintManager i s = let_go (cm_root ?m) b"
    by (simp add: delete_ConstraintManager_def Let_def a_def b_def)
  show "cs_ok (delete_ConstraintManager i s)" using r(1) by (simp add: eq)
  show m: "cs_managers (delete_ConstraintManager i s) = ?ms" by (simp add: eq let_go_def l)
  show "same_views s (delete_ConstraintManager i s)" using r(2) views(2) m nodes_b unfolding same_views_def eq by (auto simp: let_go_def l)
qed

lemma let_go_all:
  assumes "tree_ok (cs_tree s)" "all_owned (cs_tree s) (owners s) (set ns)"
  shows "tree_ok (cs_tree (fold let_go ns s)) \<and> keeps (owners s) (cs_tree s) (cs_tree (fold let_go ns s))
    \<and> all_owned (cs_tree (fold let_go ns s)) (owners s) {} \<and> cs_managers (fold let_go ns s) = cs_managers s
    \<and> cs_held (fold let_go ns s) = cs_held s \<and> owners (fold let_go ns s) = owners s"
  using assms
proof (induction ns arbitrary: s)
  case (Cons n ns)
  have "all_owned (cs_tree s) (owners s) (insert n (set ns))" using Cons.prems(2) by simp
  note l = let_go_ok [OF Cons.prems(1) this]
  from Cons.IH [OF l(1)] l(3,6) keeps_trans [OF l(2)] l(4,5) show ?case by simp
qed simp

lemma hold_nodes_ok:
  assumes "cs_ok s" "\<And>n. n \<in> set ns \<Longrightarrow> nodes (cs_tree s) n \<noteq> None"
  shows "cs_ok (hold_nodes ns s)" "same_views s (hold_nodes ns s)" "cs_managers (hold_nodes ns s) = cs_managers s" "cs_held (hold_nodes ns s) = ns"
    "keeps (owners (hold_nodes ns s)) (cs_tree s) (cs_tree (hold_nodes ns s))"
proof -
  note ok = cs_okD [OF assms(1)]
  define a where "a = s\<lparr>cs_held := ns\<rparr>"
  have "set (owners s) \<subseteq> set (owners a) \<union> set (cs_held s)" by (auto simp: owners_set a_def)
  from all_owned_mono [OF ok(4) this] have "all_owned (cs_tree a) (owners a) (set (cs_held s))" by (simp add: a_def)
  from let_go_all [OF _ this] ok(1) have l: "tree_ok (cs_tree (hold_nodes ns s))" "keeps (owners a) (cs_tree s) (cs_tree (hold_nodes ns s))"
    "all_owned (cs_tree (hold_nodes ns s)) (owners a) {}" "cs_managers (hold_nodes ns s) = cs_managers s" "cs_held (hold_nodes ns s) = ns"
    "owners (hold_nodes ns s) = owners a" by (simp_all add: hold_nodes_def a_def)
  have views: "manager_ok (cs_tree (hold_nodes ns s)) x" "constraints (cs_tree (hold_nodes ns s)) x = constraints (cs_tree s) x" if "x \<in> set (cs_managers s)" for x
    using that keepsD [OF l(2) _ _ ok(2) [OF that]] owners_member [of x a] by (auto simp: a_def)
  have "nodes (cs_tree (hold_nodes ns s)) n = nodes (cs_tree s) n \<and> nodes (cs_tree s) n \<noteq> None" if "n \<in> set ns" for n
    using that assms(2) keeps_node [OF l(2), of n] by (simp add: owners_set a_def)
  with l views show "cs_ok (hold_nodes ns s)" "same_views s (hold_nodes ns s)" "cs_managers (hold_nodes ns s) = cs_managers s" "cs_held (hold_nodes ns s) = ns"
    "keeps (owners (hold_nodes ns s)) (cs_tree s) (cs_tree (hold_nodes ns s))"
    by (simp_all add: cs_ok_def same_views_def)
qed

section \<open>Sharing\<close>

text \<open>From one root, the constraints determine the node.\<close>

lemma chain_unique:
  assumes "tree_ok t"
  shows "chain k t r n = Some ns \<Longrightarrow> chain k' t r n' = Some ns' \<Longrightarrow> map (node_expr t) ns = map (node_expr t) ns' \<Longrightarrow> n = n'"
proof (induction ns arbitrary: k n k' n' ns')
  case Nil
  then show ?case by (cases k; cases k') (auto split: if_splits bind_splits)
next
  case (Cons x xs)
  then obtain y ys where ys: "ns' = y # ys" by (cases ns') auto
  obtain l l' where k: "k = Suc l" "k' = Suc l'" using Cons.prems(1,2) by (cases k; cases k') auto
  have nr: "n \<noteq> r" "n' \<noteq> r" using Cons.prems(1,2) ys k by auto
  obtain nd p where n: "nodes t n = Some nd" "cn_parent nd = Some p" "chain l t r p = Some xs" "x = n"
    using chain_Suc [OF Cons.prems(1) [unfolded k] nr(1)] by blast
  obtain nd' p' where n': "nodes t n' = Some nd'" "cn_parent nd' = Some p'" "chain l' t r p' = Some ys" "y = n'"
    using chain_Suc [OF Cons.prems(2) [unfolded k ys] nr(2)] by blast
  have e: "node_expr t n = node_expr t n'" "map (node_expr t) xs = map (node_expr t) ys" using Cons.prems(3) ys n(4) n'(4) by auto
  have "p = p'" by (rule Cons.IH [OF n(3) n'(3) e(2)])
  with tree_okD(3) [OF assms n(1,2)] tree_okD(3) [OF assms n'(1,2)] e(1) n(1) n'(1) show ?case by (auto simp: node_expr_def)
qed

lemma those_Some: "those xs = Some ys \<Longrightarrow> xs = map Some ys"
  by (induction xs arbitrary: ys) (auto split: option.splits)

lemma same_constraints_same_head:
  assumes "tree_ok t" "manager_ok t m" "manager_ok t m'" "cm_root m = cm_root m'" "constraints t m = constraints t m'"
  shows "cm_head m = cm_head m'"
proof -
  obtain ns es where m: "chain (cm_size t m + 1) t (cm_root m) (cm_head m) = Some ns" "those (map (node_expr t) ns) = Some es" "constraints t m = Some es"
    using manager_chain [OF assms(1,2)] by metis
  obtain ns' where m': "chain (cm_size t m' + 1) t (cm_root m) (cm_head m') = Some ns'" "those (map (node_expr t) ns') = Some es"
    using manager_chain [OF assms(1,3)] assms(4,5) m(3) by metis
  from chain_unique [OF assms(1) m(1) m'(1)] those_Some [OF m(2)] those_Some [OF m'(2)] show ?thesis by simp
qed

end
