(* ===== verification/PathConstraints.thy ===== *)
theory PathConstraints
  imports ConstraintManagers
begin

unbundle bit_operations_syntax

text \<open>
  The properties of path constraints, over the runs of a program with any number of managers.
\<close>

section \<open>Runs\<close>

definition empty_system :: constraint_system where
  "empty_system = \<lparr>cs_tree = \<lparr>nodes = (\<lambda>_. None), next_node = 0\<rparr>, cs_managers = [], cs_held = []\<rparr>"

inductive cs_step :: "constraint_system \<Rightarrow> constraint_system \<Rightarrow> bool" where
  create: "cs_step s (new_ConstraintManager s)"
| copied: "i < length (cs_managers s) \<Longrightarrow> cs_step s (copy_ConstraintManager i s)"
| assigned: "i < length (cs_managers s) \<Longrightarrow> j < length (cs_managers s) \<Longrightarrow> cs_step s (assign_ConstraintManager i j s)"
| added: "i < length (cs_managers s) \<Longrightarrow> add_to_manager i e s = Some s' \<Longrightarrow> cs_step s s'"
| deleted: "i < length (cs_managers s) \<Longrightarrow> cs_step s (delete_ConstraintManager i s)"

inductive cs_reach :: "constraint_system \<Rightarrow> bool" where
  start: "cs_reach empty_system"
| step: "cs_reach s \<Longrightarrow> cs_step s s' \<Longrightarrow> cs_reach s'"
| held: "cs_reach s \<Longrightarrow> (\<And>n. n \<in> set ns \<Longrightarrow> nodes (cs_tree s) n \<noteq> None) \<Longrightarrow> cs_reach (hold_nodes ns s)"

lemma addConstraint_addable: "addConstraint e h t = Some r \<Longrightarrow> addable e"
  by (induction e h t arbitrary: r rule: addConstraint.induct) (auto split: bind_splits if_splits)

lemma manager_constraints: "cs_ok s \<Longrightarrow> m \<in> set (cs_managers s) \<Longrightarrow> \<exists>es. constraints (cs_tree s) m = Some es \<and> length es = cm_size (cs_tree s) m"
  using manager_chain [OF cs_okD(1) cs_okD(2)] by metis

lemma step_ok: "cs_step s s' \<Longrightarrow> cs_ok s \<Longrightarrow> cs_ok s' \<and> same_views s s' \<and> cs_held s' = cs_held s"
proof (induction rule: cs_step.induct)
  case (create s)
  then show ?case using new_ConstraintManager_ok by (simp add: new_ConstraintManager_def Let_def)
next
  case (copied i s)
  then show ?case using copy_ConstraintManager_ok by (simp add: copy_ConstraintManager_def)
next
  case (assigned i s j)
  then show ?case using assign_ConstraintManager_ok by (simp add: assign_ConstraintManager_def let_go_def Let_def)
next
  case (added i s e s')
  have "addable e" "cs_held s' = cs_held s" using added.hyps(2) addConstraint_addable by (auto simp: add_to_manager_def Let_def split: bind_splits)
  moreover obtain es where "constraints (cs_tree s) (cs_managers s ! i) = Some es" using manager_constraints [OF added.prems nth_mem [OF added.hyps(1)]] by blast
  ultimately show ?case using add_to_manager_ok [OF added.prems added.hyps(1)] added.hyps(2) by fastforce
next
  case (deleted i s)
  then show ?case using delete_ConstraintManager_ok by (simp add: delete_ConstraintManager_def let_go_def Let_def)
qed

lemma reach_cs_ok: "cs_reach s \<Longrightarrow> cs_ok s"
proof (induction rule: cs_reach.induct)
  case start
  then show ?case by (simp add: cs_ok_def empty_system_def tree_ok_def all_owned_def)
next
  case (held s ns)
  then show ?case using hold_nodes_ok(1) by blast
qed (use step_ok in blast)

text \<open>The constructor from a vector gives a manager with the conjuncts of all its elements.\<close>

lemma add_each_ok:
  "cs_ok s \<Longrightarrow> i < length (cs_managers s) \<Longrightarrow> (\<And>e. e \<in> set es \<Longrightarrow> addable e) \<Longrightarrow> constraints (cs_tree s) (cs_managers s ! i) = Some cs \<Longrightarrow>
     \<exists>s'. add_each i es s = Some s' \<and> cs_ok s' \<and> constraints (cs_tree s') (cs_managers s' ! i) = Some (rev (concat (map conjuncts es)) @ cs)"
proof (induction es arbitrary: s cs)
  case (Cons e es)
  obtain s1 where s1: "add_to_manager i e s = Some s1" "cs_ok s1" "length (cs_managers s1) = length (cs_managers s)"
    "constraints (cs_tree s1) (cs_managers s1 ! i) = Some (rev (conjuncts e) @ cs)"
    using add_to_manager_ok [OF Cons.prems(1,2) _ Cons.prems(4), of e] Cons.prems(3) by auto
  with Cons.IH [OF s1(2) _ _ s1(4)] Cons.prems(2,3) show ?case by auto
qed simp

lemma vector_ConstraintManager_ok:
  assumes "cs_ok s" "\<And>e. e \<in> set es \<Longrightarrow> addable e"
  shows "\<exists>s'. vector_ConstraintManager es s = Some s' \<and> cs_ok s'
    \<and> constraints (cs_tree s') (cs_managers s' ! length (cs_managers s)) = Some (rev (concat (map conjuncts es)))"
proof -
  let ?s = "new_ConstraintManager s"
  have "cs_managers ?s ! length (cs_managers s) = last (cs_managers ?s)" "length (cs_managers s) < length (cs_managers ?s)"
    by (simp_all add: new_ConstraintManager_def Let_def)
  with add_each_ok [OF new_ConstraintManager_ok(1) [OF assms(1)] _ assms(2), of "length (cs_managers s)" es "[]"] new_ConstraintManager_ok(3) [OF assms(1)]
  show ?thesis by (simp add: vector_ConstraintManager_def)
qed

section \<open>What constraints mean\<close>

lemma and_one: "bv 1 a \<Longrightarrow> bv 1 b \<Longrightarrow> a AND b = 1 \<longleftrightarrow> a = 1 \<and> b = 1" for a b :: int
proof -
  assume "bv 1 a" "bv 1 b"
  then have "a \<in> {0, 1}" "b \<in> {0, 1}" by (auto simp: bv_def)
  then show ?thesis by auto
qed

lemma conjuncts_eval:
  "wt e \<Longrightarrow> getWidth e = Bool \<Longrightarrow> addable e \<Longrightarrow> (\<forall>c \<in> set (conjuncts e). eval \<sigma> c = 1) \<longleftrightarrow> eval \<sigma> e = 1"
proof (induction e rule: conjuncts.induct)
  case (1 c)
  then show ?case using ConstantExpr_isTrue_iff(2) [of c True] by simp
next
  case (2 l r)
  then have "bv 1 (eval \<sigma> l)" "bv 1 (eval \<sigma> r)" using eval_bv [of l \<sigma>] eval_bv [of r \<sigma>] by auto
  with 2 and_one show ?case by auto
qed auto

section \<open>Properties\<close>

text \<open>
  C8. Adding a constraint to one manager of a program succeeds unless a conjunct is a constant that is not
  true. The manager then has the conjuncts before its old constraints, the last one first, so that an assignment
  satisfies them exactly when it satisfied the old ones and satisfies the new one; every other manager, also one that
  shares all the nodes, has the constraints it had.
\<close>

theorem addConstraint_correct:
  assumes "cs_reach s" "i < length (cs_managers s)" "addable e" "wt e" "getWidth e = Bool"
  shows "\<exists>s' es. add_to_manager i e s = Some s' \<and> length (cs_managers s') = length (cs_managers s)
    \<and> constraints (cs_tree s) (cs_managers s ! i) = Some es
    \<and> constraints (cs_tree s') (cs_managers s' ! i) = Some (rev (conjuncts e) @ es)
    \<and> (\<forall>\<sigma>. (\<forall>c \<in> set (rev (conjuncts e) @ es). eval \<sigma> c = 1) \<longleftrightarrow> eval \<sigma> e = 1 \<and> (\<forall>c \<in> set es. eval \<sigma> c = 1))
    \<and> (\<forall>j<length (cs_managers s). j \<noteq> i \<longrightarrow> cs_managers s' ! j = cs_managers s ! j
         \<and> constraints (cs_tree s') (cs_managers s' ! j) = constraints (cs_tree s) (cs_managers s ! j))"
proof -
  note ok = reach_cs_ok [OF assms(1)]
  obtain es where es: "constraints (cs_tree s) (cs_managers s ! i) = Some es" using manager_constraints [OF ok nth_mem [OF assms(2)]] by blast
  obtain s' where s': "add_to_manager i e s = Some s'" "same_views s s'" "length (cs_managers s') = length (cs_managers s)"
    "\<And>j. j < length (cs_managers s) \<Longrightarrow> j \<noteq> i \<Longrightarrow> cs_managers s' ! j = cs_managers s ! j"
    "constraints (cs_tree s') (cs_managers s' ! i) = Some (rev (conjuncts e) @ es)"
    using add_to_manager_ok [OF ok assms(2,3) es] by blast
  have "constraints (cs_tree s') (cs_managers s' ! j) = constraints (cs_tree s) (cs_managers s ! j)" if "j < length (cs_managers s)" "j \<noteq> i" for j
    using s'(2) s'(4) [OF that] nth_mem [OF that(1)] nth_mem [of j "cs_managers s'"] that(1) s'(3) by (simp add: same_views_def)
  moreover have "(\<forall>c \<in> set (rev (conjuncts e) @ es). eval \<sigma> c = 1) \<longleftrightarrow> eval \<sigma> e = 1 \<and> (\<forall>c \<in> set es. eval \<sigma> c = 1)" for \<sigma>
    using conjuncts_eval [OF assms(4,5,3)] by (auto simp: ball_Un)
  ultimately show ?thesis using s' es by blast
qed

text \<open>
  C13. The walk from \<^verbatim>\<open>begin\<close> to \<^verbatim>\<open>end\<close> of a manager ends: it visits as many constraints as \<^verbatim>\<open>size\<close> says, and none
  of its nodes was freed. Two managers with one root are equal, which compares pointers, exactly when they have the same
  constraints; and a node that is still alive has an owner.
\<close>

theorem constraint_walk_terminates:
  assumes "cs_reach s" "m \<in> set (cs_managers s)" "m' \<in> set (cs_managers s)" "cm_root m = cm_root m'"
  shows "(\<exists>es. constraints (cs_tree s) m = Some es \<and> length es = cm_size (cs_tree s) m)
    \<and> (cm_equal m m' \<longleftrightarrow> constraints (cs_tree s) m = constraints (cs_tree s) m')
    \<and> (\<forall>n. nodes (cs_tree s) n \<noteq> None \<longrightarrow> owned (cs_tree s) (owners s) n)"
proof -
  note ok = reach_cs_ok [OF assms(1)]
  from same_constraints_same_head [OF cs_okD(1) [OF ok] cs_okD(2) [OF ok assms(2)] cs_okD(2) [OF ok assms(3)] assms(4)]
  have "cm_equal m m' \<longleftrightarrow> constraints (cs_tree s) m = constraints (cs_tree s) m'"
    using assms(4) by (cases m; cases m') (auto simp: cm_equal_def)
  with manager_constraints [OF ok assms(2)] cs_okD(4) [OF ok] show ?thesis by (simp add: all_owned_def)
qed

section \<open>An example\<close>

definition condition :: "nat \<Rightarrow> expr" where
  "condition k = ExtractExpr (ReadExpr \<lparr>arr_addr = 1, arr_name = ''a'', arr_size = 4, constantValues = []\<rparr> NoUpdate (ConstantExpr (APInt 32 (int k)))) 0 1"

definition forked :: constraint_system where
  "forked = copy_ConstraintManager 0 (new_ConstraintManager empty_system)"

lemma forked_reach: "cs_reach forked" "length (cs_managers forked) = 2" "cs_managers forked ! 0 = cs_managers forked ! 1"
proof -
  have "length (cs_managers (new_ConstraintManager empty_system)) = 1" by (simp add: new_ConstraintManager_def empty_system_def Let_def)
  with cs_reach.step [OF cs_reach.step [OF cs_reach.start cs_step.create] cs_step.copied] show "cs_reach forked" "length (cs_managers forked) = 2"
    by (simp_all add: forked_def copy_ConstraintManager_def)
  show "cs_managers forked ! 0 = cs_managers forked ! 1" by (simp add: forked_def copy_ConstraintManager_def new_ConstraintManager_def empty_system_def Let_def)
qed

theorem addConstraint_correct_witness:
  "\<exists>s' es. add_to_manager 0 (AndExpr (condition 0) (condition 1)) forked = Some s'
    \<and> constraints (cs_tree s') (cs_managers s' ! 0) = Some ([condition 1, condition 0] @ es)
    \<and> constraints (cs_tree s') (cs_managers s' ! 1) = Some es"
proof -
  have c: "addable (AndExpr (condition 0) (condition 1))" "wt (AndExpr (condition 0) (condition 1))" "getWidth (AndExpr (condition 0) (condition 1)) = Bool"
    "conjuncts (AndExpr (condition 0) (condition 1)) = [condition 0, condition 1]"
    by (simp_all add: condition_def array_ok_def ap_wf_def bv_def)
  have i: "(0 :: nat) < length (cs_managers forked)" using forked_reach(2) by simp
  obtain s' es where s: "add_to_manager 0 (AndExpr (condition 0) (condition 1)) forked = Some s'" "constraints (cs_tree forked) (cs_managers forked ! 0) = Some es"
    "constraints (cs_tree s') (cs_managers s' ! 0) = Some (rev [condition 0, condition 1] @ es)"
    "\<forall>j<2. j \<noteq> 0 \<longrightarrow> cs_managers s' ! j = cs_managers forked ! j
       \<and> constraints (cs_tree s') (cs_managers s' ! j) = constraints (cs_tree forked) (cs_managers forked ! j)"
    using addConstraint_correct [OF forked_reach(1) i c(1-3), unfolded c(4) forked_reach(2)] by blast
  have "constraints (cs_tree s') (cs_managers s' ! 1) = Some es" using s(4) [rule_format, of 1, THEN conjunct2] s(2) forked_reach(3) by simp
  with s(1,3) show ?thesis by simp
qed

theorem constraint_walk_terminates_witness:
  "\<exists>es. constraints (cs_tree forked) (cs_managers forked ! 0) = Some es \<and> length es = cm_size (cs_tree forked) (cs_managers forked ! 0)"
  using constraint_walk_terminates [OF forked_reach(1), of "cs_managers forked ! 0" "cs_managers forked ! 1"] forked_reach(2,3) by (simp add: nth_mem)

end
