(* ===== verification/Z3Stack.thy ===== *)
theory Z3Stack
  imports PathConstraints
begin

text \<open>
  The incremental use of Z3: \<^verbatim>\<open>Z3StackSolverImpl\<close> of \<^verbatim>\<open>src/klee/lib/Solver/Z3Solver.cpp\<close> keeps the constraints of the last
  query asserted, one to a scope, and finds the part that the next query shares by comparing nodes of the
  condition tree. The reference is \<^verbatim>\<open>Z3ResetSolverImpl\<close>, which starts from an empty solver each time.
\<close>

section \<open>Z3\<close>

text \<open>
  The solver is a parameter, with its documented behaviour: scopes, each with the formulas asserted in it. An operation of
  the solver and the same operation of the builder, which keeps its cache in step, are one. The translation of
  expressions is an argument.
\<close>

datatype check_result = z3_unsat | z3_sat | z3_unknown

record ('s, 'f) z3_rt =
  z3_push :: "'s \<Rightarrow> 's"
  z3_pop :: "nat \<Rightarrow> 's \<Rightarrow> 's"
  z3_add :: "'f \<Rightarrow> 's \<Rightarrow> 's"
  z3_reset :: "'s \<Rightarrow> 's"
  z3_check :: "'s \<Rightarrow> check_result \<times> 's"
  z3_not :: "'f \<Rightarrow> 'f"
  construct :: "expr \<Rightarrow> 'f"

locale z3_scopes =
  fixes Z :: "('s, 'f) z3_rt" and scopes :: "'s \<Rightarrow> 'f list list"
  assumes scopes_push: "scopes (z3_push Z s) = [] # scopes s"
    and scopes_pop: "n < length (scopes s) \<Longrightarrow> scopes (z3_pop Z n s) = drop n (scopes s)"
    and scopes_add: "scopes s = x # xs \<Longrightarrow> scopes (z3_add Z f s) = (f # x) # xs"
    and scopes_reset: "scopes (z3_reset Z s) = [[]]"
    and scopes_check: "scopes (snd (z3_check Z s)) = scopes s"

section \<open>The stack solver\<close>

text \<open>The nodes of the constraints of a query, the oldest first.\<close>

definition condition_nodes :: "nat \<Rightarrow> constraint_system \<Rightarrow> nat list option" where
  "condition_nodes i s =
     (let m = cs_managers s ! i in map_option rev (chain (cm_size (cs_tree s) m + 1) (cs_tree s) (cm_root m) (cm_head m)))"

fun skip_common :: "nat list \<Rightarrow> nat list \<Rightarrow> nat list \<times> nat list" where
  "skip_common (c # cs) (l # ls) = (if c = l then skip_common cs ls else (c # cs, l # ls))"
| "skip_common cs ls = (cs, ls)"

definition pop_amount :: "condition_tree \<Rightarrow> nat list \<Rightarrow> nat list \<Rightarrow> nat option" where
  "pop_amount t lasts rest =
     do { b \<leftarrow> nodes t (last lasts); f \<leftarrow> nodes t (hd rest); Some ((1 + cn_depth b - cn_depth f) mod 2 ^ 32) }"

fun push_all :: "('s, 'f) z3_rt \<Rightarrow> condition_tree \<Rightarrow> nat list \<Rightarrow> 's \<Rightarrow> 's option" where
  "push_all Z t [] z = Some z"
| "push_all Z t (n # ns) z = do { e \<leftarrow> node_expr t n; push_all Z t ns (z3_add Z (construct Z e) (z3_push Z z)) }"

text \<open>What \<^verbatim>\<open>check\<close> does before it asks the solver; the list of the last constraints owns its nodes.\<close>

definition stack_prepare :: "('s, 'f) z3_rt \<Rightarrow> nat \<Rightarrow> expr \<Rightarrow> 's \<times> constraint_system \<Rightarrow> ('s \<times> constraint_system) option" where
  "stack_prepare Z i q = (\<lambda>(z, s).
     do { cur \<leftarrow> condition_nodes i s;
          let lasts = cs_held s;
          let (cur_rest, last_rest) = skip_common cur lasts;
          z \<leftarrow> (if last_rest \<noteq> [] then do { amount \<leftarrow> pop_amount (cs_tree s) lasts last_rest; Some (z3_pop Z amount z) } else Some z);
          z \<leftarrow> push_all Z (cs_tree s) cur_rest z;
          Some (z3_add Z (z3_not Z (construct Z q)) (z3_push Z z), hold_nodes cur s) })"

definition stack_check :: "('s, 'f) z3_rt \<Rightarrow> nat \<Rightarrow> expr \<Rightarrow> 's \<times> constraint_system \<Rightarrow> (check_result \<times> 's \<times> constraint_system) option" where
  "stack_check Z i q zs = do { (z, s) \<leftarrow> stack_prepare Z i q zs; let (r, z) = z3_check Z z; Some (r, z, s) }"

definition stack_postCheck :: "('s, 'f) z3_rt \<Rightarrow> 's \<Rightarrow> 's" where
  "stack_postCheck Z z = z3_pop Z 1 z"

section \<open>The solver that is reset\<close>

fun add_all :: "('s, 'f) z3_rt \<Rightarrow> condition_tree \<Rightarrow> nat list \<Rightarrow> 's \<Rightarrow> 's option" where
  "add_all Z t [] z = Some z"
| "add_all Z t (n # ns) z = do { e \<leftarrow> node_expr t n; add_all Z t ns (z3_add Z (construct Z e) z) }"

definition reset_prepare :: "('s, 'f) z3_rt \<Rightarrow> nat \<Rightarrow> expr \<Rightarrow> 's \<times> constraint_system \<Rightarrow> 's option" where
  "reset_prepare Z i q = (\<lambda>(z, s).
     do { cur \<leftarrow> condition_nodes i s;
          z \<leftarrow> add_all Z (cs_tree s) cur z;
          Some (z3_add Z (z3_not Z (construct Z q)) z) })"

definition reset_check :: "('s, 'f) z3_rt \<Rightarrow> nat \<Rightarrow> expr \<Rightarrow> 's \<times> constraint_system \<Rightarrow> (check_result \<times> 's) option" where
  "reset_check Z i q zs = do { z \<leftarrow> reset_prepare Z i q zs; Some (z3_check Z z) }"

definition reset_postCheck :: "('s, 'f) z3_rt \<Rightarrow> 's \<Rightarrow> 's" where
  "reset_postCheck Z z = z3_reset Z z"

section \<open>Questions of validity\<close>

text \<open>
  \<^verbatim>\<open>computeInitialValues\<close> for no objects, where there is no model to extract, tells whether there is a solution;
  an unknown result is a failure of the query. \<^verbatim>\<open>computeTruth\<close> turns it round.
\<close>

definition has_solution :: "check_result \<Rightarrow> bool option" where
  "has_solution r = (case r of z3_unknown \<Rightarrow> None | z3_unsat \<Rightarrow> Some False | z3_sat \<Rightarrow> Some True)"

definition stack_computeTruth :: "('s, 'f) z3_rt \<Rightarrow> nat \<Rightarrow> expr \<Rightarrow> 's \<times> constraint_system \<Rightarrow> (bool option \<times> 's \<times> constraint_system) option" where
  "stack_computeTruth Z i q zs =
     do { (r, z, s) \<leftarrow> stack_check Z i q zs; Some (map_option Not (has_solution r), stack_postCheck Z z, s) }"

definition reset_computeTruth :: "('s, 'f) z3_rt \<Rightarrow> nat \<Rightarrow> expr \<Rightarrow> 's \<times> constraint_system \<Rightarrow> (bool option \<times> 's) option" where
  "reset_computeTruth Z i q zs = do { (r, z) \<leftarrow> reset_check Z i q zs; Some (map_option Not (has_solution r), reset_postCheck Z z) }"

section \<open>Lists of nodes\<close>

lemma skip_common_split: "skip_common cs ls = (c, l) \<Longrightarrow> \<exists>p. cs = p @ c \<and> ls = p @ l"
proof (induction cs ls arbitrary: c l rule: skip_common.induct)
  case (1 x cs y ls)
  show ?case
  proof (cases "x = y")
    case True
    with 1 obtain p where "cs = p @ c" "ls = p @ l" by auto
    with True show ?thesis by (intro exI [of _ "x # p"]) simp
  qed (use 1 in simp)
qed auto

text \<open>A list of nodes that starts below the root and goes down.\<close>

definition downwards :: "condition_tree \<Rightarrow> nat list \<Rightarrow> bool" where
  "downwards t ns \<longleftrightarrow> (\<forall>k<length ns. \<exists>nd e. nodes t (ns ! k) = Some nd \<and> cn_depth nd = k + 1 \<and> cn_expr nd = Some e)"

lemma chain_downwards:
  assumes "tree_ok t" "nodes t r = Some rd" "cn_depth rd = 0"
  shows "chain k t r n = Some ns \<Longrightarrow> downwards t (rev ns)"
proof (induction k arbitrary: n ns)
  case (Suc k)
  show ?case
  proof (cases "n = r")
    case False
    with Suc.prems obtain nd p ns' where n: "nodes t n = Some nd" "cn_parent nd = Some p" "chain k t r p = Some ns'" "ns = n # ns'" by (rule chain_Suc)
    have "length ns = cn_depth nd" by (rule chain_depth [OF assms(1) Suc.prems n(1) assms(2,3)])
    moreover obtain e where "cn_expr nd = Some e" using tree_okD(3) [OF assms(1) n(1,2)] by blast
    ultimately show ?thesis using Suc.IH [OF n(3)] n(1,4) by (auto simp: downwards_def nth_append less_Suc_eq)
  qed (use Suc.prems in \<open>simp add: downwards_def\<close>)
qed simp

lemma pop_amount_downwards:
  assumes "downwards t (p @ l)" "l \<noteq> []" "length (p @ l) < 2 ^ 32"
  shows "pop_amount t (p @ l) l = Some (length l)"
proof -
  let ?n = "length (p @ l)"
  have n: "?n - 1 < ?n" "length p < ?n" "?n - 1 + 1 = ?n" using assms(2) by (cases l; simp)+
  obtain b where b: "nodes t ((p @ l) ! (?n - 1)) = Some b" "cn_depth b = ?n" using assms(1) n(1,3) unfolding downwards_def by metis
  obtain f where f: "nodes t ((p @ l) ! length p) = Some f" "cn_depth f = length p + 1" using assms(1) n(2) unfolding downwards_def by metis
  have "last (p @ l) = (p @ l) ! (?n - 1)" "hd l = (p @ l) ! length p"
    using assms(2) last_conv_nth [of "p @ l"] hd_conv_nth [of l] by (simp_all add: nth_append)
  with b f assms(3) show ?thesis by (simp add: pop_amount_def)
qed

text \<open>The scopes for a list of nodes, the innermost first.\<close>

definition scopes_of :: "('s, 'f) z3_rt \<Rightarrow> condition_tree \<Rightarrow> nat list \<Rightarrow> 'f list list" where
  "scopes_of Z t ns = map (\<lambda>n. [construct Z (the (node_expr t n))]) (rev ns)"

lemma scopes_of_append: "scopes_of Z t (a @ b) = scopes_of Z t b @ scopes_of Z t a"
  by (simp add: scopes_of_def)

lemma scopes_of_constraints:
  assumes "those (map (node_expr t) ns) = Some es"
  shows "scopes_of Z t (rev ns) = map (\<lambda>e. [construct Z e]) es"
proof -
  have "map (the \<circ> node_expr t) ns = es" using those_Some [OF assms] by (metis map_idI map_map option.sel comp_apply)
  then show ?thesis by (auto simp: scopes_of_def)
qed

lemma downwards_expr: "downwards t ns \<Longrightarrow> n \<in> set ns \<Longrightarrow> \<exists>e. node_expr t n = Some e"
  by (auto simp: downwards_def in_set_conv_nth node_expr_def)

text \<open>Nodes that keep their links keep both.\<close>

lemma same_links_nodes:
  assumes "downwards t ns" "\<And>n nd. n \<in> set ns \<Longrightarrow> nodes t n = Some nd \<Longrightarrow> \<exists>nd'. nodes t' n = Some nd' \<and> same_links nd nd'"
  shows "downwards t' ns" "scopes_of Z t' ns = scopes_of Z t ns"
proof -
  have l: "\<exists>nd nd'. nodes t n = Some nd \<and> nodes t' n = Some nd' \<and> same_links nd nd'" if "n \<in> set ns" for n
    using downwards_expr [OF assms(1) that] assms(2) [OF that] by (auto simp: node_expr_def split: bind_splits)
  have "\<exists>nd e. nodes t' (ns ! k) = Some nd \<and> cn_depth nd = k + 1 \<and> cn_expr nd = Some e" if "k < length ns" for k
    using l [OF nth_mem [OF that]] assms(1) that unfolding downwards_def same_links_def by force
  then show "downwards t' ns" by (simp add: downwards_def)
  have "node_expr t' n = node_expr t n" if "n \<in> set ns" for n using l [OF that] by (auto simp: node_expr_def same_links_def)
  then show "scopes_of Z t' ns = scopes_of Z t ns" by (simp add: scopes_of_def)
qed

section \<open>Runs\<close>

inductive stack_run :: "('s, 'f) z3_rt \<Rightarrow> 's \<Rightarrow> 's \<times> constraint_system \<Rightarrow> bool" for Z z0 where
  begins: "cs_reach s \<Longrightarrow> cs_held s = [] \<Longrightarrow> stack_run Z z0 (z0, s)"
| program: "stack_run Z z0 (z, s) \<Longrightarrow> cs_step s s' \<Longrightarrow> stack_run Z z0 (z, s')"
| asked: "stack_run Z z0 (z, s) \<Longrightarrow> i < length (cs_managers s) \<Longrightarrow> cm_size (cs_tree s) (cs_managers s ! i) < 2 ^ 32 \<Longrightarrow>
    stack_computeTruth Z i q (z, s) = Some (r, z', s') \<Longrightarrow> stack_run Z z0 (z', s')"

text \<open>The solver has the constraints of the last query asserted, one to a scope.\<close>

definition stack_inv :: "('s, 'f) z3_rt \<Rightarrow> ('s \<Rightarrow> 'f list list) \<Rightarrow> 's \<times> constraint_system \<Rightarrow> bool" where
  "stack_inv Z scopes = (\<lambda>(z, s). cs_ok s \<and> downwards (cs_tree s) (cs_held s) \<and> length (cs_held s) < 2 ^ 32
     \<and> scopes z = scopes_of Z (cs_tree s) (cs_held s) @ [[]])"

context z3_scopes
begin

lemma push_all_scopes:
  "(\<And>n. n \<in> set ns \<Longrightarrow> \<exists>e. node_expr t n = Some e) \<Longrightarrow> \<exists>z'. push_all Z t ns z = Some z' \<and> scopes z' = scopes_of Z t ns @ scopes z"
proof (induction ns arbitrary: z)
  case (Cons n ns)
  obtain e where e: "node_expr t n = Some e" using Cons.prems by auto
  have "scopes (z3_add Z (construct Z e) (z3_push Z z)) = [construct Z e] # scopes z" by (rule scopes_add [OF scopes_push])
  with Cons.IH [of "z3_add Z (construct Z e) (z3_push Z z)"] Cons.prems e show ?case by (auto simp: scopes_of_def)
qed (simp add: scopes_of_def)

lemma add_all_scopes:
  "(\<And>n. n \<in> set ns \<Longrightarrow> \<exists>e. node_expr t n = Some e) \<Longrightarrow> scopes z = [x] \<Longrightarrow>
     \<exists>z'. add_all Z t ns z = Some z' \<and> scopes z' = [concat (scopes_of Z t ns) @ x]"
proof (induction ns arbitrary: z x)
  case (Cons n ns)
  obtain e where e: "node_expr t n = Some e" using Cons.prems(1) by auto
  have "scopes (z3_add Z (construct Z e) z) = [construct Z e # x]" by (rule scopes_add [OF Cons.prems(2)])
  with Cons.IH [of "z3_add Z (construct Z e) z" "construct Z e # x"] Cons.prems(1) e show ?case by (auto simp: scopes_of_def)
qed (simp add: scopes_of_def)

lemma stack_prepare_ok:
  assumes "stack_inv Z scopes (z, s)" "i < length (cs_managers s)" "cm_size (cs_tree s) (cs_managers s ! i) < 2 ^ 32"
  shows "\<exists>z' cur es. stack_prepare Z i q (z, s) = Some (z', hold_nodes cur s) \<and> condition_nodes i s = Some cur
    \<and> constraints (cs_tree s) (cs_managers s ! i) = Some es \<and> scopes_of Z (cs_tree s) cur = map (\<lambda>e. [construct Z e]) es
    \<and> downwards (cs_tree s) cur \<and> length cur < 2 ^ 32 \<and> scopes z' = [z3_not Z (construct Z q)] # scopes_of Z (cs_tree s) cur @ [[]]"
proof -
  let ?m = "cs_managers s ! i" and ?t = "cs_tree s"
  have ok: "cs_ok s" and h: "downwards ?t (cs_held s)" "length (cs_held s) < 2 ^ 32" "scopes z = scopes_of Z ?t (cs_held s) @ [[]]"
    using assms(1) by (simp_all add: stack_inv_def)
  note m = cs_okD(2) [OF ok nth_mem [OF assms(2)]]
  obtain ns es where ns: "chain (cm_size ?t ?m + 1) ?t (cm_root ?m) (cm_head ?m) = Some ns" "length ns = cm_size ?t ?m"
    "those (map (node_expr ?t) ns) = Some es" "constraints ?t ?m = Some es" using manager_chain [OF cs_okD(1) [OF ok] m] by metis
  obtain rd where "nodes ?t (cm_root ?m) = Some rd" "cn_depth rd = 0" using m by (auto simp: manager_ok_def)
  note d = chain_downwards [OF cs_okD(1) [OF ok] this ns(1)]
  obtain c l where cl: "skip_common (rev ns) (cs_held s) = (c, l)" by fastforce
  then obtain p where p: "rev ns = p @ c" "cs_held s = p @ l" using skip_common_split by blast
  obtain z1 where z1: "(if l \<noteq> [] then do { amount \<leftarrow> pop_amount ?t (cs_held s) l; Some (z3_pop Z amount z) } else Some z) = Some z1"
    "scopes z1 = scopes_of Z ?t p @ [[]]"
  proof (cases "l = []")
    case False
    have "scopes (z3_pop Z (length l) z) = scopes_of Z ?t p @ [[]]"
      using scopes_pop [of "length l" z] h(3) p(2) by (simp add: scopes_of_append) (simp add: scopes_of_def)
    with that False pop_amount_downwards [of ?t p l] h(1,2) p(2) show ?thesis by simp
  qed (use that h(3) p(2) in simp)
  have "\<exists>e. node_expr ?t n = Some e" if "n \<in> set c" for n using downwards_expr [OF d, of n] that p(1) by simp
  from push_all_scopes [of c ?t z1, OF this] obtain z2 where z2: "push_all Z ?t c z1 = Some z2" "scopes z2 = scopes_of Z ?t (rev ns) @ [[]]"
    using z1(2) p(1) by (auto simp: scopes_of_append)
  have "scopes (z3_add Z (z3_not Z (construct Z q)) (z3_push Z z2)) = [z3_not Z (construct Z q)] # scopes_of Z ?t (rev ns) @ [[]]"
    using scopes_add [OF scopes_push] z2(2) by simp
  moreover have "stack_prepare Z i q (z, s) = Some (z3_add Z (z3_not Z (construct Z q)) (z3_push Z z2), hold_nodes (rev ns) s)"
    using ns(1) cl z1(1) z2(1) by (simp add: stack_prepare_def condition_nodes_def Let_def del: chain.simps split del: if_split)
  moreover have "condition_nodes i s = Some (rev ns)" using ns(1) by (simp add: condition_nodes_def Let_def)
  ultimately show ?thesis using ns(2,4) scopes_of_constraints [OF ns(3)] d assms(3) by (metis length_rev)
qed

lemma stack_run_inv: "stack_run Z z0 zs \<Longrightarrow> scopes z0 = [[]] \<Longrightarrow> stack_inv Z scopes zs"
proof (induction rule: stack_run.induct)
  case (begins s)
  then show ?case using reach_cs_ok by (simp add: stack_inv_def downwards_def scopes_of_def)
next
  case (program z s s')
  then have inv: "cs_ok s" "downwards (cs_tree s) (cs_held s)" "length (cs_held s) < 2 ^ 32" "scopes z = scopes_of Z (cs_tree s) (cs_held s) @ [[]]"
    by (simp_all add: stack_inv_def)
  have st: "cs_ok s'" "same_views s s'" "cs_held s' = cs_held s" using step_ok [OF program.hyps(2) inv(1)] by simp_all
  note l = same_links_nodes(1) [OF inv(2), of "cs_tree s'"] same_links_nodes(2) [OF inv(2), of "cs_tree s'" Z]
  from st l inv show ?case by (simp add: stack_inv_def same_views_def)
next
  case (asked z s i q r z' s')
  obtain z1 cur where p: "stack_prepare Z i q (z, s) = Some (z1, hold_nodes cur s)" "condition_nodes i s = Some cur" "downwards (cs_tree s) cur" "length cur < 2 ^ 32"
    "scopes z1 = [z3_not Z (construct Z q)] # scopes_of Z (cs_tree s) cur @ [[]]"
    using stack_prepare_ok [OF asked.IH [OF asked.prems] asked.hyps(2,3), of q] by blast
  have z': "z' = stack_postCheck Z (snd (z3_check Z z1))" "s' = hold_nodes cur s"
    using asked.hyps(4) p(1) by (auto simp: stack_computeTruth_def stack_check_def split: prod.splits)
  have "nodes (cs_tree s) n \<noteq> None" if "n \<in> set cur" for n using downwards_expr [OF p(3) that] by (auto simp: node_expr_def split: bind_splits)
  note h = hold_nodes_ok [OF _ this]
  have ok: "cs_ok s" using asked.IH [OF asked.prems] by (simp add: stack_inv_def)
  have "scopes z' = scopes_of Z (cs_tree s) cur @ [[]]"
    using scopes_pop [of 1 "snd (z3_check Z z1)"] p(5) z'(1) scopes_check [of z1] by (simp add: stack_postCheck_def)
  with same_links_nodes(1) [OF p(3), of "cs_tree (hold_nodes cur s)"] same_links_nodes(2) [OF p(3), of "cs_tree (hold_nodes cur s)" Z] h [OF ok] p(4) z'(2) show ?case by (simp add: stack_inv_def same_views_def)
qed

lemma reset_prepare_ok:
  assumes "cs_ok s" "i < length (cs_managers s)" "scopes z = [[]]" "condition_nodes i s = Some cur" "downwards (cs_tree s) cur"
  shows "\<exists>z'. reset_prepare Z i q (z, s) = Some z' \<and> scopes z' = [z3_not Z (construct Z q) # concat (scopes_of Z (cs_tree s) cur)]"
proof -
  obtain z1 where "add_all Z (cs_tree s) cur z = Some z1" "scopes z1 = [concat (scopes_of Z (cs_tree s) cur)]"
    using add_all_scopes [of cur "cs_tree s" z "[]", OF downwards_expr [OF assms(5)] assms(3)] by auto
  with assms(4) scopes_add [of z1] show ?thesis by (simp add: reset_prepare_def)
qed

end

section \<open>A solver\<close>

text \<open>The scopes themselves, with a formula for every expression and its negation.\<close>

datatype formula = Formula expr | Negation formula

definition z3_ref :: "(formula list list, formula) z3_rt" where
  "z3_ref = \<lparr>z3_push = Cons [], z3_pop = drop, z3_add = (\<lambda>f s. case s of [] \<Rightarrow> [] | x # xs \<Rightarrow> (f # x) # xs), z3_reset = (\<lambda>_. [[]]),
     z3_check = Pair z3_unknown, z3_not = Negation, construct = Formula\<rparr>"

interpretation z3s: z3_scopes z3_ref "\<lambda>s. s"
  by unfold_locales (simp_all add: z3_ref_def)

section \<open>Property\<close>



end
