(* ===== verification/Spec2Isabelle.thy ===== *)
theory Spec2Isabelle
  imports ExprOrder SolverChain FastResolution ObjectStates Z3Stack
begin

text \<open>
  A verification of the symbolic core of Chef: the part of KLEE, as S2E and Chef use it, that represents symbolic values,
  keeps the memory of forking states, collects path constraints, and asks solvers.

  \<^bold>\<open>The program.\<close> Chef runs a program inside QEMU. S2E hands the parts that touch symbolic data to the interpreter of
  KLEE. The interpreter builds expressions, which simplify themselves as they are built. A state of execution has an
  address space, a persistent map from memory objects to object states that a fork shares and a write copies; an object
  state has concrete and symbolic bytes. A pointer is resolved to objects, with questions to a solver when it is symbolic. A
  branch adds a constraint to the tree of conditions. Solvers are layered: caches and partial solvers above Z3 or STP.

  \<^bold>\<open>Conventions.\<close> A function of the program that can fail an assertion, read outside an array or use a null reference returns
  an option, and such a failure is \<^const>\<open>None\<close>; a query to a solver has an outcome type of its own, which tells a failing
  query from a failing assertion. State is passed explicitly. Code that is not part of the sources is an argument: LLVM's
  APInt and the comparison of pointers in a record with the laws of the locale \<^verbatim>\<open>klee_rt_laws\<close>, Z3 in a record with the laws of
  \<^verbatim>\<open>z3_scopes\<close>; each has a reference instance, at which the witnesses evaluate. The value of an expression under an
  assignment of bytes to arrays is the specification of everything that builds expressions.

  \<^bold>\<open>Theories and sources.\<close>
  \<^item> \<^verbatim>\<open>Prelude\<close>, \<^verbatim>\<open>APInt\<close>: the option monad, generic lemmas, and the integers of LLVM.
  \<^item> \<^verbatim>\<open>ExprCore\<close> to \<^verbatim>\<open>ExprOrder\<close>: \<^verbatim>\<open>src/klee/lib/Expr/Expr.cpp\<close>, \<^verbatim>\<open>Updates.cpp\<close> and \<^verbatim>\<open>include/klee/Expr.h\<close>. One datatype for the
    class hierarchy, one function for every \<^verbatim>\<open>create\<close>, with its partial and static helpers. Every constructor returns a
    well-typed expression with the value of its kind; \<^verbatim>\<open>rebuild\<close> is a congruence; \<^verbatim>\<open>compare\<close> is a total order.
  \<^item> \<^verbatim>\<open>BitfieldSimplifier\<close>: the analysis of known and ignored bits (\<^verbatim>\<open>lib/Expr/BitfieldSimplifier.cpp\<close>). The analysis of one
    node is sound; the cache of the analysis is not.
  \<^item> \<^verbatim>\<open>ImmutableTree\<close>, \<^verbatim>\<open>TreeIterator\<close>, \<^verbatim>\<open>ImmutableMap\<close>: the persistent AVL tree, its iterators with their stack, maps and sets
    (\<^verbatim>\<open>include/klee/Internal/ADT\<close>). They refine maps and sets, stay balanced, and iterate in order within the capacity of the stack.
  \<^item> \<^verbatim>\<open>SolverCore\<close>, \<^verbatim>\<open>SolverRange\<close>, \<^verbatim>\<open>SolverChain\<close>: queries, the questions of clients, exact ranges by binary search, and the caching,
    staged and validating solvers (\<^verbatim>\<open>lib/Solver\<close>), each a solver again when what is below it is one.
  \<^item> \<^verbatim>\<open>AddressSpace\<close>, \<^verbatim>\<open>PointerChecks\<close>, \<^verbatim>\<open>Resolution\<close>, \<^verbatim>\<open>FastResolution\<close>: address spaces over a store of object states,
    bounds checks, and the resolution of pointers (\<^verbatim>\<open>lib/Core/AddressSpace.cpp\<close>, \<^verbatim>\<open>TimingSolver.cpp\<close>, \<^verbatim>\<open>include/klee/Memory.h\<close>).
    States are isolated from each other, and resolution finds every object a pointer can be in.
  \<^item> \<^verbatim>\<open>BitArray\<close>, \<^verbatim>\<open>ObjectMemory\<close>, \<^verbatim>\<open>ObjectContents\<close>, \<^verbatim>\<open>ObjectWords\<close>, \<^verbatim>\<open>ObjectStates\<close>: object states (\<^verbatim>\<open>lib/Core/Memory.cpp\<close>). Reads
    and writes at constant and symbolic offsets refine those of a function from offsets to bytes, and the invariants that the
    source states in a comment hold in every reachable state.
  \<^item> \<^verbatim>\<open>ConditionTree\<close>, \<^verbatim>\<open>ConstraintManagers\<close>, \<^verbatim>\<open>PathConstraints\<close>: the tree of conditions as a heap with owners
    (\<^verbatim>\<open>include/klee/Constraints.h\<close>, \<^verbatim>\<open>lib/Expr/Constraints.cpp\<close>). Every manager sees its own constraints, equal managers are those
    with equal constraints, and nodes live as long as they have owners.
  \<^item> \<^verbatim>\<open>Z3Stack\<close>: the incremental solver of \<^verbatim>\<open>lib/Solver/Z3Solver.cpp\<close>, which asserts what the solver that starts anew would assert.

  \<^bold>\<open>Interfaces.\<close> \<^verbatim>\<open>key_order\<close> is what the tree needs of its keys, \<^verbatim>\<open>solver_contract\<close> what a client needs of a solver,
  \<^verbatim>\<open>bit_store\<close> what an object state needs of its masks, and \<^verbatim>\<open>z3_scopes\<close> what the stack solver needs of Z3.

  \<^bold>\<open>Bounds and fuel.\<close> Widths of expressions are at most 64 bits where a theorem says \<^verbatim>\<open>narrow\<close>, which is where the code
  takes values out as 64-bit words. Objects and arrays are smaller than 4 GB, since sizes and indices have 32 bits. The loops of
  resolution have one more than the number of objects as fuel, and the theorems show that they end within it; so do
  iterators, whose fuel is more than the number of elements, and the walk over constraints, whose fuel is the depth of the head and one. The
  simplifier has fuel for the depth of its recursion; its theorems are about a node and about two runs that end. The
  constructors and the binary searches are total functions with termination proofs.

  \<^bold>\<open>What the theorems found.\<close> The simplifier returns a wrong constant after a query has filled its cache; the quick resolution of
  pointers compares sizes the wrong way round; resolution with a limit of one returns more objects; a big-endian read of more than one byte
  uses a null reference; and a test of the masks of an object reads past their end.

  \<^bold>\<open>Not modelled.\<close> Reference counts of expressions, tree nodes and object states, since values are immutable or copied
  explicitly here; only the condition tree, where lifetimes decide what is shared, has owners. Statistics, time limits and output. The
  evaluation of expressions by visitors and the solvers above it (counterexample caches, independent constraints, fast
  counterexamples): they meet the solver interface, but their own code is not covered. The translations to STP and Z3, STP itself, and the
  extraction of models: their meaning is that of the solvers. The interpreter of LLVM bitcode, its special functions and the passes on
  modules: they work on the classes of LLVM. Search, seeds, statistics, test files, parsers and printers. The S2E engine and its plugins, Chef's
  reconstruction of high-level paths, QEMU, the runtime libraries, tools and scripts: they depend on the layout of the
  emulator, on generated code, on a guest, or on the host.
\<close>

end
